(* ===== verification/Prelude.thy ===== *)
theory Prelude
  imports Main "HOL-Library.Word" "HOL-Library.AList" "HOL-Library.Multiset"
begin

text \<open>
  Shared vocabulary of the development.

  \<^item> Go integers: \<open>uint16\<close> .. \<open>int32\<close> are words of their width; a Go \<open>int\<close> or a
    length is a \<open>nat\<close> or an \<open>int\<close> whose bound is stated where it matters.
  \<^item> A Go \<open>string\<close> or \<open>[]byte\<close> is a byte string: Isabelle's \<open>string\<close> (a list of 8-bit
    characters).
  \<^item> A Go slice whose nil-ness is observable is an \<open>'a slice\<close> (\<open>None\<close> is nil).
  \<^item> A Go \<open>error\<close> result is an \<open>'e option\<close> (\<open>None\<close> is nil); a pair of a value and an error
    is a sum, \<open>Inl\<close> for the error.
  \<^item> A Go map is an association list with distinct keys (\<open>len\<close> is its length).
  The collections \<open>go_simps\<close> and \<open>valid_defs\<close> gather the rewrite rules the component
  theories share.
\<close>

section \<open>Collections\<close>

named_theorems go_simps \<open>rewrite rules for the Go idioms\<close>
named_theorems valid_defs \<open>definitions of the wire validators\<close>
named_theorems const_defs \<open>numeric and textual constants of the source\<close>

section \<open>Types\<close>

type_synonym uint16 = "16 word"
type_synonym uint32 = "32 word"
type_synonym uint64 = "64 word"
type_synonym int32 = "32 word"
type_synonym bytes = string
type_synonym 'a slice = "'a list option"
type_synonym 'e goerror = "'e option"
type_synonym ('k, 'v) gomap = "('k \<times> 'v) list"

definition byte_val :: "char \<Rightarrow> nat" where
  "byte_val c = of_char c"

lemma byte_val_less: "byte_val c < 256"
  by (simp add: byte_val_def)

lemma unat64_less: "unat (n :: uint64) < 18446744073709551616"
proof -
  have "unat n < 2 ^ LENGTH(64)" by (rule unsigned_less)
  then show ?thesis by simp
qed

lemma unat64_max: "unat (- 1 :: uint64) = 18446744073709551615"
  by (simp add: unsigned_minus_1_eq_mask mask_eq_exp_minus_1)

lemma unat_of_nat_64: "n < 18446744073709551616 \<Longrightarrow> unat (of_nat n :: uint64) = n"
  by (simp add: unsigned_of_nat take_bit_nat_eq_self)

lemma of_nat_eq_iff_64:
  "m < 18446744073709551616 \<Longrightarrow> n < 18446744073709551616 \<Longrightarrow>
    (of_nat m :: uint64) = of_nat n \<longleftrightarrow> m = n"
  by (metis unat_of_nat_64)

lemma unat_add_64:
  "unat a + unat b < 18446744073709551616 \<Longrightarrow> unat (a + b :: uint64) = unat a + unat b"
  by (simp add: unat_word_ariths)

lemma less_next_sequence: "(a :: uint64) \<le> b \<Longrightarrow> b \<noteq> - 1 \<Longrightarrow> a < b + 1"
proof -
  assume "a \<le> b" "b \<noteq> - 1"
  moreover from this have "unat (b + 1) = Suc (unat b)"
    by (simp add: unatSuc add.commute eq_neg_iff_add_eq_0)
  ultimately show "a < b + 1" by (simp add: word_less_nat_alt word_le_nat_alt)
qed

section \<open>Error results\<close>

text \<open>\<open>if err := a; err != nil { return err }; return b\<close>\<close>

definition check_then :: "'e goerror \<Rightarrow> 'e goerror \<Rightarrow> 'e goerror" where
  "check_then a b = (case a of Some e \<Rightarrow> Some e | None \<Rightarrow> b)"

definition guard_err :: "bool \<Rightarrow> 'e \<Rightarrow> 'e goerror" where
  "guard_err bad e = (if bad then Some e else None)"

fun check_all :: "'e goerror list \<Rightarrow> 'e goerror" where
  "check_all [] = None"
| "check_all (a # as) = check_then a (check_all as)"

lemma check_then_None [go_simps]: "check_then a b = None \<longleftrightarrow> a = None \<and> b = None"
  by (auto simp: check_then_def split: option.splits)

lemma check_then_simps [simp]:
  "check_then None b = b" "check_then (Some e) b = Some e"
  by (simp_all add: check_then_def)

lemma guard_err_None [go_simps]: "guard_err bad e = None \<longleftrightarrow> \<not> bad"
  by (simp add: guard_err_def)

lemma guard_err_simps [simp]:
  "guard_err True e = Some e" "guard_err False e = None"
  by (simp_all add: guard_err_def)

lemma check_all_None [go_simps]: "check_all as = None \<longleftrightarrow> (\<forall>a\<in>set as. a = None)"
  by (induction as) (auto simp: check_then_None)

lemma case_goerror_Inr [go_simps]:
  "(case a of None \<Rightarrow> b | Some e \<Rightarrow> Inl (g e)) = Inr w \<longleftrightarrow> a = None \<and> b = Inr w"
  by (cases a) auto

lemma if_Inl_Inr [go_simps]: "(if c then Inl e else b) = Inr w \<longleftrightarrow> \<not> c \<and> b = Inr w"
  by auto

lemma case_goerror_id_Inr [go_simps]:
  "(case a of None \<Rightarrow> b | Some e \<Rightarrow> Inl e) = Inr w \<longleftrightarrow> a = None \<and> b = Inr w"
  by (cases a) auto

section \<open>Slices\<close>

definition elems :: "'a slice \<Rightarrow> 'a list" where
  "elems s = (case s of None \<Rightarrow> [] | Some xs \<Rightarrow> xs)"

lemma elems_simps [simp]: "elems None = []" "elems (Some xs) = xs"
  by (simp_all add: elems_def)

section \<open>Go maps\<close>

abbreviation gm_get :: "('k, 'v) gomap \<Rightarrow> 'k \<Rightarrow> 'v option" where
  "gm_get m k \<equiv> map_of m k"

abbreviation gm_set :: "'k \<Rightarrow> 'v \<Rightarrow> ('k, 'v) gomap \<Rightarrow> ('k, 'v) gomap" where
  "gm_set k v m \<equiv> AList.update k v m"

abbreviation gm_del :: "'k \<Rightarrow> ('k, 'v) gomap \<Rightarrow> ('k, 'v) gomap" where
  "gm_del k m \<equiv> AList.delete k m"

abbreviation gm_keys :: "('k, 'v) gomap \<Rightarrow> 'k set" where
  "gm_keys m \<equiv> fst ` set m"

definition gm_ok :: "('k, 'v) gomap \<Rightarrow> bool" where
  "gm_ok m \<longleftrightarrow> distinct (map fst m)"

lemma gm_ok_Nil [simp, intro]: "gm_ok []"
  by (simp add: gm_ok_def)

lemma gm_ok_set [simp, intro]: "gm_ok m \<Longrightarrow> gm_ok (gm_set k v m)"
  by (simp add: gm_ok_def distinct_update)

lemma gm_ok_del [simp, intro]: "gm_ok m \<Longrightarrow> gm_ok (gm_del k m)"
  by (simp add: gm_ok_def distinct_delete)

lemma gm_get_set [go_simps]:
  "gm_get (gm_set k v m) k' = (if k' = k then Some v else gm_get m k')"
  by (simp add: update_conv')

lemma gm_get_del [go_simps]:
  "gm_get (gm_del k m) k' = (if k' = k then None else gm_get m k')"
  by (simp add: delete_conv')

lemma gm_keys_set: "gm_keys (gm_set k v m) = insert k (gm_keys m)"
  by (simp add: dom_update)

lemma gm_keys_del: "gm_keys (gm_del k m) = gm_keys m - {k}"
  by (force simp: AList.delete_eq)

lemma gm_get_keys: "gm_get m k = None \<longleftrightarrow> k \<notin> gm_keys m"
  by (simp add: map_of_eq_None_iff)

lemma gm_get_in_keys: "gm_get m k = Some v \<Longrightarrow> k \<in> gm_keys m"
  by (force dest: map_of_SomeD)

lemma length_gm_set:
  "length (gm_set k v m) = (if k \<in> gm_keys m then length m else Suc (length m))"
  by (induction m) auto

lemma length_gm_del:
  "gm_ok m \<Longrightarrow> length (gm_del k m) = (if k \<in> gm_keys m then length m - 1 else length m)"
proof (cases "k \<in> gm_keys m")
  case True
  assume ok: "gm_ok m"
  have "map fst (gm_del k m) = removeAll k (map fst m)"
    by (rule delete_keys)
  also have "\<dots> = remove1 k (map fst m)"
    using ok by (simp add: gm_ok_def distinct_remove1_removeAll)
  finally have "length (map fst (gm_del k m)) = length (remove1 k (map fst m))"
    by simp
  with True show ?thesis by (simp add: length_remove1)
next
  case False
  then show ?thesis by simp
qed

lemma length_gm_keys: "gm_ok m \<Longrightarrow> length m = card (gm_keys m)"
  by (metis distinct_card gm_ok_def length_map set_map)

end
