(* ===== verification/Utf8.thy ===== *)
theory Utf8
  imports Prelude
begin

text \<open>
  The text handling of the source: the parts of Go's \<open>unicode/utf8\<close> and \<open>strings\<close> that it
  calls (\<open>ValidString\<close>, \<open>RuneStart\<close>, \<open>ToValidUTF8\<close> with an empty replacement,
  \<open>HasPrefix\<close>, \<open>HasSuffix\<close>, \<open>Index\<close>), and \<open>clamp\<close>, which \<open>internal/item/model.go\<close>
  and \<open>internal/menu/model.go\<close> both define. The lemmas show that a cut on a rune boundary of
  valid text is valid, which is what \<open>clamp\<close> relies on.
\<close>

section \<open>Package unicode/utf8\<close>

text \<open>
  The lead byte of a multi-byte rune gives its size and the range of its second byte (Go's
  tables \<open>first\<close> and \<open>acceptRanges\<close>).
\<close>

definition lead_info :: "nat \<Rightarrow> (nat \<times> nat \<times> nat) option" where
  "lead_info b =
    (if b < 0xC2 then None
     else if b \<le> 0xDF then Some (2, 0x80, 0xBF)
     else if b = 0xE0 then Some (3, 0xA0, 0xBF)
     else if b = 0xED then Some (3, 0x80, 0x9F)
     else if b \<le> 0xEF then Some (3, 0x80, 0xBF)
     else if b = 0xF0 then Some (4, 0x90, 0xBF)
     else if b \<le> 0xF3 then Some (4, 0x80, 0xBF)
     else if b = 0xF4 then Some (4, 0x80, 0x8F)
     else None)"

definition is_cont :: "char \<Rightarrow> bool" where
  "is_cont c \<longleftrightarrow> 0x80 \<le> byte_val c \<and> byte_val c \<le> 0xBF"

text \<open>The size of the well-formed rune a byte string starts with, if it starts with one.\<close>

fun rune_size :: "bytes \<Rightarrow> nat option" where
  "rune_size [] = None"
| "rune_size (c # cs) =
    (if byte_val c < 0x80 then Some 1
     else case lead_info (byte_val c) of
       None \<Rightarrow> None
     | Some (sz, lo, hi) \<Rightarrow>
        (case cs of
          [] \<Rightarrow> None
        | c1 # cs1 \<Rightarrow>
            if byte_val c1 < lo \<or> hi < byte_val c1 then None
            else if sz = 2 then Some 2
            else (case cs1 of
              [] \<Rightarrow> None
            | c2 # cs2 \<Rightarrow>
                if \<not> is_cont c2 then None
                else if sz = 3 then Some 3
                else (case cs2 of
                  [] \<Rightarrow> None
                | c3 # _ \<Rightarrow> if is_cont c3 then Some 4 else None))))"

declare rune_size.simps(2) [simp del]

text \<open>\<open>b & 0xC0 != 0x80\<close>: the two top bits are not \<open>10\<close>.\<close>

definition RuneStart :: "char \<Rightarrow> bool" where
  "RuneStart c \<longleftrightarrow> byte_val c div 0x40 \<noteq> 2"

lemma RuneStart_iff: "RuneStart c \<longleftrightarrow> \<not> is_cont c"
proof -
  have "byte_val c div 64 = 2 \<longleftrightarrow> 128 \<le> byte_val c \<and> byte_val c \<le> 191"
    by linarith
  then show ?thesis by (simp add: RuneStart_def is_cont_def)
qed

lemma lead_info_Some:
  "lead_info b = Some (sz, lo, hi) \<Longrightarrow>
    sz \<in> {2, 3, 4} \<and> 0x80 \<le> lo \<and> hi \<le> 0xBF \<and> \<not> b < 0x80"
  by (auto simp: lead_info_def split: if_splits)

lemma rune_size_cases:
  assumes "rune_size s = Some k"
  obtains (one) c cs where "s = c # cs" "k = 1" "byte_val c < 0x80"
  | (two) c c1 cs lo hi where "s = c # c1 # cs" "k = 2" "\<not> byte_val c < 0x80"
      "lead_info (byte_val c) = Some (2, lo, hi)" "lo \<le> byte_val c1" "byte_val c1 \<le> hi" "is_cont c1"
  | (three) c c1 c2 cs lo hi where "s = c # c1 # c2 # cs" "k = 3" "\<not> byte_val c < 0x80"
      "lead_info (byte_val c) = Some (3, lo, hi)" "lo \<le> byte_val c1" "byte_val c1 \<le> hi" "is_cont c1"
      "is_cont c2"
  | (four) c c1 c2 c3 cs lo hi where "s = c # c1 # c2 # c3 # cs" "k = 4" "\<not> byte_val c < 0x80"
      "lead_info (byte_val c) = Some (4, lo, hi)" "lo \<le> byte_val c1" "byte_val c1 \<le> hi" "is_cont c1"
      "is_cont c2" "is_cont c3"
proof -
  from assms obtain c cs where s: "s = c # cs"
    by (cases s) auto
  show ?thesis
  proof (cases "byte_val c < 0x80")
    case True
    with assms s show ?thesis by (intro one) (auto simp: rune_size.simps)
  next
    case False
    with assms s obtain sz lo hi where li: "lead_info (byte_val c) = Some (sz, lo, hi)"
      by (auto simp: rune_size.simps split: option.splits)
    note b = lead_info_Some [OF li]
    from assms s False li obtain c1 cs1 where cs: "cs = c1 # cs1"
      and r1: "lo \<le> byte_val c1" "byte_val c1 \<le> hi"
      by (auto simp: rune_size.simps split: list.splits if_splits)
    from r1 b have k1: "is_cont c1" by (simp add: is_cont_def)
    consider "sz = 2" | "sz = 3" | "sz = 4" using b by auto
    then show ?thesis
    proof cases
      case 1
      with assms s False li cs r1 k1 show ?thesis
        by (intro two) (auto simp: rune_size.simps)
    next
      case 2
      with assms s False li cs r1 obtain c2 cs2 where "cs1 = c2 # cs2" "is_cont c2" "k = 3"
        by (auto simp: rune_size.simps split: list.splits if_splits)
      with 2 s False li cs r1 k1 show ?thesis
        by (intro three [of c c1 c2 cs2 lo hi]) auto
    next
      case 3
      with assms s False li cs r1 obtain c2 c3 cs2 where "cs1 = c2 # c3 # cs2" "is_cont c2"
          "is_cont c3" "k = 4"
        by (auto simp: rune_size.simps split: list.splits if_splits)
      with 3 s False li cs r1 k1 show ?thesis
        by (intro four [of c c1 c2 c3 cs2 lo hi]) auto
    qed
  qed
qed

lemma rune_size_bounds:
  assumes "rune_size s = Some k"
  shows "0 < k" and "k \<le> length s" and "k \<le> 4"
  using assms by (auto elim!: rune_size_cases)

lemma rune_size_prefix:
  assumes "rune_size s = Some k"
  shows "rune_size (take k s @ t) = Some k"
  using assms by (cases rule: rune_size_cases) (auto simp: rune_size.simps)

lemma rune_size_conts:
  assumes "rune_size s = Some k" and "0 < i" and "i < k"
  shows "is_cont (s ! i)"
proof -
  have "i = 1 \<or> i = 2 \<or> i = 3"
    using assms(2,3) rune_size_bounds(3) [OF assms(1)] by linarith
  then show ?thesis
    using assms by (auto elim!: rune_size_cases)
qed

function ValidString :: "bytes \<Rightarrow> bool" where
  "ValidString s =
    (if s = [] then True
     else case rune_size s of None \<Rightarrow> False | Some k \<Rightarrow> ValidString (drop k s))"
  by pat_completeness auto
termination
  by (relation "measure length") (auto dest: rune_size_bounds)

declare ValidString.simps [simp del]

lemma ValidString_Nil [simp]: "ValidString []"
  by (subst ValidString.simps) simp

lemma ValidString_step:
  "rune_size s = Some k \<Longrightarrow> ValidString s = ValidString (drop k s)"
  by (subst ValidString.simps) auto

lemma ValidString_Some:
  assumes "ValidString s" and "s \<noteq> []"
  obtains k where "rune_size s = Some k" and "ValidString (drop k s)"
  using assms by (subst (asm) ValidString.simps) (auto split: option.splits)

lemma ValidString_rune: "rune_size s = Some k \<Longrightarrow> ValidString (take k s)"
  using ValidString_step [of "take k s" k] rune_size_prefix [of s k "[]"]
  by simp

lemma ValidString_ascii_Cons:
  "byte_val c < 128 \<Longrightarrow> ValidString (c # s) = ValidString s"
  using ValidString_step [of "c # s" 1] by (simp add: rune_size.simps(2))

lemma ValidString_ascii: "\<forall>c\<in>set s. byte_val c < 128 \<Longrightarrow> ValidString s"
  by (induction s) (simp_all add: ValidString_ascii_Cons)

lemma ValidString_append:
  "ValidString s \<Longrightarrow> ValidString (s @ t) = ValidString t"
proof (induction s rule: ValidString.induct)
  case (1 s)
  show ?case
  proof (cases "s = []")
    case True
    then show ?thesis by simp
  next
    case False
    with "1.prems" obtain k where k: "rune_size s = Some k" and v: "ValidString (drop k s)"
      by (rule ValidString_Some)
    have "rune_size (s @ t) = Some k"
      using rune_size_prefix [OF k, of "drop k s @ t"]
      by (metis append_assoc append_take_drop_id)
    moreover have "drop k (s @ t) = drop k s @ t"
      using rune_size_bounds(2) [OF k] by simp
    ultimately show ?thesis
      using "1.IH" [OF False k v] by (simp add: ValidString_step)
  qed
qed

text \<open>Cutting valid text where a rune starts leaves valid text.\<close>

lemma ValidString_take:
  "ValidString s \<Longrightarrow> n < length s \<Longrightarrow> RuneStart (s ! n) \<Longrightarrow> ValidString (take n s)"
proof (induction s arbitrary: n rule: ValidString.induct)
  case (1 s)
  then have ne: "s \<noteq> []" by auto
  with "1.prems"(1) obtain k where k: "rune_size s = Some k" and v: "ValidString (drop k s)"
    by (rule ValidString_Some)
  note bounds = rune_size_bounds [OF k]
  show ?case
  proof (cases "n = 0")
    case True
    then show ?thesis by simp
  next
    case False
    have "\<not> n < k"
      using rune_size_conts [OF k, of n] "1.prems"(3) False by (auto simp: RuneStart_iff)
    then have kn: "k \<le> n" by simp
    have "ValidString (take (n - k) (drop k s))"
    proof (rule "1.IH" [OF ne k v])
      show "n - k < length (drop k s)" using "1.prems"(2) kn by simp
      show "RuneStart (drop k s ! (n - k))" using "1.prems"(2,3) kn by simp
    qed
    moreover have "take n s = take k s @ take (n - k) (drop k s)"
      using kn by (metis le_add_diff_inverse take_add)
    ultimately show ?thesis
      using ValidString_append [OF ValidString_rune [OF k]] by simp
  qed
qed

section \<open>Package strings\<close>

text \<open>\<open>strings.ToValidUTF8(s, "")\<close>: every byte that starts no well-formed rune is dropped.\<close>

function ToValidUTF8 :: "bytes \<Rightarrow> bytes" where
  "ToValidUTF8 s =
    (case s of
      [] \<Rightarrow> []
    | _ # cs \<Rightarrow>
        (case rune_size s of
          None \<Rightarrow> ToValidUTF8 cs
        | Some k \<Rightarrow> take k s @ ToValidUTF8 (drop k s)))"
  by pat_completeness auto
termination
  by (relation "measure length") (auto dest: rune_size_bounds)

declare ToValidUTF8.simps [simp del]

lemma ToValidUTF8_Nil [simp]: "ToValidUTF8 [] = []"
  by (subst ToValidUTF8.simps) simp

lemma ToValidUTF8_valid: "ValidString (ToValidUTF8 s)"
proof (induction s rule: ToValidUTF8.induct)
  case (1 s)
  show ?case
  proof (cases s)
    case Nil
    then show ?thesis by simp
  next
    case (Cons c cs)
    then show ?thesis
      using "1.IH" ValidString_append [OF ValidString_rune]
      by (subst ToValidUTF8.simps) (auto split: option.splits)
  qed
qed

lemma ToValidUTF8_id: "ValidString s \<Longrightarrow> ToValidUTF8 s = s"
proof (induction s rule: ToValidUTF8.induct)
  case (1 s)
  show ?case
  proof (cases s)
    case Nil
    then show ?thesis by simp
  next
    case (Cons c cs)
    with "1.prems" obtain k where k: "rune_size s = Some k" and v: "ValidString (drop k s)"
      by (metis ValidString_Some list.distinct(1))
    have "ToValidUTF8 s = take k s @ ToValidUTF8 (drop k s)"
      using Cons k by (subst ToValidUTF8.simps) auto
    then show ?thesis using "1.IH"(2) [OF Cons k v] by simp
  qed
qed

definition HasPrefix :: "bytes \<Rightarrow> bytes \<Rightarrow> bool" where
  "HasPrefix s p \<longleftrightarrow> take (length p) s = p"

definition HasSuffix :: "bytes \<Rightarrow> bytes \<Rightarrow> bool" where
  "HasSuffix s p \<longleftrightarrow> length p \<le> length s \<and> drop (length s - length p) s = p"

lemma HasPrefix_single: "HasPrefix s [c] \<longleftrightarrow> (\<exists>t. s = c # t)"
  by (cases s) (auto simp: HasPrefix_def)

section \<open>Clamping text\<close>

text \<open>The loop \<open>for cut > 0 && !utf8.RuneStart(value[cut]) { cut-- }\<close>.\<close>

fun cut_back :: "bytes \<Rightarrow> nat \<Rightarrow> nat" where
  "cut_back v 0 = 0"
| "cut_back v (Suc n) = (if RuneStart (v ! Suc n) then Suc n else cut_back v n)"

definition clamp :: "bytes \<Rightarrow> nat \<Rightarrow> bytes" where
  "clamp value limit =
    (let value = (if \<not> ValidString value then ToValidUTF8 value else value)
     in if length value \<le> limit then value else take (cut_back value limit) value)"

lemma cut_back_le: "cut_back v n \<le> n"
  by (induction n) auto

lemma cut_back_start: "cut_back v n = 0 \<or> RuneStart (v ! cut_back v n)"
  by (induction n) auto

lemma cut_back_skip:
  "cut_back v n < i \<Longrightarrow> i \<le> n \<Longrightarrow> \<not> RuneStart (v ! i)"
proof (induction n)
  case 0
  then show ?case by simp
next
  case (Suc n)
  then show ?case by (cases "i = Suc n") (auto split: if_splits)
qed

lemma clamp_valid: "ValidString (clamp v limit)"
proof -
  let ?w = "if \<not> ValidString v then ToValidUTF8 v else v"
  have w: "ValidString ?w" by (simp add: ToValidUTF8_valid)
  show ?thesis
  proof (cases "length ?w \<le> limit")
    case True
    with w show ?thesis by (simp add: clamp_def Let_def)
  next
    case False
    have "ValidString (take (cut_back ?w limit) ?w)"
      using cut_back_start [of ?w limit]
    proof
      assume "cut_back ?w limit = 0"
      then show ?thesis by simp
    next
      assume "RuneStart (?w ! cut_back ?w limit)"
      moreover have "cut_back ?w limit < length ?w"
        using False cut_back_le [of ?w limit] by simp
      ultimately show ?thesis using ValidString_take [OF w] by blast
    qed
    with False show ?thesis by (simp add: clamp_def Let_def)
  qed
qed

lemma clamp_length: "length (clamp v limit) \<le> limit"
  using cut_back_le [of "if \<not> ValidString v then ToValidUTF8 v else v" limit]
  by (auto simp: clamp_def Let_def min_def)

lemma clamp_id: "ValidString v \<Longrightarrow> length v \<le> limit \<Longrightarrow> clamp v limit = v"
  by (simp add: clamp_def)

lemma clamp_Nil [simp]: "clamp [] limit = []"
  by (simp add: clamp_def)

end
