(* ===== verification/Protocol.thy ===== *)
theory Protocol
  imports Utf8
begin

text \<open>
  The wire types of \<open>protocol/types.go\<close>: one record per struct, with the struct's field names
  after a short prefix. Go's string enums stay strings, because a peer can send any string and
  the validators must refuse the unknown ones. \<open>MenuNode\<close> is recursive: its scalar fields form
  the record \<open>node_fields\<close> and the tree is a datatype over it.
\<close>

section \<open>Constants\<close>

definition ProtocolMajor :: uint16 where [const_defs]: "ProtocolMajor = 1"
definition ProtocolMinor :: uint16 where [const_defs]: "ProtocolMinor = 0"

definition RolePresenter :: bytes where [const_defs]: "RolePresenter = ''presenter''"
definition CapabilityTray :: bytes where [const_defs]: "CapabilityTray = ''tray-state''"

definition MaxItems :: nat where [const_defs]: "MaxItems = 128"
definition MaxTextBytes :: nat where [const_defs]: "MaxTextBytes = 4096"
definition MaxTooltipBytes :: nat where [const_defs]: "MaxTooltipBytes = 2048"
definition MaxPixmapDimension :: uint32 where [const_defs]: "MaxPixmapDimension = 512"
definition MaxPixmapBytesPerItem :: nat where [const_defs]: "MaxPixmapBytesPerItem = 2097152"
definition MaxPixmapBytesAggregate :: nat where [const_defs]: "MaxPixmapBytesAggregate = 8388608"
definition MaxMenuDepth :: nat where [const_defs]: "MaxMenuDepth = 8"
definition MaxMenuNodes :: nat where [const_defs]: "MaxMenuNodes = 512"
definition MaxMenuIconBytes :: nat where [const_defs]: "MaxMenuIconBytes = 2097152"
definition MaxCoordinate :: int where [const_defs]: "MaxCoordinate = 65536"
definition MaxPresenterQueueMessages :: nat where
  [const_defs]: "MaxPresenterQueueMessages = 256"
definition MaxPresenterDecodedBytes :: nat where
  [const_defs]: "MaxPresenterDecodedBytes = 33554432"

definition KindHello :: bytes where [const_defs]: "KindHello = ''hello''"
definition KindSnapshot :: bytes where [const_defs]: "KindSnapshot = ''snapshot''"
definition KindItemAdded :: bytes where [const_defs]: "KindItemAdded = ''item-added''"
definition KindItemChanged :: bytes where [const_defs]: "KindItemChanged = ''item-changed''"
definition KindItemRemoved :: bytes where [const_defs]: "KindItemRemoved = ''item-removed''"
definition KindMenuUpdated :: bytes where [const_defs]: "KindMenuUpdated = ''menu-updated''"
definition KindCommand :: bytes where [const_defs]: "KindCommand = ''command''"
definition KindReply :: bytes where [const_defs]: "KindReply = ''reply''"

section \<open>Envelope and handshake\<close>

record envelope =
  en_Kind :: bytes
  en_RequestID :: uint64
  en_Sequence :: uint64
  en_Payload :: bytes

record hello =
  he_Major :: uint16
  he_Minor :: uint16
  he_Role :: bytes
  he_Capabilities :: "bytes list"

section \<open>Items\<close>

record item_key =
  ik_Owner :: bytes
  ik_ObjectPath :: bytes
  ik_Generation :: uint64

definition zero_key :: item_key where
  "zero_key = \<lparr>ik_Owner = [], ik_ObjectPath = [], ik_Generation = 0\<rparr>"

definition ItemKey_IsZero :: "item_key \<Rightarrow> bool" where
  "ItemKey_IsZero k \<longleftrightarrow> ik_Owner k = [] \<and> ik_ObjectPath k = [] \<and> ik_Generation k = 0"

lemma ItemKey_IsZero_iff: "ItemKey_IsZero k \<longleftrightarrow> k = zero_key"
  by (cases k) (simp add: ItemKey_IsZero_def zero_key_def)

definition CategoryApplicationStatus :: bytes where
  [const_defs]: "CategoryApplicationStatus = ''ApplicationStatus''"
definition CategoryCommunications :: bytes where
  [const_defs]: "CategoryCommunications = ''Communications''"
definition CategorySystemServices :: bytes where
  [const_defs]: "CategorySystemServices = ''SystemServices''"
definition CategoryHardware :: bytes where
  [const_defs]: "CategoryHardware = ''Hardware''"

definition StatusPassive :: bytes where [const_defs]: "StatusPassive = ''Passive''"
definition StatusActive :: bytes where [const_defs]: "StatusActive = ''Active''"
definition StatusNeedsAttention :: bytes where
  [const_defs]: "StatusNeedsAttention = ''NeedsAttention''"

record pixmap =
  px_Width :: uint32
  px_Height :: uint32
  px_ARGB :: bytes

record icon =
  ic_Name :: bytes
  ic_ThemePath :: bytes
  ic_Pixmaps :: "pixmap slice"

record tooltip =
  tt_IconName :: bytes
  tt_Pixmaps :: "pixmap slice"
  tt_Title :: bytes
  tt_Description :: bytes

record item =
  it_Key :: item_key
  it_ID :: bytes
  it_Title :: bytes
  it_Category :: bytes
  it_Status :: bytes
  it_Icon :: icon
  it_AttentionIcon :: icon
  it_OverlayIcon :: icon
  it_Tooltip :: tooltip
  it_MenuPath :: bytes
  it_ItemIsMenu :: bool
  it_CloseSupported :: bool

definition zero_icon :: icon where
  "zero_icon = \<lparr>ic_Name = [], ic_ThemePath = [], ic_Pixmaps = None\<rparr>"

definition zero_tooltip :: tooltip where
  "zero_tooltip = \<lparr>tt_IconName = [], tt_Pixmaps = None, tt_Title = [], tt_Description = []\<rparr>"

definition zero_item :: item where
  "zero_item = \<lparr>it_Key = zero_key, it_ID = [], it_Title = [], it_Category = [], it_Status = [],
     it_Icon = zero_icon, it_AttentionIcon = zero_icon, it_OverlayIcon = zero_icon,
     it_Tooltip = zero_tooltip, it_MenuPath = [], it_ItemIsMenu = False,
     it_CloseSupported = False\<rparr>"

record snapshot =
  sn_Sequence :: uint64
  sn_Items :: "item list"

section \<open>Menus\<close>

definition ToggleNone :: bytes where [const_defs]: "ToggleNone = []"
definition ToggleCheckmark :: bytes where [const_defs]: "ToggleCheckmark = ''checkmark''"
definition ToggleRadio :: bytes where [const_defs]: "ToggleRadio = ''radio''"

record node_fields =
  mn_ID :: int32
  mn_Label :: bytes
  mn_Enabled :: bool
  mn_Visible :: bool
  mn_Separator :: bool
  mn_IconName :: bytes
  mn_IconData :: bytes
  mn_ToggleType :: bytes
  mn_ToggleState :: int32
  mn_ChildrenDisplay :: bytes

datatype menu_node = MenuNode (nd_fields: node_fields) (nd_kids: "menu_node list")

definition zero_fields :: node_fields where
  "zero_fields = \<lparr>mn_ID = 0, mn_Label = [], mn_Enabled = False, mn_Visible = False,
     mn_Separator = False, mn_IconName = [], mn_IconData = [], mn_ToggleType = [],
     mn_ToggleState = 0, mn_ChildrenDisplay = []\<rparr>"

definition zero_node :: menu_node where
  "zero_node = MenuNode zero_fields []"

record menu =
  me_Revision :: uint32
  me_Root :: menu_node

definition zero_menu :: menu where
  "zero_menu = \<lparr>me_Revision = 0, me_Root = zero_node\<rparr>"

fun node_count :: "menu_node \<Rightarrow> nat" where
  "node_count (MenuNode f cs) = Suc (sum_list (map node_count cs))"

lemma node_count_pos [simp]: "0 < node_count n"
  by (cases n) simp

section \<open>Commands and replies\<close>

definition CommandActivate :: bytes where [const_defs]: "CommandActivate = ''activate''"
definition CommandSecondaryActivate :: bytes where
  [const_defs]: "CommandSecondaryActivate = ''secondary-activate''"
definition CommandScroll :: bytes where [const_defs]: "CommandScroll = ''scroll''"
definition CommandMenuOpen :: bytes where [const_defs]: "CommandMenuOpen = ''menu.open''"
definition CommandMenuSelect :: bytes where [const_defs]: "CommandMenuSelect = ''menu.select''"
definition CommandAboutToShow :: bytes where
  [const_defs]: "CommandAboutToShow = ''menu.about-to-show''"
definition CommandMenuClose :: bytes where [const_defs]: "CommandMenuClose = ''menu.close''"
definition CommandTerminate :: bytes where [const_defs]: "CommandTerminate = ''terminate''"

definition ScrollVertical :: bytes where [const_defs]: "ScrollVertical = ''vertical''"
definition ScrollHorizontal :: bytes where [const_defs]: "ScrollHorizontal = ''horizontal''"

record command =
  cm_Kind :: bytes
  cm_Item :: item_key
  cm_MenuRevision :: uint32
  cm_MenuID :: int32
  cm_Output :: uint32
  cm_Serial :: uint32
  cm_X :: int32
  cm_Y :: int32
  cm_Delta :: int32
  cm_Orientation :: bytes
  cm_Params :: bytes

definition zero_command :: command where
  "zero_command = \<lparr>cm_Kind = [], cm_Item = zero_key, cm_MenuRevision = 0, cm_MenuID = 0,
     cm_Output = 0, cm_Serial = 0, cm_X = 0, cm_Y = 0, cm_Delta = 0, cm_Orientation = [],
     cm_Params = []\<rparr>"

definition ErrorInvalid :: bytes where [const_defs]: "ErrorInvalid = ''invalid''"
definition ErrorStaleItem :: bytes where [const_defs]: "ErrorStaleItem = ''stale_item''"
definition ErrorStaleRevision :: bytes where
  [const_defs]: "ErrorStaleRevision = ''stale_revision''"
definition ErrorUnavailable :: bytes where [const_defs]: "ErrorUnavailable = ''unavailable''"
definition ErrorBusy :: bytes where [const_defs]: "ErrorBusy = ''busy''"

record protocol_error =
  pe_Code :: bytes
  pe_Message :: bytes

record reply =
  re_OK :: bool
  re_Item :: item_key
  re_Output :: uint32
  re_Error :: "protocol_error option"

section \<open>Payloads\<close>

text \<open>
  What the service hands to \<open>json.Marshal\<close>. The encoder itself is a parameter of the
  definitions that use it (\<open>marshal\<close>), of this type.
\<close>

datatype payload =
    PItem item
  | PRemoved item_key
  | PMenu item_key menu
  | PHello hello
  | PSnapshot snapshot
  | PReply reply

type_synonym marshaller = "payload \<Rightarrow> bytes option"

end
