(* ===== verification/Validation.thy ===== *)
theory Validation
  imports Protocol
begin

text \<open>
  The wire validators of \<open>protocol/validate.go\<close>. Each returns Go's \<open>error\<close> as a
  \<open>fault goerror\<close>: \<open>None\<close> accepts, and each constructor of \<open>fault\<close> is one message of the
  source. \<open>json.Valid\<close> is the parameter \<open>json_valid\<close>. The lemmas characterise what each
  validator accepts; the menu walk is shown to be a fold over the tree's preorder, whose verdict
  depends only on the multiset of visited nodes.
\<close>

datatype fault =
    BadPayload | HelloCorrelated | SnapshotRequestID | BadStateSequence | BadRequestID
  | UnknownKind bytes | BadSequence uint64 uint64
  | IncompatibleMajor uint16 | UnexpectedRole bytes | DuplicateCapability bytes
  | NotUtf8 bytes | BadLength bytes
  | NotUniqueName bytes | PathNotAbsolute bytes | GenerationZero
  | TooManyItems | AtItem nat fault | DuplicateItem item_key | AggregateBudget
  | BadCategory bytes | BadStatus bytes | MenuPathNotAbsolute bytes | ItemBudget
  | AtPixmap bytes nat fault | BadDimensions uint32 uint32 | PixmapMismatch | PixmapBudget
  | RootNotZero | DepthExceeded | NodesExceeded | NegativeID int32 | DuplicateID int32
  | BadToggle bytes | BadChildrenDisplay bytes | IconBudget
  | BadCoordinate int32 | NegativeMenuID int32 | BadParams | TerminateExtra | ZeroDelta
  | BadOrientation bytes | SelectsRoot | BadCommandKind bytes
  | ReplyOutcome | BadErrorCode bytes

section \<open>Leaves\<close>

definition validateText :: "bytes \<Rightarrow> bytes \<Rightarrow> nat \<Rightarrow> bool \<Rightarrow> fault goerror" where
  [valid_defs]: "validateText name value limit emptyOK =
    (if \<not> ValidString value then Some (NotUtf8 name)
     else if (\<not> emptyOK \<and> value = []) \<or> length value > limit then Some (BadLength name)
     else None)"

definition text_ok :: "nat \<Rightarrow> bytes \<Rightarrow> bool" where
  "text_ok limit v \<longleftrightarrow> ValidString v \<and> length v \<le> limit"

lemma validateText_None [go_simps]:
  "validateText name v limit emptyOK = None \<longleftrightarrow> text_ok limit v \<and> (emptyOK \<or> v \<noteq> [])"
  by (auto simp: validateText_def text_ok_def)

lemma text_ok_clamp [simp]: "text_ok limit (clamp v limit)"
  by (simp add: text_ok_def clamp_valid clamp_length)

lemma text_ok_Nil [simp]: "text_ok limit []"
  by (simp add: text_ok_def)

definition validateCoordinate :: "int32 \<Rightarrow> fault goerror" where
  [valid_defs]: "validateCoordinate value =
    (if sint value > MaxCoordinate \<or> sint value < - MaxCoordinate
     then Some (BadCoordinate value) else None)"

definition Category_valid :: "bytes \<Rightarrow> bool" where
  [valid_defs]: "Category_valid c \<longleftrightarrow>
    c \<in> set [CategoryApplicationStatus, CategoryCommunications, CategorySystemServices,
             CategoryHardware]"

definition Status_valid :: "bytes \<Rightarrow> bool" where
  [valid_defs]: "Status_valid s \<longleftrightarrow> s \<in> set [StatusPassive, StatusActive, StatusNeedsAttention]"

definition ToggleType_valid :: "bytes \<Rightarrow> bool" where
  [valid_defs]: "ToggleType_valid t \<longleftrightarrow> t \<in> set [ToggleNone, ToggleCheckmark, ToggleRadio]"

definition ScrollOrientation_valid :: "bytes \<Rightarrow> bool" where
  [valid_defs]: "ScrollOrientation_valid o' \<longleftrightarrow> o' \<in> set [ScrollVertical, ScrollHorizontal]"

definition ErrorCode_valid :: "bytes \<Rightarrow> bool" where
  [valid_defs]: "ErrorCode_valid c \<longleftrightarrow>
    c \<in> set [ErrorInvalid, ErrorStaleItem, ErrorStaleRevision, ErrorUnavailable, ErrorBusy]"

definition ProtocolError_Error :: "protocol_error option \<Rightarrow> bytes" where
  "ProtocolError_Error e =
    (case e of
      None \<Rightarrow> ''<nil>''
    | Some e \<Rightarrow>
        if pe_Message e = [] then pe_Code e else pe_Code e @ '': '' @ pe_Message e)"

section \<open>Envelope, sequence and handshake\<close>

definition Envelope_Validate :: "(bytes \<Rightarrow> bool) \<Rightarrow> envelope \<Rightarrow> fault goerror" where
  [valid_defs]: "Envelope_Validate json_valid e =
    (if en_Payload e = [] \<or> \<not> json_valid (en_Payload e) then Some BadPayload
     else if en_Kind e = KindHello then
       guard_err (en_RequestID e \<noteq> 0 \<or> en_Sequence e \<noteq> 0) HelloCorrelated
     else if en_Kind e = KindSnapshot then
       guard_err (en_RequestID e \<noteq> 0) SnapshotRequestID
     else if en_Kind e \<in> set [KindItemAdded, KindItemChanged, KindItemRemoved, KindMenuUpdated] then
       guard_err (en_Sequence e = 0 \<or> en_RequestID e \<noteq> 0) BadStateSequence
     else if en_Kind e \<in> set [KindCommand, KindReply] then
       guard_err (en_RequestID e = 0 \<or> en_Sequence e \<noteq> 0) BadRequestID
     else Some (UnknownKind (en_Kind e)))"

definition ValidateNextSequence :: "uint64 \<Rightarrow> uint64 \<Rightarrow> fault goerror" where
  [valid_defs]: "ValidateNextSequence previous next =
    (if previous = - 1 \<or> next \<noteq> previous + 1 then Some (BadSequence next previous) else None)"

lemma ValidateNextSequence_None:
  "ValidateNextSequence p n = None \<longleftrightarrow> unat n = Suc (unat p)"
proof (cases "p = - 1")
  case True
  then show ?thesis
    using unat64_less [of n] unat64_max by (simp add: ValidateNextSequence_def)
next
  case False
  then have "unat (p + 1) = Suc (unat p)"
    by (simp add: unatSuc add.commute eq_neg_iff_add_eq_0)
  with False show ?thesis
    by (simp add: ValidateNextSequence_def word_unat_eq_iff [of n "p + 1"])
qed

fun validate_capabilities :: "bytes list \<Rightarrow> bytes list \<Rightarrow> fault goerror" where
  "validate_capabilities seen [] = None"
| "validate_capabilities seen (c # cs) =
    check_then (validateText ''capability'' c MaxTextBytes False)
      (if c \<in> set seen then Some (DuplicateCapability c)
       else validate_capabilities (c # seen) cs)"

definition Hello_Validate :: "hello \<Rightarrow> bytes \<Rightarrow> fault goerror" where
  [valid_defs]: "Hello_Validate h role =
    (if he_Major h \<noteq> ProtocolMajor then Some (IncompatibleMajor (he_Major h))
     else if he_Role h \<noteq> role then Some (UnexpectedRole (he_Role h))
     else validate_capabilities [] (he_Capabilities h))"

lemma validate_capabilities_None:
  "validate_capabilities seen cs = None \<longleftrightarrow>
    (\<forall>c\<in>set cs. text_ok MaxTextBytes c \<and> c \<noteq> []) \<and> distinct cs \<and> set cs \<inter> set seen = {}"
  by (induction cs arbitrary: seen) (auto simp: go_simps)

section \<open>Item keys\<close>

definition ItemKey_Validate :: "item_key \<Rightarrow> fault goerror" where
  [valid_defs]: "ItemKey_Validate k =
    check_then (validateText ''owner'' (ik_Owner k) MaxTextBytes False)
    (check_then (guard_err (\<not> HasPrefix (ik_Owner k) '':'' \<or> length (ik_Owner k) < 2)
       (NotUniqueName (ik_Owner k)))
    (check_then (validateText ''object path'' (ik_ObjectPath k) MaxTextBytes False)
    (check_then (guard_err (\<not> HasPrefix (ik_ObjectPath k) ''/'') (PathNotAbsolute (ik_ObjectPath k)))
    (guard_err (ik_Generation k = 0) GenerationZero))))"

definition key_ok :: "item_key \<Rightarrow> bool" where
  "key_ok k \<longleftrightarrow> text_ok MaxTextBytes (ik_Owner k) \<and> HasPrefix (ik_Owner k) '':''
     \<and> 2 \<le> length (ik_Owner k)
     \<and> text_ok MaxTextBytes (ik_ObjectPath k) \<and> HasPrefix (ik_ObjectPath k) ''/''
     \<and> ik_Generation k \<noteq> 0"

lemma ItemKey_Validate_None [go_simps]: "ItemKey_Validate k = None \<longleftrightarrow> key_ok k"
  by (auto simp: ItemKey_Validate_def key_ok_def go_simps HasPrefix_def)

section \<open>Pixmaps, icons, tooltips, items\<close>

definition Pixmap_Validate :: "pixmap \<Rightarrow> fault goerror" where
  [valid_defs]: "Pixmap_Validate p =
    (if px_Width p = 0 \<or> px_Height p = 0 \<or> px_Width p > MaxPixmapDimension
        \<or> px_Height p > MaxPixmapDimension
     then Some (BadDimensions (px_Width p) (px_Height p))
     else if (of_nat (length (px_ARGB p)) :: uint64)
        \<noteq> ucast (px_Width p) * ucast (px_Height p) * 4
     then Some PixmapMismatch
     else if length (px_ARGB p) > MaxPixmapBytesPerItem then Some PixmapBudget
     else None)"

text \<open>The loop over a pixmap slice, which wraps the first fault with its index.\<close>

fun validate_pixmaps :: "bytes \<Rightarrow> nat \<Rightarrow> pixmap list \<Rightarrow> fault goerror" where
  "validate_pixmaps name j [] = None"
| "validate_pixmaps name j (p # ps) =
    (case Pixmap_Validate p of
      Some e \<Rightarrow> Some (AtPixmap name j e)
    | None \<Rightarrow> validate_pixmaps name (Suc j) ps)"

definition Icon_Validate :: "icon \<Rightarrow> bytes \<Rightarrow> fault goerror" where
  [valid_defs]: "Icon_Validate i name =
    check_then (validateText (name @ '' name'') (ic_Name i) MaxTextBytes True)
    (check_then (validateText (name @ '' theme path'') (ic_ThemePath i) MaxTextBytes True)
    (validate_pixmaps name 0 (elems (ic_Pixmaps i))))"

definition Tooltip_Validate :: "tooltip \<Rightarrow> fault goerror" where
  [valid_defs]: "Tooltip_Validate t =
    check_then (validateText ''tooltip icon name'' (tt_IconName t) MaxTextBytes True)
    (check_then (validateText ''tooltip title'' (tt_Title t) MaxTooltipBytes True)
    (check_then (validateText ''tooltip description'' (tt_Description t) MaxTooltipBytes True)
    (validate_pixmaps ''tooltip'' 0 (elems (tt_Pixmaps t)))))"

text \<open>\<open>Item.pixmapBytes\<close>: the total in \<open>uint64\<close>, over the four pixmap sets in order.\<close>

fun sum_pixmaps :: "uint64 \<Rightarrow> pixmap list \<Rightarrow> fault + uint64" where
  "sum_pixmaps tot [] = Inr tot"
| "sum_pixmaps tot (p # ps) =
    (case Pixmap_Validate p of
      Some e \<Rightarrow> Inl e
    | None \<Rightarrow> sum_pixmaps (tot + of_nat (length (px_ARGB p))) ps)"

definition item_pixmaps :: "item \<Rightarrow> pixmap list" where
  "item_pixmaps i = elems (ic_Pixmaps (it_Icon i)) @ elems (ic_Pixmaps (it_AttentionIcon i))
     @ elems (ic_Pixmaps (it_OverlayIcon i)) @ elems (tt_Pixmaps (it_Tooltip i))"

definition Item_pixmapBytes :: "item \<Rightarrow> fault + uint64" where
  [valid_defs]: "Item_pixmapBytes i = sum_pixmaps 0 (item_pixmaps i)"

text \<open>
  The source ranges over a map literal of the three icons; Go leaves the order open. The order is
  the argument \<open>icons\<close> of the loop; \<open>icons_order\<close> shows that it decides only which fault is
  reported, never whether there is one.
\<close>

definition item_icons :: "item \<Rightarrow> (bytes \<times> icon) list" where
  "item_icons i = [(''icon'', it_Icon i), (''attention icon'', it_AttentionIcon i),
     (''overlay icon'', it_OverlayIcon i)]"

definition validate_icons :: "(bytes \<times> icon) list \<Rightarrow> fault goerror" where
  "validate_icons icons = check_all (map (\<lambda>(name, ic). Icon_Validate ic name) icons)"

lemma icons_order:
  assumes "mset icons = mset (item_icons i)"
  shows "validate_icons icons = None \<longleftrightarrow> validate_icons (item_icons i) = None"
proof -
  from assms have "set icons = set (item_icons i)" by (rule mset_eq_setD)
  then show ?thesis by (simp add: validate_icons_def check_all_None)
qed

definition Item_Validate :: "item \<Rightarrow> fault goerror" where
  [valid_defs]: "Item_Validate i =
    check_then (ItemKey_Validate (it_Key i))
    (check_then (validateText ''item ID'' (it_ID i) MaxTextBytes False)
    (check_then (validateText ''title'' (it_Title i) MaxTextBytes True)
    (check_then (guard_err (\<not> Category_valid (it_Category i)) (BadCategory (it_Category i)))
    (check_then (guard_err (\<not> Status_valid (it_Status i)) (BadStatus (it_Status i)))
    (check_then (validate_icons (item_icons i))
    (check_then (Tooltip_Validate (it_Tooltip i))
    (check_then
      (if it_MenuPath i \<noteq> [] then
         check_then (validateText ''menu path'' (it_MenuPath i) MaxTextBytes False)
           (guard_err (\<not> HasPrefix (it_MenuPath i) ''/'') (MenuPathNotAbsolute (it_MenuPath i)))
       else None)
      (case Item_pixmapBytes i of
        Inl e \<Rightarrow> Some e
      | Inr tot \<Rightarrow> guard_err (tot > of_nat MaxPixmapBytesPerItem) ItemBudget))))))))"

fun snapshot_loop :: "nat \<Rightarrow> item_key list \<Rightarrow> uint64 \<Rightarrow> item list \<Rightarrow> fault goerror" where
  "snapshot_loop i seen aggregate [] = None"
| "snapshot_loop i seen aggregate (it # its) =
    (case Item_Validate it of
      Some e \<Rightarrow> Some (AtItem i e)
    | None \<Rightarrow>
        if it_Key it \<in> set seen then Some (DuplicateItem (it_Key it))
        else (case Item_pixmapBytes it of
          Inl e \<Rightarrow> Some e
        | Inr b \<Rightarrow>
            let aggregate = aggregate + b in
            if aggregate > of_nat MaxPixmapBytesAggregate then Some AggregateBudget
            else snapshot_loop (Suc i) (it_Key it # seen) aggregate its))"

definition Snapshot_Validate :: "snapshot \<Rightarrow> fault goerror" where
  [valid_defs]: "Snapshot_Validate s =
    (if length (sn_Items s) > MaxItems then Some TooManyItems
     else snapshot_loop 0 [] 0 (sn_Items s))"

section \<open>Menus\<close>

text \<open>
  The walk of \<open>MenuNode.validate\<close> threads three pieces of state through the recursion: the map
  \<open>seen\<close> of identities, the node counter and the \<open>uint64\<close> icon byte counter.
\<close>

record walk =
  wk_seen :: "int32 list"
  wk_nodes :: nat
  wk_icons :: uint64

definition walk_start :: walk where
  "walk_start = \<lparr>wk_seen = [], wk_nodes = 0, wk_icons = 0\<rparr>"

text \<open>The checks of one node, before its children.\<close>

definition visit_node :: "nat \<Rightarrow> node_fields \<Rightarrow> walk \<Rightarrow> fault + walk" where
  "visit_node depth n w =
    (if depth > MaxMenuDepth then Inl DepthExceeded
     else let w = w\<lparr>wk_nodes := Suc (wk_nodes w)\<rparr> in
     if wk_nodes w > MaxMenuNodes then Inl NodesExceeded
     else if sint (mn_ID n) < 0 then Inl (NegativeID (mn_ID n))
     else if mn_ID n \<in> set (wk_seen w) then Inl (DuplicateID (mn_ID n))
     else let w = w\<lparr>wk_seen := mn_ID n # wk_seen w\<rparr> in
     case check_then (validateText ''menu label'' (mn_Label n) MaxTextBytes True)
         (check_then (validateText ''menu icon name'' (mn_IconName n) MaxTextBytes True)
         (check_then (guard_err (\<not> ToggleType_valid (mn_ToggleType n)) (BadToggle (mn_ToggleType n)))
         (guard_err (mn_ChildrenDisplay n \<notin> set [[], ''submenu''])
            (BadChildrenDisplay (mn_ChildrenDisplay n))))) of
       Some e \<Rightarrow> Inl e
     | None \<Rightarrow>
         let w = w\<lparr>wk_icons := wk_icons w + of_nat (length (mn_IconData n))\<rparr> in
         if wk_icons w > of_nat MaxMenuIconBytes then Inl IconBudget else Inr w)"

fun MenuNode_validate :: "nat \<Rightarrow> menu_node \<Rightarrow> walk \<Rightarrow> fault + walk"
and MenuNodes_validate :: "nat \<Rightarrow> menu_node list \<Rightarrow> walk \<Rightarrow> fault + walk" where
  "MenuNode_validate depth (MenuNode n cs) w =
    (case visit_node depth n w of
      Inl e \<Rightarrow> Inl e
    | Inr w' \<Rightarrow> MenuNodes_validate (Suc depth) cs w')"
| "MenuNodes_validate depth [] w = Inr w"
| "MenuNodes_validate depth (c # cs) w =
    (case MenuNode_validate depth c w of
      Inl e \<Rightarrow> Inl e
    | Inr w' \<Rightarrow> MenuNodes_validate depth cs w')"

definition Menu_Validate :: "menu \<Rightarrow> fault goerror" where
  [valid_defs]: "Menu_Validate m =
    (if mn_ID (nd_fields (me_Root m)) \<noteq> 0 then Some RootNotZero
     else case MenuNode_validate 0 (me_Root m) walk_start of Inl e \<Rightarrow> Some e | Inr _ \<Rightarrow> None)"

section \<open>Commands and replies\<close>

definition Command_Validate :: "(bytes \<Rightarrow> bool) \<Rightarrow> command \<Rightarrow> fault goerror" where
  [valid_defs]: "Command_Validate json_valid c =
    check_then (ItemKey_Validate (cm_Item c))
    (check_then (validateCoordinate (cm_X c))
    (check_then (validateCoordinate (cm_Y c))
    (check_then (guard_err (sint (cm_MenuID c) < 0) (NegativeMenuID (cm_MenuID c)))
    (check_then (guard_err (cm_Params c \<noteq> [] \<and> \<not> json_valid (cm_Params c)) BadParams)
    (if cm_Kind c \<in> set [CommandActivate, CommandSecondaryActivate, CommandMenuOpen,
          CommandMenuClose] then None
     else if cm_Kind c = CommandTerminate then
       guard_err (cm_X c \<noteq> 0 \<or> cm_Y c \<noteq> 0 \<or> cm_Delta c \<noteq> 0 \<or> cm_MenuRevision c \<noteq> 0
          \<or> cm_MenuID c \<noteq> 0 \<or> cm_Serial c \<noteq> 0 \<or> cm_Params c \<noteq> [] \<or> cm_Orientation c \<noteq> [])
         TerminateExtra
     else if cm_Kind c = CommandScroll then
       (if cm_Delta c = 0 then Some ZeroDelta
        else guard_err (\<not> ScrollOrientation_valid (cm_Orientation c))
          (BadOrientation (cm_Orientation c)))
     else if cm_Kind c = CommandMenuSelect then guard_err (cm_MenuID c = 0) SelectsRoot
     else if cm_Kind c = CommandAboutToShow then None
     else Some (BadCommandKind (cm_Kind c)))))))"

definition Reply_Validate :: "reply \<Rightarrow> fault goerror" where
  [valid_defs]: "Reply_Validate r =
    (if re_OK r = (re_Error r \<noteq> None) then Some ReplyOutcome
     else check_then (if \<not> ItemKey_IsZero (re_Item r) then ItemKey_Validate (re_Item r) else None)
       (case re_Error r of
         None \<Rightarrow> None
       | Some e \<Rightarrow>
           if \<not> ErrorCode_valid (pe_Code e) then Some (BadErrorCode (pe_Code e))
           else validateText ''error message'' (pe_Message e) MaxTextBytes True))"

section \<open>What the item validators accept\<close>

definition pixmap_ok :: "pixmap \<Rightarrow> bool" where
  "pixmap_ok p \<longleftrightarrow> 0 < unat (px_Width p) \<and> unat (px_Width p) \<le> 512
     \<and> 0 < unat (px_Height p) \<and> unat (px_Height p) \<le> 512
     \<and> length (px_ARGB p) = unat (px_Width p) * unat (px_Height p) * 4"

definition pixmap_bytes :: "pixmap list \<Rightarrow> nat" where
  "pixmap_bytes ps = (\<Sum>p\<leftarrow>ps. length (px_ARGB p))"

lemma pixmap_bytes_simps [simp]:
  "pixmap_bytes [] = 0"
  "pixmap_bytes (p # ps) = length (px_ARGB p) + pixmap_bytes ps"
  "pixmap_bytes (ps @ qs) = pixmap_bytes ps + pixmap_bytes qs"
  by (simp_all add: pixmap_bytes_def)

lemma pixmap_ok_length: "pixmap_ok p \<Longrightarrow> length (px_ARGB p) \<le> 1048576"
proof -
  assume "pixmap_ok p"
  then have "length (px_ARGB p) = unat (px_Width p) * unat (px_Height p) * 4"
    and "unat (px_Width p) \<le> 512" "unat (px_Height p) \<le> 512"
    by (auto simp: pixmap_ok_def)
  moreover have "unat (px_Width p) * unat (px_Height p) \<le> 512 * 512"
    using calculation by (intro mult_le_mono) auto
  ultimately show ?thesis by linarith
qed

lemma Pixmap_Validate_None [go_simps]: "Pixmap_Validate p = None \<longleftrightarrow> pixmap_ok p"
proof (cases "px_Width p = 0 \<or> px_Height p = 0 \<or> px_Width p > 512 \<or> px_Height p > 512")
  case True
  then have "\<not> pixmap_ok p"
    by (auto simp: pixmap_ok_def word_less_nat_alt)
  with True show ?thesis by (simp add: Pixmap_Validate_def MaxPixmapDimension_def)
next
  case False
  let ?w = "unat (px_Width p)" and ?h = "unat (px_Height p)" and ?n = "length (px_ARGB p)"
  from False have w: "0 < ?w" "?w \<le> 512" and h: "0 < ?h" "?h \<le> 512"
    by (auto simp: word_le_nat_alt word_less_nat_alt unat_gt_0)
  have whb: "?w * ?h \<le> 512 * 512" using w h by (intro mult_le_mono) auto
  have ucw: "(ucast (px_Width p) * ucast (px_Height p) * 4 :: uint64) = of_nat (?w * ?h * 4)"
    by simp
  have eq: "(of_nat ?n = (ucast (px_Width p) * ucast (px_Height p) * 4 :: uint64))
      \<longleftrightarrow> ?n = ?w * ?h * 4" if "?n \<le> 2097152"
    unfolding ucw by (rule of_nat_eq_iff_64) (use that whb in linarith)+
  have small: "?n \<le> 2097152" if "?n = ?w * ?h * 4"
    using that whb by linarith
  from False w h eq small show ?thesis
    by (auto simp: Pixmap_Validate_def pixmap_ok_def MaxPixmapDimension_def
      MaxPixmapBytesPerItem_def not_le)
qed

lemma validate_pixmaps_None [go_simps]:
  "validate_pixmaps name j ps = None \<longleftrightarrow> (\<forall>p\<in>set ps. pixmap_ok p)"
  by (induction ps arbitrary: j) (auto simp flip: Pixmap_Validate_None split: option.splits)

lemma sum_pixmaps_Inr:
  "\<forall>p\<in>set ps. pixmap_ok p \<Longrightarrow> sum_pixmaps t ps = Inr (t + of_nat (pixmap_bytes ps))"
  by (induction ps arbitrary: t)
    (auto simp: Pixmap_Validate_None [THEN iffD2] algebra_simps)

definition icon_ok :: "icon \<Rightarrow> bool" where
  "icon_ok i \<longleftrightarrow> text_ok MaxTextBytes (ic_Name i) \<and> text_ok MaxTextBytes (ic_ThemePath i)
     \<and> (\<forall>p\<in>set (elems (ic_Pixmaps i)). pixmap_ok p)"

lemma Icon_Validate_None [go_simps]: "Icon_Validate i name = None \<longleftrightarrow> icon_ok i"
  by (auto simp: Icon_Validate_def icon_ok_def go_simps)

definition tooltip_ok :: "tooltip \<Rightarrow> bool" where
  "tooltip_ok t \<longleftrightarrow> text_ok MaxTextBytes (tt_IconName t) \<and> text_ok MaxTooltipBytes (tt_Title t)
     \<and> text_ok MaxTooltipBytes (tt_Description t) \<and> (\<forall>p\<in>set (elems (tt_Pixmaps t)). pixmap_ok p)"

lemma Tooltip_Validate_None [go_simps]: "Tooltip_Validate t = None \<longleftrightarrow> tooltip_ok t"
  by (auto simp: Tooltip_Validate_def tooltip_ok_def go_simps)

text \<open>
  The pixmap bytes of an item, as the code's \<open>uint64\<close> counter holds them.
\<close>

definition item_bytes :: "item \<Rightarrow> nat" where
  "item_bytes i = pixmap_bytes (item_pixmaps i) mod 2 ^ 64"

definition item_ok :: "item \<Rightarrow> bool" where
  "item_ok i \<longleftrightarrow> key_ok (it_Key i)
     \<and> text_ok MaxTextBytes (it_ID i) \<and> it_ID i \<noteq> [] \<and> text_ok MaxTextBytes (it_Title i)
     \<and> Category_valid (it_Category i) \<and> Status_valid (it_Status i)
     \<and> icon_ok (it_Icon i) \<and> icon_ok (it_AttentionIcon i) \<and> icon_ok (it_OverlayIcon i)
     \<and> tooltip_ok (it_Tooltip i)
     \<and> (it_MenuPath i = [] \<or> text_ok MaxTextBytes (it_MenuPath i) \<and> HasPrefix (it_MenuPath i) ''/'')
     \<and> item_bytes i \<le> MaxPixmapBytesPerItem"

lemma item_pixmaps_ok:
  "icon_ok (it_Icon i) \<Longrightarrow> icon_ok (it_AttentionIcon i) \<Longrightarrow> icon_ok (it_OverlayIcon i) \<Longrightarrow>
    tooltip_ok (it_Tooltip i) \<Longrightarrow> \<forall>p\<in>set (item_pixmaps i). pixmap_ok p"
  by (auto simp: item_pixmaps_def icon_ok_def tooltip_ok_def)

lemma unat_item_bytes: "unat (of_nat (pixmap_bytes (item_pixmaps i)) :: uint64) = item_bytes i"
  by (simp add: item_bytes_def unsigned_of_nat take_bit_eq_mod)

lemma Item_pixmapBytes_Inr:
  "\<forall>p\<in>set (item_pixmaps i). pixmap_ok p \<Longrightarrow>
    Item_pixmapBytes i = Inr (of_nat (pixmap_bytes (item_pixmaps i)))"
  by (simp add: Item_pixmapBytes_def sum_pixmaps_Inr)

lemma validate_icons_None [go_simps]:
  "validate_icons (item_icons i) = None \<longleftrightarrow>
    icon_ok (it_Icon i) \<and> icon_ok (it_AttentionIcon i) \<and> icon_ok (it_OverlayIcon i)"
  by (simp add: validate_icons_def item_icons_def go_simps)

lemma Item_Validate_None [go_simps]: "Item_Validate i = None \<longleftrightarrow> item_ok i"
proof (cases "icon_ok (it_Icon i) \<and> icon_ok (it_AttentionIcon i) \<and> icon_ok (it_OverlayIcon i)
    \<and> tooltip_ok (it_Tooltip i)")
  case True
  then have bytes: "Item_pixmapBytes i = Inr (of_nat (pixmap_bytes (item_pixmaps i)))"
    by (intro Item_pixmapBytes_Inr item_pixmaps_ok) auto
  have cmp: "(of_nat MaxPixmapBytesPerItem :: uint64) < of_nat (pixmap_bytes (item_pixmaps i))
      \<longleftrightarrow> MaxPixmapBytesPerItem < item_bytes i"
    by (simp add: word_less_nat_alt unat_item_bytes MaxPixmapBytesPerItem_def)
  from True show ?thesis
    by (auto simp: Item_Validate_def item_ok_def go_simps bytes cmp not_less)
next
  case False
  then show ?thesis by (auto simp: Item_Validate_def item_ok_def go_simps)
qed

lemma item_ok_pixmapBytes:
  "item_ok i \<Longrightarrow> \<exists>b. Item_pixmapBytes i = Inr b \<and> unat b = item_bytes i"
  using Item_pixmapBytes_Inr [of i] item_pixmaps_ok [of i] unat_item_bytes [of i]
  by (auto simp: item_ok_def)

lemma snapshot_loop_None:
  assumes "unat aggregate \<le> MaxPixmapBytesAggregate"
  shows "snapshot_loop i seen aggregate its = None \<longleftrightarrow>
    (\<forall>it\<in>set its. item_ok it) \<and> distinct (map it_Key its)
    \<and> it_Key ` set its \<inter> set seen = {}
    \<and> unat aggregate + (\<Sum>it\<leftarrow>its. item_bytes it) \<le> MaxPixmapBytesAggregate"
  using assms
proof (induction its arbitrary: i seen aggregate)
  case Nil
  then show ?case by simp
next
  case (Cons it its)
  show ?case
  proof (cases "item_ok it \<and> it_Key it \<notin> set seen")
    case False
    then show ?thesis by (auto simp: Item_Validate_None split: option.splits)
  next
    case True
    then obtain b where b: "Item_pixmapBytes it = Inr b" "unat b = item_bytes it"
      using item_ok_pixmapBytes by blast
    have bnd: "unat b \<le> MaxPixmapBytesPerItem" using True b(2) by (simp add: item_ok_def)
    have add: "unat (aggregate + b) = unat aggregate + unat b"
      using bnd Cons.prems
      by (intro unat_add_64) (simp add: MaxPixmapBytesAggregate_def MaxPixmapBytesPerItem_def)
    have cmp: "(of_nat MaxPixmapBytesAggregate :: uint64) < aggregate + b
        \<longleftrightarrow> MaxPixmapBytesAggregate < unat aggregate + item_bytes it"
      by (simp add: word_less_nat_alt add b(2) MaxPixmapBytesAggregate_def)
    show ?thesis
    proof (cases "MaxPixmapBytesAggregate < unat aggregate + item_bytes it")
      case True
      with \<open>item_ok it \<and> _\<close> b cmp show ?thesis
        by (auto simp: Item_Validate_None [THEN iffD2])
    next
      case False
      with \<open>item_ok it \<and> _\<close> b cmp add
        Cons.IH [of "aggregate + b" "Suc i" "it_Key it # seen"]
      show ?thesis by (auto simp: Item_Validate_None [THEN iffD2] Let_def)
    qed
  qed
qed

definition snapshot_ok :: "snapshot \<Rightarrow> bool" where
  "snapshot_ok s \<longleftrightarrow> length (sn_Items s) \<le> MaxItems \<and> (\<forall>i\<in>set (sn_Items s). item_ok i)
     \<and> distinct (map it_Key (sn_Items s))
     \<and> (\<Sum>i\<leftarrow>sn_Items s. item_bytes i) \<le> MaxPixmapBytesAggregate"

lemma Snapshot_Validate_None [go_simps]: "Snapshot_Validate s = None \<longleftrightarrow> snapshot_ok s"
  by (auto simp: Snapshot_Validate_def snapshot_ok_def snapshot_loop_None)

end
