(* ===== verification/State_Owner.thy ===== *)
theory State_Owner
  imports Validation
begin

text \<open>
  The state owner, \<open>internal/state/owner.go\<close>: the item map, the registration order, the service
  sequence and the presenter sink. One goroutine runs every command, so a command is one atomic
  step on the record \<open>owner\<close>. The sink is Go's interface \<open>Sink\<close>: its \<open>Send\<close> is the parameter
  \<open>send\<close>, which acts on the rest of the service, a state of any type \<open>'w\<close>; a sink is named by
  a number, so that \<open>o.sink == sink\<close> compares identities. \<open>json.Marshal\<close> is the parameter
  \<open>mar\<close>. The theory defines the operations and proves the owner's invariant; what a presenter
  learns from the published messages is in the theory \<open>Replica\<close>.
\<close>

section \<open>State\<close>

record address =
  ad_owner :: bytes
  ad_path :: bytes

record entry =
  rc_key :: item_key
  rc_item :: item
  rc_menu :: menu
  rc_hasItem :: bool
  rc_hasMenu :: bool
  rc_published :: bool

record owner =
  ow_items :: "(address, entry) gomap"
  ow_order :: "address list"
  ow_sequence :: uint64
  ow_sink :: "nat option"
  ow_stopped :: bool

type_synonym 'w sender = "nat \<Rightarrow> envelope \<Rightarrow> 'w \<Rightarrow> bool \<times> 'w"

definition Owner_Start :: owner where
  "Owner_Start = \<lparr>ow_items = [], ow_order = [], ow_sequence = 0, ow_sink = None,
     ow_stopped = False\<rparr>"

definition addr_of :: "item_key \<Rightarrow> address" where
  "addr_of k = \<lparr>ad_owner = ik_Owner k, ad_path = ik_ObjectPath k\<rparr>"

definition new_entry :: "item_key \<Rightarrow> entry" where
  "new_entry key = \<lparr>rc_key = key, rc_item = zero_item, rc_menu = zero_menu, rc_hasItem = False,
     rc_hasMenu = False, rc_published = False\<rparr>"

section \<open>Copies\<close>

text \<open>
  The clone functions copy slices so that no caller shares memory with the owner. Values here are
  immutable, so each is the identity; they keep nil slices nil.
\<close>

definition cloneBytes :: "bytes \<Rightarrow> bytes" where
  "cloneBytes b = [] @ b"

definition clonePixmaps :: "pixmap slice \<Rightarrow> pixmap slice" where
  "clonePixmaps ps =
    (case ps of
      None \<Rightarrow> None
    | Some xs \<Rightarrow> Some (map (\<lambda>p. p\<lparr>px_ARGB := cloneBytes (px_ARGB p)\<rparr>) xs))"

definition cloneIcon :: "icon \<Rightarrow> icon" where
  "cloneIcon i = i\<lparr>ic_Pixmaps := clonePixmaps (ic_Pixmaps i)\<rparr>"

definition cloneItem :: "item \<Rightarrow> item" where
  "cloneItem i = i\<lparr>it_Icon := cloneIcon (it_Icon i), it_AttentionIcon := cloneIcon (it_AttentionIcon i),
     it_OverlayIcon := cloneIcon (it_OverlayIcon i),
     it_Tooltip := (it_Tooltip i)\<lparr>tt_Pixmaps := clonePixmaps (tt_Pixmaps (it_Tooltip i))\<rparr>\<rparr>"

fun cloneNode :: "menu_node \<Rightarrow> menu_node" where
  "cloneNode (MenuNode n cs) =
    MenuNode (n\<lparr>mn_IconData := cloneBytes (mn_IconData n)\<rparr>) (map cloneNode cs)"

definition cloneMenu :: "menu \<Rightarrow> menu" where
  "cloneMenu m = m\<lparr>me_Root := cloneNode (me_Root m)\<rparr>"

lemma clonePixmaps_id [simp]: "clonePixmaps ps = ps"
  by (cases ps) (simp_all add: clonePixmaps_def cloneBytes_def)

lemma cloneItem_id [simp]: "cloneItem i = i"
  by (simp add: cloneItem_def cloneIcon_def)

lemma cloneNode_id [simp]: "cloneNode n = n"
  by (induction n) (simp add: cloneBytes_def map_idI)

lemma cloneMenu_id [simp]: "cloneMenu m = m"
  by (simp add: cloneMenu_def)

section \<open>Operations\<close>

definition current :: "owner \<Rightarrow> item_key \<Rightarrow> entry option" where
  "current ow key =
    (case gm_get (ow_items ow) (addr_of key) of
      None \<Rightarrow> None
    | Some r \<Rightarrow> if rc_key r \<noteq> key then None else Some r)"

definition publish ::
  "marshaller \<Rightarrow> 'w sender \<Rightarrow> bytes \<Rightarrow> payload \<Rightarrow> owner \<times> 'w \<Rightarrow> owner \<times> 'w" where
  "publish mar send kind payload = (\<lambda>(ow, w).
    let ow = ow\<lparr>ow_sequence := ow_sequence ow + 1\<rparr> in
    case ow_sink ow of
      None \<Rightarrow> (ow, w)
    | Some s \<Rightarrow>
        (case mar payload of
          None \<Rightarrow> (ow\<lparr>ow_sink := None\<rparr>, w)
        | Some encoded \<Rightarrow>
            let envelope = \<lparr>en_Kind = kind, en_RequestID = 0, en_Sequence = ow_sequence ow,
                  en_Payload = encoded\<rparr>;
                (sent, w) = send s envelope w
            in if sent then (ow, w) else (ow\<lparr>ow_sink := None\<rparr>, w)))"

definition retire ::
  "marshaller \<Rightarrow> 'w sender \<Rightarrow> address \<Rightarrow> entry \<Rightarrow> owner \<times> 'w \<Rightarrow> owner \<times> 'w" where
  "retire mar send spot r = (\<lambda>(ow, w).
    let ow = ow\<lparr>ow_items := gm_del spot (ow_items ow), ow_order := remove1 spot (ow_order ow)\<rparr> in
    if rc_published r then publish mar send KindItemRemoved (PRemoved (rc_key r)) (ow, w)
    else (ow, w))"

definition Owner_Add ::
  "marshaller \<Rightarrow> 'w sender \<Rightarrow> item_key \<Rightarrow> owner \<times> 'w \<Rightarrow> owner \<times> 'w" where
  "Owner_Add mar send key = (\<lambda>(ow, w).
    let spot = addr_of key;
        admit = (\<lambda>(ow, w). (ow\<lparr>ow_items := gm_set spot (new_entry key) (ow_items ow),
                              ow_order := ow_order ow @ [spot]\<rparr>, w))
    in case gm_get (ow_items ow) spot of
      Some existing \<Rightarrow>
        if ik_Generation (rc_key existing) \<ge> ik_Generation key then (ow, w)
        else admit (retire mar send spot existing (ow, w))
    | None \<Rightarrow> if length (ow_items ow) \<ge> MaxItems then (ow, w) else admit (ow, w))"

definition Owner_Update ::
  "marshaller \<Rightarrow> 'w sender \<Rightarrow> item_key \<Rightarrow> item \<Rightarrow> owner \<times> 'w \<Rightarrow> owner \<times> 'w" where
  "Owner_Update mar send key it = (\<lambda>(ow, w).
    case current ow key of
      None \<Rightarrow> (ow, w)
    | Some r \<Rightarrow>
        let it = it\<lparr>it_Key := key\<rparr> in
        if Item_Validate it \<noteq> None then (ow, w)
        else let new = cloneItem it in
        if rc_published r \<and> rc_hasItem r \<and> rc_item r = new then (ow, w)
        else let r' = r\<lparr>rc_item := new, rc_hasItem := True\<rparr> in
        if rc_published r then
          publish mar send KindItemChanged (PItem new)
            (ow\<lparr>ow_items := gm_set (addr_of key) r' (ow_items ow)\<rparr>, w)
        else
          publish mar send KindItemAdded (PItem new)
            (ow\<lparr>ow_items := gm_set (addr_of key) (r'\<lparr>rc_published := True\<rparr>) (ow_items ow)\<rparr>, w))"

definition Owner_UpdateMenu ::
  "marshaller \<Rightarrow> 'w sender \<Rightarrow> item_key \<Rightarrow> menu \<Rightarrow> owner \<times> 'w \<Rightarrow> owner \<times> 'w" where
  "Owner_UpdateMenu mar send key tree = (\<lambda>(ow, w).
    case current ow key of
      None \<Rightarrow> (ow, w)
    | Some r \<Rightarrow>
        if \<not> rc_published r then (ow, w)
        else if Menu_Validate tree \<noteq> None then (ow, w)
        else let r' = r\<lparr>rc_menu := cloneMenu tree, rc_hasMenu := True\<rparr> in
          publish mar send KindMenuUpdated (PMenu key (rc_menu r'))
            (ow\<lparr>ow_items := gm_set (addr_of key) r' (ow_items ow)\<rparr>, w))"

definition Owner_Remove ::
  "marshaller \<Rightarrow> 'w sender \<Rightarrow> item_key \<Rightarrow> owner \<times> 'w \<Rightarrow> owner \<times> 'w" where
  "Owner_Remove mar send key = (\<lambda>(ow, w).
    case current ow key of
      None \<Rightarrow> (ow, w)
    | Some r \<Rightarrow> retire mar send (addr_of key) r (ow, w))"

definition Owner_Menu :: "item_key \<Rightarrow> owner \<Rightarrow> menu option" where
  "Owner_Menu key ow =
    (case current ow key of
      None \<Rightarrow> None
    | Some r \<Rightarrow> if \<not> rc_hasMenu r then None else Some (cloneMenu (rc_menu r)))"

text \<open>The loop of \<open>snapshotLocked\<close> over the registration order, then the stable sort.\<close>

fun collect_published :: "(address, entry) gomap \<Rightarrow> address list \<Rightarrow> item list" where
  "collect_published items [] = []"
| "collect_published items (spot # spots) =
    (case gm_get items spot of
      None \<Rightarrow> collect_published items spots
    | Some r \<Rightarrow>
        if \<not> rc_published r then collect_published items spots
        else cloneItem (rc_item r) # collect_published items spots)"

definition snapshotLocked :: "owner \<Rightarrow> snapshot" where
  "snapshotLocked ow =
    \<lparr>sn_Sequence = ow_sequence ow,
     sn_Items = sort_key (\<lambda>i. ik_Generation (it_Key i))
       (collect_published (ow_items ow) (ow_order ow))\<rparr>"

definition Owner_Snapshot :: "owner \<Rightarrow> snapshot" where
  "Owner_Snapshot ow =
    (if ow_stopped ow then \<lparr>sn_Sequence = 0, sn_Items = []\<rparr> else snapshotLocked ow)"

datatype attach_error = NilSink | OwnerClosed

definition Owner_Attach :: "nat option \<Rightarrow> owner \<Rightarrow> (attach_error + snapshot) \<times> owner" where
  "Owner_Attach sink ow =
    (case sink of
      None \<Rightarrow> (Inl NilSink, ow)
    | Some s \<Rightarrow>
        if ow_stopped ow then (Inl OwnerClosed, ow)
        else let ow = ow\<lparr>ow_sink := Some s\<rparr> in (Inr (snapshotLocked ow), ow))"

definition Owner_Detach :: "nat \<Rightarrow> owner \<Rightarrow> owner" where
  "Owner_Detach s ow = (if ow_sink ow = Some s then ow\<lparr>ow_sink := None\<rparr> else ow)"

definition Owner_Close :: "owner \<Rightarrow> owner" where
  "Owner_Close ow = ow\<lparr>ow_stopped := True\<rparr>"

text \<open>\<open>submit\<close> runs a command unless the owner is stopped, and says whether it did.\<close>

definition submit :: "(owner \<times> 'w \<Rightarrow> owner \<times> 'w) \<Rightarrow> owner \<times> 'w \<Rightarrow> bool \<times> (owner \<times> 'w)" where
  "submit cmd s = (if ow_stopped (fst s) then (False, s) else (True, cmd s))"

text \<open>The commands the rest of the service submits, and a run of them.\<close>

datatype owner_cmd =
    CAdd item_key
  | CUpdate item_key item
  | CUpdateMenu item_key menu
  | CRemove item_key
  | CAttach nat
  | CDetach nat
  | CClose

fun owner_cmd_body ::
  "marshaller \<Rightarrow> 'w sender \<Rightarrow> owner_cmd \<Rightarrow> owner \<times> 'w \<Rightarrow> owner \<times> 'w" where
  "owner_cmd_body mar send (CAdd k) s = Owner_Add mar send k s"
| "owner_cmd_body mar send (CUpdate k i) s = Owner_Update mar send k i s"
| "owner_cmd_body mar send (CUpdateMenu k m) s = Owner_UpdateMenu mar send k m s"
| "owner_cmd_body mar send (CRemove k) s = Owner_Remove mar send k s"
| "owner_cmd_body mar send (CAttach n) s = (snd (Owner_Attach (Some n) (fst s)), snd s)"
| "owner_cmd_body mar send (CDetach n) s = (Owner_Detach n (fst s), snd s)"
| "owner_cmd_body mar send CClose s = (Owner_Close (fst s), snd s)"

definition owner_step ::
  "marshaller \<Rightarrow> 'w sender \<Rightarrow> owner_cmd \<Rightarrow> owner \<times> 'w \<Rightarrow> owner \<times> 'w" where
  "owner_step mar send c s = snd (submit (owner_cmd_body mar send c) s)"

fun owner_run ::
  "marshaller \<Rightarrow> 'w sender \<Rightarrow> owner_cmd list \<Rightarrow> owner \<times> 'w \<Rightarrow> owner \<times> 'w" where
  "owner_run mar send [] s = s"
| "owner_run mar send (c # cs) s = owner_run mar send cs (owner_step mar send c s)"

section \<open>Publishing changes only the sequence, the sink and the world\<close>

lemma publish_frame [go_simps]:
  "ow_items (fst (publish mar send kind p s)) = ow_items (fst s)"
  "ow_order (fst (publish mar send kind p s)) = ow_order (fst s)"
  "ow_stopped (fst (publish mar send kind p s)) = ow_stopped (fst s)"
  "ow_sequence (fst (publish mar send kind p s)) = ow_sequence (fst s) + 1"
  by (cases s; simp add: publish_def Let_def split: option.splits prod.splits)+

lemma publish_sink:
  "ow_sink (fst (publish mar send kind p s)) = ow_sink (fst s) \<or>
   ow_sink (fst (publish mar send kind p s)) = None"
  by (cases s) (simp add: publish_def Let_def split: option.splits prod.splits)

lemma publish_no_sink:
  "ow_sink (fst s) = None \<Longrightarrow> publish mar send kind p s = ((fst s)\<lparr>ow_sequence := ow_sequence (fst s) + 1\<rparr>, snd s)"
  by (cases s) (simp add: publish_def Let_def)

section \<open>The invariant\<close>

definition entry_ok :: "address \<Rightarrow> entry \<Rightarrow> bool" where
  "entry_ok spot r \<longleftrightarrow> addr_of (rc_key r) = spot
     \<and> (rc_hasItem r \<longleftrightarrow> rc_published r)
     \<and> (rc_published r \<longrightarrow> it_Key (rc_item r) = rc_key r \<and> item_ok (rc_item r))
     \<and> (rc_hasMenu r \<longrightarrow> rc_published r \<and> Menu_Validate (rc_menu r) = None)"

definition registry_ok :: "(address, entry) gomap \<Rightarrow> address list \<Rightarrow> bool" where
  "registry_ok items order \<longleftrightarrow> gm_ok items \<and> distinct order \<and> set order = gm_keys items
     \<and> length items \<le> MaxItems
     \<and> (\<forall>spot r. gm_get items spot = Some r \<longrightarrow> entry_ok spot r)"

definition owner_inv :: "owner \<Rightarrow> bool" where
  "owner_inv ow \<longleftrightarrow> registry_ok (ow_items ow) (ow_order ow)"

lemma owner_inv_Start: "owner_inv Owner_Start"
  by (simp add: owner_inv_def registry_ok_def Owner_Start_def)

lemma registry_ok_del:
  assumes "registry_ok items order"
  shows "registry_ok (gm_del spot items) (remove1 spot order)"
proof -
  from assms have "set (remove1 spot order) = gm_keys (gm_del spot items)"
    by (auto simp: registry_ok_def gm_keys_del set_remove1_eq)
  moreover from assms have "length (gm_del spot items) \<le> MaxItems"
    unfolding registry_ok_def using length_delete_le [of spot items] by linarith
  ultimately show ?thesis
    using assms by (auto simp: registry_ok_def gm_get_del split: if_splits)
qed

lemma registry_ok_put:
  assumes "registry_ok items order" and "spot \<in> gm_keys items" and "entry_ok spot r"
  shows "registry_ok (gm_set spot r items) order"
proof -
  from assms have "set order = gm_keys (gm_set spot r items)"
    by (auto simp: registry_ok_def gm_keys_set)
  with assms show ?thesis
    by (auto simp: registry_ok_def gm_get_set length_gm_set split: if_splits)
qed

lemma registry_ok_new:
  assumes "registry_ok items order" and "spot \<notin> gm_keys items" and "entry_ok spot r"
    and "length items < MaxItems"
  shows "registry_ok (gm_set spot r items) (order @ [spot])"
proof -
  from assms have "set (order @ [spot]) = gm_keys (gm_set spot r items)"
    by (auto simp: registry_ok_def gm_keys_set)
  with assms show ?thesis
    by (auto simp: registry_ok_def gm_get_set length_gm_set split: if_splits)
qed

lemma registry_ok_get:
  "registry_ok items order \<Longrightarrow> gm_get items spot = Some r \<Longrightarrow> entry_ok spot r"
  by (simp add: registry_ok_def)

lemma entry_ok_new: "entry_ok (addr_of k) (new_entry k)"
  by (simp add: entry_ok_def new_entry_def)

lemma current_Some:
  "current ow k = Some r \<longleftrightarrow> gm_get (ow_items ow) (addr_of k) = Some r \<and> rc_key r = k"
  by (auto simp: current_def split: option.splits if_splits)

lemma retire_frame [go_simps]:
  "ow_items (fst (retire mar send spot r s)) = gm_del spot (ow_items (fst s))"
  "ow_order (fst (retire mar send spot r s)) = remove1 spot (ow_order (fst s))"
  "ow_stopped (fst (retire mar send spot r s)) = ow_stopped (fst s)"
  by (cases s; simp add: retire_def Let_def publish_frame)+

text \<open>The four outcomes of \<open>Add\<close>.\<close>

lemma Owner_Add_stale:
  "gm_get (ow_items (fst s)) (addr_of k) = Some r \<Longrightarrow>
    ik_Generation (rc_key r) \<ge> ik_Generation k \<Longrightarrow> Owner_Add mar send k s = s"
  by (cases s) (simp add: Owner_Add_def Let_def)

lemma Owner_Add_replace:
  "gm_get (ow_items (fst s)) (addr_of k) = Some r \<Longrightarrow>
    \<not> ik_Generation (rc_key r) \<ge> ik_Generation k \<Longrightarrow>
    t = retire mar send (addr_of k) r s \<Longrightarrow>
    Owner_Add mar send k s =
      ((fst t)\<lparr>ow_items := gm_set (addr_of k) (new_entry k) (ow_items (fst t)),
               ow_order := ow_order (fst t) @ [addr_of k]\<rparr>, snd t)"
  by (cases s) (simp add: Owner_Add_def Let_def case_prod_beta)

lemma Owner_Add_full:
  "gm_get (ow_items (fst s)) (addr_of k) = None \<Longrightarrow> length (ow_items (fst s)) \<ge> MaxItems \<Longrightarrow>
    Owner_Add mar send k s = s"
  by (cases s) (simp add: Owner_Add_def Let_def)

lemma Owner_Add_new:
  "gm_get (ow_items (fst s)) (addr_of k) = None \<Longrightarrow> \<not> length (ow_items (fst s)) \<ge> MaxItems \<Longrightarrow>
    Owner_Add mar send k s =
      ((fst s)\<lparr>ow_items := gm_set (addr_of k) (new_entry k) (ow_items (fst s)),
               ow_order := ow_order (fst s) @ [addr_of k]\<rparr>, snd s)"
  by (cases s) (simp add: Owner_Add_def Let_def)

lemmas Owner_Add_outcomes = Owner_Add_stale Owner_Add_full Owner_Add_new

lemma owner_inv_Add:
  assumes "owner_inv (fst s)"
  shows "owner_inv (fst (Owner_Add mar send k s))"
proof -
  let ?spot = "addr_of k"
  from assms have ok: "registry_ok (ow_items (fst s)) (ow_order (fst s))"
    by (simp add: owner_inv_def)
  show ?thesis
  proof (cases "gm_get (ow_items (fst s)) ?spot")
    case None
    with ok registry_ok_new [OF ok _ entry_ok_new] assms show ?thesis
      by (cases "length (ow_items (fst s)) \<ge> MaxItems")
        (auto simp: Owner_Add_outcomes owner_inv_def gm_get_keys [symmetric])
  next
    case (Some r)
    show ?thesis
    proof (cases "ik_Generation (rc_key r) \<ge> ik_Generation k")
      case True
      with Some assms show ?thesis by (simp add: Owner_Add_stale)
    next
      case False
      from Some have inkeys: "?spot \<in> gm_keys (ow_items (fst s))" by (rule gm_get_in_keys)
      then have "length (gm_del ?spot (ow_items (fst s))) < MaxItems"
        using ok length_gm_del [of "ow_items (fst s)" ?spot]
        by (cases "ow_items (fst s)") (auto simp: registry_ok_def)
      then have "registry_ok (gm_set ?spot (new_entry k) (gm_del ?spot (ow_items (fst s))))
          (remove1 ?spot (ow_order (fst s)) @ [?spot])"
        by (intro registry_ok_new registry_ok_del ok entry_ok_new) (simp_all add: gm_keys_del)
      with Owner_Add_replace [OF Some False refl] show ?thesis
        by (simp add: owner_inv_def retire_frame)
    qed
  qed
qed

lemma owner_inv_Remove:
  assumes "owner_inv (fst s)"
  shows "owner_inv (fst (Owner_Remove mar send k s))"
  using assms registry_ok_del
  by (cases s) (auto simp: Owner_Remove_def owner_inv_def retire_frame split: option.splits)

text \<open>The outcomes of \<open>Update\<close> and \<open>UpdateMenu\<close>.\<close>

lemma Owner_Update_discard:
  "current (fst s) k = None \<or> Item_Validate (it\<lparr>it_Key := k\<rparr>) \<noteq> None \<Longrightarrow>
    Owner_Update mar send k it s = s"
  by (cases s) (auto simp: Owner_Update_def Let_def split: option.splits)

lemma Owner_Update_same:
  "current (fst s) k = Some r \<Longrightarrow> rc_published r \<Longrightarrow> rc_hasItem r \<Longrightarrow>
    rc_item r = it\<lparr>it_Key := k\<rparr> \<Longrightarrow> Owner_Update mar send k it s = s"
  by (cases s) (simp add: Owner_Update_def Let_def)

lemma Owner_Update_changed:
  "current (fst s) k = Some r \<Longrightarrow> Item_Validate (it\<lparr>it_Key := k\<rparr>) = None \<Longrightarrow> rc_published r \<Longrightarrow>
    \<not> (rc_hasItem r \<and> rc_item r = it\<lparr>it_Key := k\<rparr>) \<Longrightarrow>
    Owner_Update mar send k it s =
      publish mar send KindItemChanged (PItem (it\<lparr>it_Key := k\<rparr>))
        ((fst s)\<lparr>ow_items := gm_set (addr_of k)
           (r\<lparr>rc_item := it\<lparr>it_Key := k\<rparr>, rc_hasItem := True\<rparr>) (ow_items (fst s))\<rparr>, snd s)"
  by (cases s) (auto simp: Owner_Update_def Let_def)

lemma Owner_Update_added:
  "current (fst s) k = Some r \<Longrightarrow> Item_Validate (it\<lparr>it_Key := k\<rparr>) = None \<Longrightarrow> \<not> rc_published r \<Longrightarrow>
    Owner_Update mar send k it s =
      publish mar send KindItemAdded (PItem (it\<lparr>it_Key := k\<rparr>))
        ((fst s)\<lparr>ow_items := gm_set (addr_of k)
           (r\<lparr>rc_item := it\<lparr>it_Key := k\<rparr>, rc_hasItem := True, rc_published := True\<rparr>)
           (ow_items (fst s))\<rparr>, snd s)"
  by (cases s) (simp add: Owner_Update_def Let_def)

lemma Owner_Update_cases:
  obtains "Owner_Update mar send k it s = s"
  | r where "current (fst s) k = Some r" "Item_Validate (it\<lparr>it_Key := k\<rparr>) = None" "rc_published r"
      "\<not> (rc_hasItem r \<and> rc_item r = it\<lparr>it_Key := k\<rparr>)"
  | r where "current (fst s) k = Some r" "Item_Validate (it\<lparr>it_Key := k\<rparr>) = None" "\<not> rc_published r"
  using Owner_Update_discard Owner_Update_same by (metis option.exhaust)

lemma Owner_UpdateMenu_discard:
  "current (fst s) k = None \<or> current (fst s) k = Some r \<and> \<not> rc_published r
     \<or> Menu_Validate m \<noteq> None \<Longrightarrow> Owner_UpdateMenu mar send k m s = s"
  by (cases s) (auto simp: Owner_UpdateMenu_def Let_def split: option.splits)

lemma Owner_UpdateMenu_set:
  "current (fst s) k = Some r \<Longrightarrow> rc_published r \<Longrightarrow> Menu_Validate m = None \<Longrightarrow>
    Owner_UpdateMenu mar send k m s =
      publish mar send KindMenuUpdated (PMenu k m)
        ((fst s)\<lparr>ow_items := gm_set (addr_of k) (r\<lparr>rc_menu := m, rc_hasMenu := True\<rparr>)
           (ow_items (fst s))\<rparr>, snd s)"
  by (cases s) (simp add: Owner_UpdateMenu_def Let_def)

lemma Owner_UpdateMenu_cases:
  obtains "Owner_UpdateMenu mar send k m s = s"
  | r where "current (fst s) k = Some r" "rc_published r" "Menu_Validate m = None"
  using Owner_UpdateMenu_discard by (metis option.exhaust)

lemma owner_inv_Update:
  assumes "owner_inv (fst s)"
  shows "owner_inv (fst (Owner_Update mar send k i s))"
proof -
  obtain ow w where s: "s = (ow, w)" by (cases s)
  from assms s have ok: "registry_ok (ow_items ow) (ow_order ow)"
    by (simp add: owner_inv_def)
  show ?thesis
  proof (cases "current ow k")
    case None
    with assms s show ?thesis by (simp add: Owner_Update_def)
  next
    case (Some r)
    then have get: "gm_get (ow_items ow) (addr_of k) = Some r" and key: "rc_key r = k"
      by (simp_all add: current_Some)
    note mem = gm_get_in_keys [OF get]
    from registry_ok_get [OF ok get] have e: "entry_ok (addr_of k) r" .
    let ?i = "i\<lparr>it_Key := k\<rparr>"
    have put: "registry_ok (gm_set (addr_of k) r' (ow_items ow)) (ow_order ow)"
      if "item_ok ?i" "rc_key r' = rc_key r" "rc_item r' = ?i" "rc_hasItem r'" "rc_published r'"
        "rc_menu r' = rc_menu r" "rc_hasMenu r' = rc_hasMenu r" for r'
      by (rule registry_ok_put [OF ok mem]) (use e key that in \<open>auto simp: entry_ok_def\<close>)
    show ?thesis
      using Some ok s
      by (auto simp: Owner_Update_def Let_def owner_inv_def publish_frame Item_Validate_None
        intro!: put)
  qed
qed

lemma owner_inv_UpdateMenu:
  assumes "owner_inv (fst s)"
  shows "owner_inv (fst (Owner_UpdateMenu mar send k m s))"
proof -
  obtain ow w where s: "s = (ow, w)" by (cases s)
  from assms s have ok: "registry_ok (ow_items ow) (ow_order ow)"
    by (simp add: owner_inv_def)
  show ?thesis
  proof (cases "current ow k")
    case None
    with assms s show ?thesis by (simp add: Owner_UpdateMenu_def)
  next
    case (Some r)
    then have get: "gm_get (ow_items ow) (addr_of k) = Some r"
      by (simp add: current_Some)
    note mem = gm_get_in_keys [OF get]
    from registry_ok_get [OF ok get] have e: "entry_ok (addr_of k) r" .
    have put: "registry_ok (gm_set (addr_of k) (r\<lparr>rc_menu := m, rc_hasMenu := True\<rparr>)
        (ow_items ow)) (ow_order ow)" if "rc_published r" "Menu_Validate m = None"
      by (rule registry_ok_put [OF ok mem]) (use e that in \<open>auto simp: entry_ok_def\<close>)
    show ?thesis
      using Some ok s put
      by (auto simp: Owner_UpdateMenu_def Let_def owner_inv_def publish_frame)
  qed
qed

lemma owner_inv_frame:
  "ow_items ow' = ow_items ow \<Longrightarrow> ow_order ow' = ow_order ow \<Longrightarrow> owner_inv ow' = owner_inv ow"
  by (simp add: owner_inv_def)

lemma Attach_frame [go_simps]:
  "ow_items (snd (Owner_Attach n ow)) = ow_items ow"
  "ow_order (snd (Owner_Attach n ow)) = ow_order ow"
  "ow_sequence (snd (Owner_Attach n ow)) = ow_sequence ow"
  by (simp_all add: Owner_Attach_def Let_def split: option.splits)

lemma Detach_frame [go_simps]:
  "ow_items (Owner_Detach n ow) = ow_items ow"
  "ow_order (Owner_Detach n ow) = ow_order ow"
  "ow_sequence (Owner_Detach n ow) = ow_sequence ow"
  by (simp_all add: Owner_Detach_def)

lemma Close_frame [go_simps]:
  "ow_items (Owner_Close ow) = ow_items ow"
  "ow_order (Owner_Close ow) = ow_order ow"
  "ow_sequence (Owner_Close ow) = ow_sequence ow"
  by (simp_all add: Owner_Close_def)

lemma owner_inv_cmd:
  "owner_inv (fst s) \<Longrightarrow> owner_inv (fst (owner_cmd_body mar send c s))"
  by (cases c)
    (simp_all add: owner_inv_Add owner_inv_Update owner_inv_UpdateMenu owner_inv_Remove
      owner_inv_frame [OF Attach_frame(1,2)] owner_inv_frame [OF Detach_frame(1,2)]
      owner_inv_frame [OF Close_frame(1,2)])

lemma owner_inv_step: "owner_inv (fst s) \<Longrightarrow> owner_inv (fst (owner_step mar send c s))"
  by (simp add: owner_step_def submit_def owner_inv_cmd)

lemma owner_inv_run: "owner_inv (fst s) \<Longrightarrow> owner_inv (fst (owner_run mar send cs s))"
  by (induction cs arbitrary: s) (simp_all add: owner_inv_step)

end
