(* ===== verification/Replica.thy ===== *)
theory Replica
  imports State_Owner
begin

text \<open>
  What a presenter learns. The interface \<open>state.Sink\<close> is the locale \<open>sink\<close>: a sink records
  exactly the envelopes it accepts. A presenter is specified by \<open>replay\<close>: it starts from the
  snapshot \<open>Attach\<close> returns and applies each envelope strictly, refusing a gap in the sequence,
  an addition for an address it already holds and a change or removal of an item it does not
  hold. The refinement is proved once for any sink: as long as it stays attached, the presenter's
  replica is the owner's published state.
\<close>

section \<open>The published state\<close>

definition published_view :: "(address, entry) gomap \<Rightarrow> item_key \<Rightarrow> item option" where
  "published_view items k =
    (case gm_get items (addr_of k) of
      None \<Rightarrow> None
    | Some r \<Rightarrow> if rc_key r = k \<and> rc_published r then Some (rc_item r) else None)"

definition menu_view :: "(address, entry) gomap \<Rightarrow> item_key \<Rightarrow> menu option" where
  "menu_view items k =
    (case gm_get items (addr_of k) of
      None \<Rightarrow> None
    | Some r \<Rightarrow> if rc_key r = k \<and> rc_hasMenu r then Some (rc_menu r) else None)"

lemma view_del:
  assumes "gm_get items spot = Some r" and "addr_of (rc_key r) = spot"
  shows "published_view (gm_del spot items) = (published_view items)(rc_key r := None)"
    and "menu_view (gm_del spot items) = (menu_view items)(rc_key r := None)"
  using assms by (auto simp: published_view_def menu_view_def gm_get_del fun_eq_iff)

lemma view_put:
  assumes "gm_get items spot = Some r" and "rc_key r = k" and "rc_key r' = k" and "addr_of k = spot"
  shows "published_view (gm_set spot r' items) =
      (published_view items)(k := if rc_published r' then Some (rc_item r') else None)"
    and "menu_view (gm_set spot r' items) =
      (menu_view items)(k := if rc_hasMenu r' then Some (rc_menu r') else None)"
  using assms by (auto simp: published_view_def menu_view_def gm_get_set fun_eq_iff)

lemma view_new:
  assumes "gm_get items (addr_of k) = None"
  shows "published_view (gm_set (addr_of k) (new_entry k) items) = published_view items"
    and "menu_view (gm_set (addr_of k) (new_entry k) items) = menu_view items"
  using assms
  by (auto simp: published_view_def menu_view_def gm_get_set fun_eq_iff new_entry_def
    split: option.splits)

lemma published_view_addr:
  "published_view items k = Some i \<Longrightarrow> gm_get items (addr_of k') = Some r \<Longrightarrow>
    addr_of k = addr_of k' \<Longrightarrow> rc_key r = k"
  by (auto simp: published_view_def split: option.splits if_splits)

section \<open>The presenter's replica\<close>

record view =
  vw_items :: "(item_key, item) gomap"
  vw_menus :: "(item_key, menu) gomap"
  vw_seq :: uint64

definition view_of_snapshot :: "snapshot \<Rightarrow> view" where
  "view_of_snapshot s = \<lparr>vw_items = map (\<lambda>i. (it_Key i, i)) (sn_Items s), vw_menus = [],
     vw_seq = sn_Sequence s\<rparr>"

fun apply_payload :: "bytes \<Rightarrow> payload \<Rightarrow> view \<Rightarrow> view option" where
  "apply_payload kind (PItem i) v =
    (if kind = KindItemAdded then
       (if addr_of (it_Key i) \<in> addr_of ` gm_keys (vw_items v) then None
        else Some (v\<lparr>vw_items := gm_set (it_Key i) i (vw_items v)\<rparr>))
     else if kind = KindItemChanged then
       (if it_Key i \<notin> gm_keys (vw_items v) then None
        else Some (v\<lparr>vw_items := gm_set (it_Key i) i (vw_items v)\<rparr>))
     else None)"
| "apply_payload kind (PRemoved k) v =
    (if kind = KindItemRemoved \<and> k \<in> gm_keys (vw_items v) then
       Some (v\<lparr>vw_items := gm_del k (vw_items v), vw_menus := gm_del k (vw_menus v)\<rparr>)
     else None)"
| "apply_payload kind (PMenu k m) v =
    (if kind = KindMenuUpdated \<and> k \<in> gm_keys (vw_items v) then
       Some (v\<lparr>vw_menus := gm_set k m (vw_menus v)\<rparr>)
     else None)"
| "apply_payload kind _ v = None"

definition apply_envelope :: "(bytes \<Rightarrow> payload option) \<Rightarrow> envelope \<Rightarrow> view \<Rightarrow> view option" where
  "apply_envelope decode e v =
    (if ValidateNextSequence (vw_seq v) (en_Sequence e) \<noteq> None then None
     else case decode (en_Payload e) of
       None \<Rightarrow> None
     | Some p \<Rightarrow> apply_payload (en_Kind e) p (v\<lparr>vw_seq := en_Sequence e\<rparr>))"

text \<open>
  The presenter's two decoders: \<open>unframe\<close> reads the envelope of a frame, \<open>decode\<close> its payload.
  They suit a service whose encoders are \<open>render\<close> and \<open>mar\<close> when they read back what those
  wrote, which is the round trip \<open>encoding/json\<close> documents for these types: valid values only
  (invalid UTF-8 would be replaced), and no empty slice that is not nil, since the \<open>omitempty\<close>
  fields read an empty slice back as nil. \<open>decodePixmaps\<close> never makes one.
\<close>

definition no_empty_slices :: "item \<Rightarrow> bool" where
  "no_empty_slices i \<longleftrightarrow> Some [] \<notin> set [ic_Pixmaps (it_Icon i), ic_Pixmaps (it_AttentionIcon i),
     ic_Pixmaps (it_OverlayIcon i), tt_Pixmaps (it_Tooltip i)]"

fun wire_safe :: "payload \<Rightarrow> bool" where
  "wire_safe (PItem i) \<longleftrightarrow> item_ok i \<and> no_empty_slices i"
| "wire_safe (PRemoved k) \<longleftrightarrow> key_ok k"
| "wire_safe (PMenu k m) \<longleftrightarrow> key_ok k \<and> Menu_Validate m = None"
| "wire_safe _ \<longleftrightarrow> False"

definition delta_kinds :: "bytes list" where
  "delta_kinds = [KindItemAdded, KindItemChanged, KindItemRemoved, KindMenuUpdated]"

definition codec ::
  "(envelope \<Rightarrow> bytes option) \<Rightarrow> marshaller \<Rightarrow> (bytes \<Rightarrow> envelope option) \<Rightarrow>
    (bytes \<Rightarrow> payload option) \<Rightarrow> bool" where
  "codec render mar unframe decode \<longleftrightarrow>
    (\<forall>p b. wire_safe p \<longrightarrow> mar p = Some b \<longrightarrow> decode b = Some p) \<and>
    (\<forall>e d p. en_Kind e \<in> set delta_kinds \<longrightarrow> wire_safe p \<longrightarrow> mar p = Some (en_Payload e) \<longrightarrow>
       render e = Some d \<longrightarrow> unframe d = Some e)"

text \<open>
  The commands of a presenter's session: no further \<open>Attach\<close>, and items as \<open>normalize\<close> makes them.
\<close>

fun session_cmd :: "owner_cmd \<Rightarrow> bool" where
  "session_cmd (CAttach n) \<longleftrightarrow> False"
| "session_cmd (CUpdate k i) \<longleftrightarrow> no_empty_slices i"
| "session_cmd _ \<longleftrightarrow> True"

lemma session_cmd_not_attach: "session_cmd c \<Longrightarrow> \<forall>n. c \<noteq> CAttach n"
  by (cases c) auto

fun replay ::
  "(bytes \<Rightarrow> envelope option) \<Rightarrow> (bytes \<Rightarrow> payload option) \<Rightarrow> bytes list \<Rightarrow> view \<Rightarrow> view option" where
  "replay unframe decode [] v = Some v"
| "replay unframe decode (d # ds) v =
    (case unframe d of
      None \<Rightarrow> None
    | Some e \<Rightarrow>
        (case apply_envelope decode e v of
          None \<Rightarrow> None
        | Some v' \<Rightarrow> replay unframe decode ds v'))"

lemma replay_append:
  "replay unframe decode (es @ fs) v =
    (case replay unframe decode es v of None \<Rightarrow> None | Some v' \<Rightarrow> replay unframe decode fs v')"
  by (induction es arbitrary: v) (auto split: option.splits)

text \<open>The replica agrees with the owner: items exactly, menus as far as it has been told.\<close>

definition synced :: "owner \<Rightarrow> view \<Rightarrow> bool" where
  "synced ow v \<longleftrightarrow> gm_get (vw_items v) = published_view (ow_items ow)
     \<and> gm_get (vw_menus v) \<subseteq>\<^sub>m menu_view (ow_items ow) \<and> vw_seq v = ow_sequence ow"

section \<open>The snapshot is the published state\<close>

lemma collect_published_set:
  "set (collect_published items order) =
    {rc_item r | spot r. spot \<in> set order \<and> gm_get items spot = Some r \<and> rc_published r}"
  by (induction order) (auto split: option.splits)

lemma collect_published_keys:
  assumes "registry_ok items order" and "distinct spots"
  shows "distinct (map it_Key (collect_published items spots))
    \<and> addr_of ` it_Key ` set (collect_published items spots) \<subseteq> set spots"
  using assms(2)
proof (induction spots)
  case Nil
  then show ?case by simp
next
  case (Cons spot spots)
  then have ih: "distinct (map it_Key (collect_published items spots))"
      "addr_of ` it_Key ` set (collect_published items spots) \<subseteq> set spots"
    by auto
  show ?case
  proof (cases "gm_get items spot")
    case None
    with ih show ?thesis by auto
  next
    case (Some r)
    with assms(1) have e: "entry_ok spot r" by (rule registry_ok_get)
    have "it_Key (rc_item r) \<notin> it_Key ` set (collect_published items spots)"
      if "rc_published r"
    proof
      assume "it_Key (rc_item r) \<in> it_Key ` set (collect_published items spots)"
      with ih(2) have "addr_of (it_Key (rc_item r)) \<in> set spots" by auto
      with e that Cons.prems show False by (auto simp: entry_ok_def)
    qed
    with Some ih e show ?thesis by (auto simp: entry_ok_def)
  qed
qed

lemma snapshotLocked_set:
  assumes "owner_inv ow"
  shows "i \<in> set (sn_Items (snapshotLocked ow)) \<longleftrightarrow>
    published_view (ow_items ow) (it_Key i) = Some i"
proof -
  from assms have ok: "registry_ok (ow_items ow) (ow_order ow)" by (simp add: owner_inv_def)
  have listed: "spot \<in> set (ow_order ow)" if "gm_get (ow_items ow) spot = Some r" for spot r
    using ok gm_get_in_keys [OF that] by (simp add: registry_ok_def)
  have "i \<in> set (sn_Items (snapshotLocked ow)) \<longleftrightarrow>
      (\<exists>spot r. spot \<in> set (ow_order ow) \<and> gm_get (ow_items ow) spot = Some r \<and> rc_published r
        \<and> i = rc_item r)"
    by (auto simp: snapshotLocked_def collect_published_set)
  also have "\<dots> \<longleftrightarrow> (\<exists>spot r. gm_get (ow_items ow) spot = Some r \<and> rc_published r \<and> i = rc_item r)"
    using listed by blast
  also have "\<dots> \<longleftrightarrow> published_view (ow_items ow) (it_Key i) = Some i"
  proof
    assume "\<exists>spot r. gm_get (ow_items ow) spot = Some r \<and> rc_published r \<and> i = rc_item r"
    then obtain spot r where "gm_get (ow_items ow) spot = Some r" "rc_published r" "i = rc_item r"
      by blast
    with registry_ok_get [OF ok, of spot r] show "published_view (ow_items ow) (it_Key i) = Some i"
      by (auto simp: published_view_def entry_ok_def)
  next
    assume "published_view (ow_items ow) (it_Key i) = Some i"
    then show "\<exists>spot r. gm_get (ow_items ow) spot = Some r \<and> rc_published r \<and> i = rc_item r"
      by (auto simp: published_view_def split: option.splits if_splits)
  qed
  finally show ?thesis .
qed

lemma snapshotLocked_distinct:
  assumes "owner_inv ow"
  shows "distinct (map it_Key (sn_Items (snapshotLocked ow)))"
proof -
  have "distinct (map it_Key (collect_published (ow_items ow) (ow_order ow)))"
    using assms collect_published_keys [of "ow_items ow" "ow_order ow" "ow_order ow"]
    by (simp add: owner_inv_def registry_ok_def)
  moreover have "mset (map it_Key (sn_Items (snapshotLocked ow)))
      = mset (map it_Key (collect_published (ow_items ow) (ow_order ow)))"
    by (simp add: snapshotLocked_def)
  ultimately show ?thesis by (metis mset_eq_imp_distinct_iff)
qed

lemma synced_snapshot:
  assumes "owner_inv ow"
  shows "synced ow (view_of_snapshot (snapshotLocked ow))"
proof -
  let ?is = "sn_Items (snapshotLocked ow)"
  have d: "distinct (map fst (map (\<lambda>i. (it_Key i, i)) ?is))"
    using snapshotLocked_distinct [OF assms] by (simp add: comp_def)
  have "map_of (map (\<lambda>i. (it_Key i, i)) ?is) k = published_view (ow_items ow) k" for k
  proof (cases "published_view (ow_items ow) k")
    case None
    have "k \<notin> it_Key ` set ?is"
      using None snapshotLocked_set [OF assms] by force
    with None show ?thesis by (auto simp: map_of_eq_None_iff)
  next
    case (Some i)
    then have "it_Key i = k"
      using assms unfolding owner_inv_def
      by (auto simp: published_view_def entry_ok_def dest: registry_ok_get
        split: option.splits if_splits)
    with Some snapshotLocked_set [OF assms, of i] have "(k, i) \<in> set (map (\<lambda>i. (it_Key i, i)) ?is)"
      by force
    with Some show ?thesis using map_of_is_SomeI [OF d] by auto
  qed
  then show ?thesis
    by (auto simp: synced_def view_of_snapshot_def snapshotLocked_def)
qed

section \<open>One command, one step of the replica\<close>

text \<open>
  The sink interface. The rest of the service is a state \<open>'w\<close> that satisfies \<open>good\<close>; it moves
  by itself between two commands (\<open>own\<close>: the handshake, the writer, the command reader). The
  frames sink \<open>i\<close> has taken, wherever they now are, are \<open>accepted w i\<close>; \<open>live w i\<close> says that it
  has not failed; \<open>floor i\<close> is the sequence of the snapshot it was attached with. A sink that
  takes a delta beyond its floor records its frame; its own moves lose nothing while it lives;
  and failure is for good.
\<close>

locale sink =
  fixes send :: "'w sender"
    and render :: "envelope \<Rightarrow> bytes option"
    and accepted :: "'w \<Rightarrow> nat \<Rightarrow> bytes list"
    and live :: "'w \<Rightarrow> nat \<Rightarrow> bool"
    and floor :: "nat \<Rightarrow> uint64"
    and good :: "'w \<Rightarrow> bool"
    and own :: "'w \<Rightarrow> 'w \<Rightarrow> bool"
  assumes takes: "good w \<Longrightarrow> floor i < en_Sequence e \<Longrightarrow> send i e w = (True, w') \<Longrightarrow>
      live w i \<and> (\<exists>d. render e = Some d \<and> accepted w' i = accepted w i @ [d])"
    and send_good: "good w \<Longrightarrow> floor i < en_Sequence e \<Longrightarrow> good (snd (send i e w))"
    and send_live: "good w \<Longrightarrow> live (snd (send i e w)) j \<Longrightarrow> live w j"
    and own_good: "good w \<Longrightarrow> own w w' \<Longrightarrow> good w'"
    and own_keeps: "good w \<Longrightarrow> own w w' \<Longrightarrow> live w' i \<Longrightarrow>
      live w i \<and> accepted w' i = accepted w i"
begin

lemma publish_accepted:
  assumes "ow_sink (fst s) = Some i" and "good (snd s)" and "ow_sequence (fst s) \<noteq> - 1"
    and "floor i \<le> ow_sequence (fst s)"
    and "ow_sink (fst (publish mar send kind p s)) = Some i"
  obtains b d where "mar p = Some b" and "live (snd s) i"
    and "render \<lparr>en_Kind = kind, en_RequestID = 0, en_Sequence = ow_sequence (fst s) + 1,
        en_Payload = b\<rparr> = Some d"
    and "accepted (snd (publish mar send kind p s)) i = accepted (snd s) i @ [d]"
proof -
  obtain ow w where s: "s = (ow, w)" by (cases s)
  have above: "floor i < ow_sequence ow + 1"
    using assms(3,4) s by (simp add: less_next_sequence)
  from assms(1,5) s obtain b w' where b: "mar p = Some b"
    and sent: "send i \<lparr>en_Kind = kind, en_RequestID = 0, en_Sequence = ow_sequence ow + 1,
        en_Payload = b\<rparr> w = (True, w')"
    and res: "snd (publish mar send kind p s) = w'"
    by (auto simp: publish_def Let_def split: option.splits prod.splits if_splits)
  from takes [OF _ _ sent] assms(2) above s
  obtain d where "live w i" "render \<lparr>en_Kind = kind, en_RequestID = 0,
      en_Sequence = ow_sequence ow + 1, en_Payload = b\<rparr> = Some d" "accepted w' i = accepted w i @ [d]"
    by auto
  with that [OF b] res s show ?thesis by simp
qed

text \<open>
  The state after a step that kept a live sink is the state of a replica that read its log.
\<close>

definition tracks ::
  "(bytes \<Rightarrow> envelope option) \<Rightarrow> (bytes \<Rightarrow> payload option) \<Rightarrow> nat \<Rightarrow> owner \<times> 'w \<Rightarrow>
    owner \<times> 'w \<Rightarrow> view \<Rightarrow> bool" where
  "tracks unframe decode i s t v \<longleftrightarrow> (ow_sink (fst t) = Some i \<longrightarrow> live (snd t) i \<longrightarrow>
     live (snd s) i \<and>
     (\<exists>es v'. accepted (snd t) i = accepted (snd s) i @ es \<and> replay unframe decode es v = Some v'
        \<and> synced (fst t) v'))"

lemma tracks_refl: "synced (fst s) v \<Longrightarrow> tracks unframe decode i s s v"
  by (auto simp: tracks_def intro!: exI [of _ "[]"])

lemma tracks_same:
  assumes "synced (fst s) v" and "snd t = snd s"
    and "ow_items (fst t) = ow_items (fst s)" and "ow_sequence (fst t) = ow_sequence (fst s)"
  shows "tracks unframe decode i s t v"
  using assms by (auto simp: tracks_def synced_def intro!: exI [of _ "[]"])

text \<open>A published message that the view can apply carries the replica along.\<close>

lemma tracks_publish:
  assumes dec: "codec render mar unframe decode"
    and sink: "ow_sink (fst s) = Some i" and nowrap: "ow_sequence (fst s) \<noteq> - 1"
    and good: "good (snd s)" and above: "floor i \<le> ow_sequence (fst s)"
    and seq: "vw_seq v = ow_sequence (fst s)"
    and app: "apply_payload kind p (v\<lparr>vw_seq := ow_sequence (fst s) + 1\<rparr>) = Some v'"
    and view: "gm_get (vw_items v') = published_view (ow_items (fst s))"
      "gm_get (vw_menus v') \<subseteq>\<^sub>m menu_view (ow_items (fst s))"
      "vw_seq v' = ow_sequence (fst s) + 1"
    and same: "snd s0 = snd s"
    and safe: "wire_safe p" "kind \<in> set delta_kinds"
  shows "tracks unframe decode i s0 (publish mar send kind p s) v"
  unfolding tracks_def
proof (intro impI)
  assume "ow_sink (fst (publish mar send kind p s)) = Some i"
  with sink good nowrap above obtain b d where b: "mar p = Some b" and lv: "live (snd s) i"
    and d: "render \<lparr>en_Kind = kind, en_RequestID = 0, en_Sequence = ow_sequence (fst s) + 1,
        en_Payload = b\<rparr> = Some d"
    and acc: "accepted (snd (publish mar send kind p s)) i = accepted (snd s) i @ [d]"
    by (rule publish_accepted)
  have "unframe d = Some \<lparr>en_Kind = kind, en_RequestID = 0, en_Sequence = ow_sequence (fst s) + 1,
      en_Payload = b\<rparr>" "decode b = Some p"
    using dec b d safe by (auto simp: codec_def)
  then have "replay unframe decode [d] v = Some v'"
    using app seq nowrap by (simp add: apply_envelope_def ValidateNextSequence_def)
  moreover have "synced (fst (publish mar send kind p s)) v'"
    using view by (simp add: synced_def publish_frame)
  ultimately show "live (snd s0) i \<and> (\<exists>es v'. accepted (snd (publish mar send kind p s)) i
      = accepted (snd s0) i @ es \<and> replay unframe decode es v = Some v'
      \<and> synced (fst (publish mar send kind p s)) v')"
    using same lv acc by auto
qed

lemma tracks_retire:
  assumes dec: "codec render mar unframe decode"
    and sink: "ow_sink (fst s) = Some i" and nowrap: "ow_sequence (fst s) \<noteq> - 1"
    and good: "good (snd s)" and above: "floor i \<le> ow_sequence (fst s)"
    and sync: "synced (fst s) v"
    and get: "gm_get (ow_items (fst s)) spot = Some r" and e: "entry_ok spot r"
  shows "tracks unframe decode i s (retire mar send spot r s) v"
proof -
  obtain ow w where s: "s = (ow, w)" by (cases s)
  let ?ow = "ow\<lparr>ow_items := gm_del spot (ow_items ow), ow_order := remove1 spot (ow_order ow)\<rparr>"
  from e have addr: "addr_of (rc_key r) = spot" by (simp add: entry_ok_def)
  note del = view_del [OF get addr]
  show ?thesis
  proof (cases "rc_published r")
    case True
    let ?v = "v\<lparr>vw_seq := ow_sequence ow + 1, vw_items := gm_del (rc_key r) (vw_items v),
        vw_menus := gm_del (rc_key r) (vw_menus v)\<rparr>"
    from True get addr sync s have "gm_get (vw_items v) (rc_key r) = Some (rc_item r)"
      by (simp add: synced_def published_view_def)
    then have held: "rc_key r \<in> gm_keys (vw_items v)" by (rule gm_get_in_keys)
    have safe: "wire_safe (PRemoved (rc_key r))" "KindItemRemoved \<in> set delta_kinds"
      using e True by (auto simp: entry_ok_def item_ok_def delta_kinds_def)
    have "tracks unframe decode i s (publish mar send KindItemRemoved (PRemoved (rc_key r)) (?ow, w)) v"
    proof (rule tracks_publish [where v' = ?v, OF dec])
      show "apply_payload KindItemRemoved (PRemoved (rc_key r))
          (v\<lparr>vw_seq := ow_sequence (fst (?ow, w)) + 1\<rparr>) = Some ?v"
        using held by simp
      show "gm_get (vw_items ?v) = published_view (ow_items (fst (?ow, w)))"
        using del(1) sync s by (auto simp: synced_def delete_conv' fun_eq_iff)
      show "gm_get (vw_menus ?v) \<subseteq>\<^sub>m menu_view (ow_items (fst (?ow, w)))"
        using del(2) sync s by (auto simp: synced_def delete_conv' map_le_def dom_def)
    qed (use safe sink nowrap good above sync s in \<open>simp_all add: synced_def\<close>)
    with True s show ?thesis by (simp add: retire_def Let_def)
  next
    case False
    with get addr have "published_view (ow_items ow) (rc_key r) = None" "rc_hasMenu r = False"
      using e s by (auto simp: published_view_def entry_ok_def)
    then have "published_view (gm_del spot (ow_items ow)) = published_view (ow_items ow)"
      "menu_view (gm_del spot (ow_items ow)) = menu_view (ow_items ow)"
      using del get addr s by (auto simp: fun_upd_idem_iff menu_view_def)
    with False s sync have "synced (fst (retire mar send spot r s)) v"
      "snd (retire mar send spot r s) = snd s"
      by (simp_all add: retire_def Let_def synced_def)
    then show ?thesis by (auto simp: tracks_def intro!: exI [of _ "[]"])
  qed
qed

lemma tracks_Add:
  assumes dec: "codec render mar unframe decode"
    and sink: "ow_sink (fst s) = Some i" and nowrap: "ow_sequence (fst s) \<noteq> - 1"
    and good: "good (snd s)" and above: "floor i \<le> ow_sequence (fst s)"
    and sync: "synced (fst s) v" and inv: "owner_inv (fst s)"
  shows "tracks unframe decode i s (Owner_Add mar send k s) v"
proof (cases "gm_get (ow_items (fst s)) (addr_of k)")
  case None
  note new = view_new [OF None]
  show ?thesis
  proof (cases "length (ow_items (fst s)) \<ge> MaxItems")
    case True
    with None sync show ?thesis by (simp add: Owner_Add_full tracks_refl)
  next
    case False
    with sync new show ?thesis
      unfolding Owner_Add_new [OF None False]
      by (auto simp: tracks_def synced_def intro!: exI [of _ "[]"])
  qed
next
  case (Some r)
  let ?t = "retire mar send (addr_of k) r s"
  from inv have ok: "registry_ok (ow_items (fst s)) (ow_order (fst s))"
    by (simp add: owner_inv_def)
  show ?thesis
  proof (cases "ik_Generation (rc_key r) \<ge> ik_Generation k")
    case True
    with Some sync show ?thesis by (simp add: Owner_Add_stale tracks_refl)
  next
    case False
    have "gm_get (ow_items (fst ?t)) (addr_of k) = None"
      by (simp add: retire_frame gm_get_del)
    note new = view_new [OF this]
    have "tracks unframe decode i s ?t v"
      by (rule tracks_retire [OF dec sink nowrap good above sync Some registry_ok_get [OF ok Some]])
    then show ?thesis
      unfolding Owner_Add_replace [OF Some False refl]
      by (auto simp: tracks_def synced_def new)
  qed
qed

lemma tracks_Remove:
  assumes dec: "codec render mar unframe decode"
    and sink: "ow_sink (fst s) = Some i" and nowrap: "ow_sequence (fst s) \<noteq> - 1"
    and good: "good (snd s)" and above: "floor i \<le> ow_sequence (fst s)"
    and sync: "synced (fst s) v" and inv: "owner_inv (fst s)"
  shows "tracks unframe decode i s (Owner_Remove mar send k s) v"
proof (cases "current (fst s) k")
  case None
  with sync show ?thesis
    by (cases s) (simp add: Owner_Remove_def tracks_refl)
next
  case (Some r)
  then have get: "gm_get (ow_items (fst s)) (addr_of k) = Some r"
    by (simp add: current_Some)
  with inv have "entry_ok (addr_of k) r"
    by (auto simp: owner_inv_def dest: registry_ok_get)
  from tracks_retire [where mar = mar, OF dec sink nowrap good above sync get this] Some
  show ?thesis by (cases s) (simp add: Owner_Remove_def)
qed

lemma tracks_Update:
  assumes dec: "codec render mar unframe decode"
    and sink: "ow_sink (fst s) = Some i" and nowrap: "ow_sequence (fst s) \<noteq> - 1"
    and good: "good (snd s)" and above: "floor i \<le> ow_sequence (fst s)"
    and sync: "synced (fst s) v" and inv: "owner_inv (fst s)" and full: "no_empty_slices it"
  shows "tracks unframe decode i s (Owner_Update mar send k it s) v"
proof -
  obtain ow w where s: "s = (ow, w)" by (cases s)
  let ?it = "it\<lparr>it_Key := k\<rparr>"
  show ?thesis
  proof (cases "current ow k")
    case None
    with sync s show ?thesis by (simp add: Owner_Update_def tracks_refl)
  next
    case (Some r)
    then have get: "gm_get (ow_items ow) (addr_of k) = Some r" and key: "rc_key r = k"
      by (simp_all add: current_Some)
    with inv s have e: "entry_ok (addr_of k) r"
      by (auto simp: owner_inv_def dest: registry_ok_get)
    let ?v = "v\<lparr>vw_seq := ow_sequence ow + 1, vw_items := gm_set k ?it (vw_items v)\<rparr>"
    have put: "tracks unframe decode i s (publish mar send kind (PItem ?it)
          (ow\<lparr>ow_items := gm_set (addr_of k) r' (ow_items ow)\<rparr>, w)) v"
      if ok: "Item_Validate ?it = None" "kind \<in> set delta_kinds"
        and app: "apply_payload kind (PItem ?it) (v\<lparr>vw_seq := ow_sequence ow + 1\<rparr>) = Some ?v"
        and r': "rc_key r' = k" "rc_published r'" "rc_item r' = ?it"
          "rc_hasMenu r' = rc_hasMenu r" "rc_menu r' = rc_menu r" for kind r'
    proof (rule tracks_publish [where v' = ?v, OF dec])
      note put = view_put [OF get key r'(1) refl]
      show "gm_get (vw_items ?v) = published_view (ow_items
          (fst (ow\<lparr>ow_items := gm_set (addr_of k) r' (ow_items ow)\<rparr>, w)))"
        using put(1) r' sync s by (auto simp: synced_def gm_get_set fun_eq_iff)
      have "menu_view (gm_set (addr_of k) r' (ow_items ow)) = menu_view (ow_items ow)"
        using put(2) r' get key by (auto simp: menu_view_def fun_eq_iff)
      then show "gm_get (vw_menus ?v) \<subseteq>\<^sub>m menu_view (ow_items
          (fst (ow\<lparr>ow_items := gm_set (addr_of k) r' (ow_items ow)\<rparr>, w)))"
        using sync s by (simp add: synced_def)
    qed (use app ok full sink nowrap good above sync s in
        \<open>simp_all add: synced_def Item_Validate_None no_empty_slices_def\<close>)
    have changed: "apply_payload KindItemChanged (PItem ?it) (v\<lparr>vw_seq := ow_sequence ow + 1\<rparr>)
        = Some ?v" if "rc_published r"
    proof -
      from that get key sync s have "gm_get (vw_items v) k = Some (rc_item r)"
        by (simp add: synced_def published_view_def)
      then have "k \<in> gm_keys (vw_items v)" by (rule gm_get_in_keys)
      then show ?thesis by (simp add: KindItemAdded_def KindItemChanged_def)
    qed
    have added: "apply_payload KindItemAdded (PItem ?it) (v\<lparr>vw_seq := ow_sequence ow + 1\<rparr>)
        = Some ?v" if "\<not> rc_published r"
    proof -
      have "addr_of k \<notin> addr_of ` gm_keys (vw_items v)"
      proof
        assume "addr_of k \<in> addr_of ` gm_keys (vw_items v)"
        then obtain k' where k': "addr_of k = addr_of k'" "k' \<in> gm_keys (vw_items v)"
          by (rule imageE)
        then obtain j where "gm_get (vw_items v) k' = Some j"
          by (metis gm_get_keys not_None_eq)
        with sync s k' get that show False
          by (auto simp: synced_def published_view_def split: if_splits)
      qed
      then show ?thesis by simp
    qed
    from s have fsts: "fst s = ow" "snd s = w" by simp_all
    consider "Owner_Update mar send k it s = s"
      | "Item_Validate ?it = None" "rc_published r" "\<not> (rc_hasItem r \<and> rc_item r = ?it)"
      | "Item_Validate ?it = None" "\<not> rc_published r"
      using Owner_Update_cases [of mar send k it s] Some fsts by (metis option.inject)
    then show ?thesis
    proof cases
      case 1
      with sync show ?thesis by (simp add: tracks_refl)
    next
      case 2
      then have "Owner_Update mar send k it s = publish mar send KindItemChanged (PItem ?it)
          (ow\<lparr>ow_items := gm_set (addr_of k) (r\<lparr>rc_item := ?it, rc_hasItem := True\<rparr>) (ow_items ow)\<rparr>, w)"
        using Owner_Update_changed [of s k r it mar send] Some fsts by simp
      with put [OF 2(1) _ changed [OF 2(2)]] 2 key show ?thesis by (simp add: delta_kinds_def)
    next
      case 3
      then have "Owner_Update mar send k it s = publish mar send KindItemAdded (PItem ?it)
          (ow\<lparr>ow_items := gm_set (addr_of k)
             (r\<lparr>rc_item := ?it, rc_hasItem := True, rc_published := True\<rparr>) (ow_items ow)\<rparr>, w)"
        using Owner_Update_added [of s k r it mar send] Some fsts by simp
      with put [OF 3(1) _ added [OF 3(2)]] key show ?thesis by (simp add: delta_kinds_def)
    qed
  qed
qed

lemma tracks_UpdateMenu:
  assumes dec: "codec render mar unframe decode"
    and sink: "ow_sink (fst s) = Some i" and nowrap: "ow_sequence (fst s) \<noteq> - 1"
    and good: "good (snd s)" and above: "floor i \<le> ow_sequence (fst s)"
    and sync: "synced (fst s) v" and inv: "owner_inv (fst s)"
  shows "tracks unframe decode i s (Owner_UpdateMenu mar send k m s) v"
proof -
  obtain ow w where s: "s = (ow, w)" by (cases s)
  show ?thesis
  proof (cases "current ow k")
    case None
    with sync s show ?thesis by (simp add: Owner_UpdateMenu_def tracks_refl)
  next
    case (Some r)
    then have get: "gm_get (ow_items ow) (addr_of k) = Some r" and key: "rc_key r = k"
      by (simp_all add: current_Some)
    show ?thesis
    proof (cases "rc_published r \<and> Menu_Validate m = None")
      case False
      with Some s sync show ?thesis by (auto simp: Owner_UpdateMenu_def tracks_refl)
    next
      case True
      let ?r = "r\<lparr>rc_menu := m, rc_hasMenu := True\<rparr>"
      let ?ow = "ow\<lparr>ow_items := gm_set (addr_of k) ?r (ow_items ow)\<rparr>"
      let ?v = "v\<lparr>vw_seq := ow_sequence ow + 1, vw_menus := gm_set k m (vw_menus v)\<rparr>"
      from key have key': "rc_key ?r = k" by simp
      note put = view_put [OF get key key' refl]
      from inv s get have "entry_ok (addr_of k) r"
        by (auto simp: owner_inv_def dest: registry_ok_get)
      with True key have safe: "wire_safe (PMenu k m)" "KindMenuUpdated \<in> set delta_kinds"
        by (auto simp: entry_ok_def item_ok_def delta_kinds_def)
      from True get key sync s have held: "gm_get (vw_items v) k = Some (rc_item r)"
        by (simp add: synced_def published_view_def)
      then have "k \<in> gm_keys (vw_items v)" by (rule gm_get_in_keys)
      then have app: "apply_payload KindMenuUpdated (PMenu k m) (v\<lparr>vw_seq := ow_sequence ow + 1\<rparr>)
          = Some ?v" by simp
      have "tracks unframe decode i s (publish mar send KindMenuUpdated (PMenu k m) (?ow, w)) v"
      proof (rule tracks_publish [where v' = ?v, OF dec])
        show "gm_get (vw_items ?v) = published_view (ow_items (fst (?ow, w)))"
          using put(1) True held sync s by (auto simp: synced_def fun_eq_iff)
        show "gm_get (vw_menus ?v) \<subseteq>\<^sub>m menu_view (ow_items (fst (?ow, w)))"
          using put(2) sync s by (auto simp: synced_def map_le_def gm_get_set dom_def)
      qed (use app safe sink nowrap good above sync s in \<open>simp_all add: synced_def\<close>)
      with True Some s show ?thesis by (simp add: Owner_UpdateMenu_def Let_def)
    qed
  qed
qed

lemma tracks_step:
  assumes dec: "codec render mar unframe decode"
    and sink: "ow_sink (fst s) = Some i" and nowrap: "ow_sequence (fst s) \<noteq> - 1"
    and good: "good (snd s)" and above: "floor i \<le> ow_sequence (fst s)"
    and sync: "synced (fst s) v" and inv: "owner_inv (fst s)"
    and c: "session_cmd c"
  shows "tracks unframe decode i s (owner_step mar send c s) v"
proof (cases "ow_stopped (fst s)")
  case True
  with sync show ?thesis by (simp add: owner_step_def submit_def tracks_refl)
next
  case False
  with c sync show ?thesis
    by (cases c)
      (simp_all add: owner_step_def submit_def Detach_frame Close_frame
        tracks_Add [OF dec sink nowrap good above sync inv] tracks_Update [OF dec sink nowrap good above sync inv]
        tracks_UpdateMenu [OF dec sink nowrap good above sync inv] tracks_Remove [OF dec sink nowrap good above sync inv]
        tracks_same)
qed

end

section \<open>A command moves the sequence by at most one and never regains a lost sink\<close>

definition moves :: "owner \<times> 'w \<Rightarrow> owner \<times> 'w \<Rightarrow> bool" where
  "moves s t \<longleftrightarrow>
    (ow_sequence (fst t) = ow_sequence (fst s) \<or> ow_sequence (fst t) = ow_sequence (fst s) + 1)
    \<and> (ow_sink (fst t) = ow_sink (fst s) \<or> ow_sink (fst t) = None)"

lemma moves_refl: "moves s s"
  by (simp add: moves_def)

lemma moves_publish:
  "ow_sequence (fst s') = ow_sequence (fst s) \<Longrightarrow> ow_sink (fst s') = ow_sink (fst s) \<Longrightarrow>
    moves s (publish mar send kind p s')"
  using publish_sink [of mar send kind p s'] by (simp add: moves_def publish_frame)

lemma moves_retire: "moves s (retire mar send spot r s)"
proof -
  obtain ow w where s: "s = (ow, w)" by (cases s)
  let ?s = "(ow\<lparr>ow_items := gm_del spot (ow_items ow), ow_order := remove1 spot (ow_order ow)\<rparr>, w)"
  have "retire mar send spot r s
      = (if rc_published r then publish mar send KindItemRemoved (PRemoved (rc_key r)) ?s else ?s)"
    by (simp add: s retire_def Let_def)
  moreover have "moves s ?s" by (simp add: moves_def s)
  moreover have "moves s (publish mar send KindItemRemoved (PRemoved (rc_key r)) ?s)"
    by (rule moves_publish) (simp_all add: s)
  ultimately show ?thesis by simp
qed

lemma moves_Add: "moves s (Owner_Add mar send k s)"
proof (cases "gm_get (ow_items (fst s)) (addr_of k)")
  case None
  then show ?thesis
    by (cases "length (ow_items (fst s)) \<ge> MaxItems") (simp_all add: Owner_Add_outcomes moves_def)
next
  case (Some r)
  show ?thesis
  proof (cases "ik_Generation (rc_key r) \<ge> ik_Generation k")
    case True
    with Some show ?thesis by (simp add: Owner_Add_stale moves_refl)
  next
    case False
    show ?thesis
      using moves_retire [of s mar send "addr_of k" r]
      by (simp add: Owner_Add_replace [OF Some False refl] moves_def)
  qed
qed

lemma moves_Update: "moves s (Owner_Update mar send k i s)"
  by (cases rule: Owner_Update_cases [of mar send k i s])
    (simp_all add: moves_refl moves_publish Owner_Update_changed Owner_Update_added)

lemma moves_UpdateMenu: "moves s (Owner_UpdateMenu mar send k m s)"
  by (cases rule: Owner_UpdateMenu_cases [of mar send k m s])
    (simp_all add: moves_refl moves_publish Owner_UpdateMenu_set)

lemma moves_Remove: "moves s (Owner_Remove mar send k s)"
  by (cases s; cases "current (fst s) k") (simp_all add: Owner_Remove_def moves_refl moves_retire)

lemma moves_step:
  assumes "\<forall>n. c \<noteq> CAttach n"
  shows "moves s (owner_step mar send c s)"
proof (cases "ow_stopped (fst s)")
  case True
  then show ?thesis by (simp add: owner_step_def submit_def moves_refl)
next
  case False
  with assms show ?thesis
    by (cases c)
      (simp_all add: owner_step_def submit_def moves_Add moves_Update moves_UpdateMenu moves_Remove,
        simp_all add: moves_def Owner_Detach_def Owner_Close_def)
qed

text \<open>The only way a command reaches the sink's side is one \<open>Send\<close>.\<close>

definition world_moves :: "'w sender \<Rightarrow> owner \<times> 'w \<Rightarrow> owner \<times> 'w \<Rightarrow> bool" where
  "world_moves send s t \<longleftrightarrow> snd t = snd s \<or>
    (\<exists>j e. ow_sink (fst s) = Some j \<and> en_Sequence e = ow_sequence (fst s) + 1
       \<and> snd t = snd (send j e (snd s)))"

lemma world_publish:
  "snd s' = snd s \<Longrightarrow> ow_sink (fst s') = ow_sink (fst s) \<Longrightarrow>
    ow_sequence (fst s') = ow_sequence (fst s) \<Longrightarrow> world_moves send s (publish mar send kind p s')"
proof -
  assume w: "snd s' = snd s" "ow_sink (fst s') = ow_sink (fst s)"
    "ow_sequence (fst s') = ow_sequence (fst s)"
  obtain ow where s': "s' = (ow, snd s)" using w by (cases s') auto
  show ?thesis
  proof (cases "ow_sink ow")
    case None
    then show ?thesis by (simp add: s' publish_def world_moves_def)
  next
    case (Some j)
    show ?thesis
    proof (cases "mar p")
      case None
      with Some show ?thesis by (simp add: s' publish_def world_moves_def)
    next
      case (Some b)
      with \<open>ow_sink ow = Some j\<close>
      have "snd (publish mar send kind p s') = snd (send j \<lparr>en_Kind = kind, en_RequestID = 0,
          en_Sequence = ow_sequence ow + 1, en_Payload = b\<rparr> (snd s))"
        by (simp add: s' publish_def Let_def split: prod.splits)
      with \<open>ow_sink ow = Some j\<close> w s' show ?thesis
        by (auto simp: world_moves_def intro!: exI)
    qed
  qed
qed

lemma world_retire: "world_moves send s (retire mar send spot r s)"
  by (cases s) (auto simp: retire_def Let_def intro!: world_publish, simp add: world_moves_def)

lemma world_Add: "world_moves send s (Owner_Add mar send k s)"
proof (cases "gm_get (ow_items (fst s)) (addr_of k)")
  case None
  then show ?thesis
    by (cases "length (ow_items (fst s)) \<ge> MaxItems")
      (simp_all add: Owner_Add_outcomes world_moves_def)
next
  case (Some r)
  then show ?thesis
    using world_retire [of send s mar "addr_of k" r] Owner_Add_replace [OF Some _ refl, of mar send]
    by (cases "ik_Generation (rc_key r) \<ge> ik_Generation k")
      (simp_all add: Owner_Add_stale world_moves_def)
qed

lemma world_step: "world_moves send s (owner_step mar send c s)"
proof (cases "ow_stopped (fst s)")
  case True
  then show ?thesis by (simp add: owner_step_def submit_def world_moves_def)
next
  case False
  have refl: "world_moves send t t" for t by (simp add: world_moves_def)
  have "world_moves send s (Owner_Update mar send k i s)" for k i
    by (cases rule: Owner_Update_cases [of mar send k i s])
      (simp_all add: refl world_publish Owner_Update_changed Owner_Update_added)
  moreover have "world_moves send s (Owner_UpdateMenu mar send k m s)" for k m
    by (cases rule: Owner_UpdateMenu_cases [of mar send k m s])
      (simp_all add: refl world_publish Owner_UpdateMenu_set)
  moreover have "world_moves send s (Owner_Remove mar send k s)" for k
    by (cases s; cases "current (fst s) k") (simp_all add: Owner_Remove_def refl world_retire)
  ultimately show ?thesis
    using False world_Add
    by (cases c) (simp_all add: owner_step_def submit_def, simp_all add: world_moves_def)
qed

section \<open>The whole service\<close>

text \<open>
  A run of the service from \<open>s0\<close>: commands of the owner interleaved in any order with the moves
  of the sink's side. The number counts the commands; \<open>Attach\<close> happens before \<open>s0\<close>.
\<close>

inductive service_run ::
  "('w \<Rightarrow> 'w \<Rightarrow> bool) \<Rightarrow> marshaller \<Rightarrow> 'w sender \<Rightarrow> owner \<times> 'w \<Rightarrow> nat \<Rightarrow> owner \<times> 'w \<Rightarrow> bool"
  for own mar send s0 where
  begins: "service_run own mar send s0 0 s0"
| commands: "service_run own mar send s0 n s \<Longrightarrow> session_cmd c \<Longrightarrow>
    service_run own mar send s0 (Suc n) (owner_step mar send c s)"
| moves_own: "service_run own mar send s0 n (ow, w) \<Longrightarrow> own w w' \<Longrightarrow>
    service_run own mar send s0 n (ow, w')"

lemma service_run_sequence:
  "service_run own mar send s0 n s \<Longrightarrow>
    unat (ow_sequence (fst s)) \<le> unat (ow_sequence (fst s0)) + n"
proof (induction rule: service_run.induct)
  case begins
  then show ?case by simp
next
  case (commands n s c)
  from moves_step [OF session_cmd_not_attach [OF commands(2)], of s mar send]
  have "unat (ow_sequence (fst (owner_step mar send c s))) \<le> Suc (unat (ow_sequence (fst s)))"
    by (auto simp: moves_def unat_word_ariths)
  with commands(3) show ?case by simp
next
  case (moves_own n ow w w')
  then show ?case by simp
qed

lemma service_run_inv:
  "service_run own mar send s0 n s \<Longrightarrow> owner_inv (fst s0) \<Longrightarrow> owner_inv (fst s)"
  by (induction rule: service_run.induct) (simp_all add: owner_inv_step)

context sink
begin

lemma step_good:
  assumes "good (snd s)" and "ow_sequence (fst s) \<noteq> - 1"
    and "\<And>j. ow_sink (fst s) = Some j \<Longrightarrow> floor j \<le> ow_sequence (fst s)"
  shows "good (snd (owner_step mar send c s))"
  using world_step [of send s mar c] assms send_good [OF assms(1)] less_next_sequence
  by (auto simp: world_moves_def)

lemma step_live: "good (snd s) \<Longrightarrow> live (snd (owner_step mar send c s)) j \<Longrightarrow> live (snd s) j"
  using world_step [of send s mar c] send_live by (auto simp: world_moves_def)

lemma service_run_good:
  assumes "service_run own mar send s0 n s" and "good (snd s0)"
    and "unat (ow_sequence (fst s0)) + n < 2 ^ 64"
    and "ow_sink (fst s0) = Some i" and "floor i \<le> ow_sequence (fst s0)"
  shows "good (snd s) \<and> (ow_sink (fst s) = Some i \<or> ow_sink (fst s) = None)
    \<and> floor i \<le> ow_sequence (fst s)"
  using assms
proof (induction rule: service_run.induct)
  case begins
  then show ?case by simp
next
  case (commands n s c)
  from commands.IH commands.prems have ih: "good (snd s)"
    "ow_sink (fst s) = Some i \<or> ow_sink (fst s) = None" "floor i \<le> ow_sequence (fst s)" by auto
  from service_run_sequence [OF commands.hyps(1)] commands.prems(2)
  have nw: "ow_sequence (fst s) \<noteq> - 1" using unat64_max by auto
  have mv: "moves s (owner_step mar send c s)" using moves_step [OF session_cmd_not_attach [OF commands.hyps(2)]] .
  have "floor i \<le> ow_sequence (fst s) + 1"
    using less_next_sequence [OF ih(3) nw] by simp
  with mv ih step_good [OF ih(1) nw, of mar c] show ?case by (auto simp: moves_def)
next
  case (moves_own n ow w w')
  then show ?case by (auto intro: own_good)
qed

text \<open>
  The refinement: wherever the interleaving stands, a live attached sink has taken exactly the
  deltas that turn the snapshot of the attachment into the published state.
\<close>

theorem refinement:
  assumes dec: "codec render mar unframe decode"
    and run: "service_run own mar send s0 n s"
    and nowrap: "unat (ow_sequence (fst s0)) + n < 2 ^ 64"
    and inv: "owner_inv (fst s0)" and good: "good (snd s0)" and sync: "synced (fst s0) v0"
    and attached: "ow_sink (fst s) = Some i" "live (snd s) i"
    and before: "ow_sink (fst s0) = Some i" and above: "floor i \<le> ow_sequence (fst s0)"
  shows "\<exists>es v. accepted (snd s) i = accepted (snd s0) i @ es \<and> replay unframe decode es v0 = Some v
    \<and> synced (fst s) v"
  using run nowrap attached
proof (induction rule: service_run.induct)
  case begins
  then show ?case using sync by (auto intro!: exI [of _ "[]"])
next
  case (commands n s c)
  let ?t = "owner_step mar send c s"
  have sink: "ow_sink (fst s) = Some i"
    using moves_step [OF session_cmd_not_attach [OF commands.hyps(2)], of s mar send] commands.prems(2)
    by (auto simp: moves_def)
  have "unat (ow_sequence (fst s)) < 2 ^ 64 - 1"
    using service_run_sequence [OF commands.hyps(1)] commands.prems(1) by simp
  then have nw: "ow_sequence (fst s) \<noteq> - 1" using unat64_max by auto
  from service_run_good [OF commands.hyps(1) good _ before above] commands.prems(1)
  have g: "good (snd s)" and ab: "floor i \<le> ow_sequence (fst s)" by auto
  have oi: "owner_inv (fst s)" by (rule service_run_inv [OF commands.hyps(1) inv])
  have tracks: "tracks unframe decode i s ?t v" if "synced (fst s) v" for v
    by (rule tracks_step [OF dec sink nw g ab that oi commands.hyps(2)])
  have lv: "live (snd s) i"
    using g commands.prems(3) by (rule step_live)
  from commands.IH [OF _ sink lv] commands.prems(1)
  obtain es v where es: "accepted (snd s) i = accepted (snd s0) i @ es"
    "replay unframe decode es v0 = Some v" "synced (fst s) v" by auto
  with tracks [OF es(3)] commands.prems(2,3) show ?case
    by (auto simp: tracks_def replay_append)
next
  case (moves_own n ow w w')
  have "good w"
    using service_run_good [OF moves_own.hyps(1) good _ before above] moves_own.prems(1) by simp
  from own_keeps [OF this moves_own.hyps(2)] moves_own.prems(3)
  have "live w i" "accepted w' i = accepted w i" by auto
  with moves_own.IH moves_own.prems show ?case by simp
qed

end

end
