(* ===== verification/Connection.thy ===== *)
theory Connection
  imports Validation
begin

text \<open>
  One presenter connection, \<open>internal/presenter/connection.go\<close>: the bounded outbound queue,
  the messages held back until the handshake, the writer and the command reader. Every operation
  that holds \<open>c.mu\<close> is one atomic step. \<open>queue\<close> is the buffered channel; \<open>inflight\<close> is the
  frame the writer goroutine has taken and not yet released; \<open>written\<close> is what has reached the
  socket, in order. \<open>json.Marshal\<close> of an envelope is the parameter \<open>frame\<close>, strict decoding
  (\<open>protocol.DecodeStrict\<close>) the parameters \<open>decode_envelope\<close> and \<open>decode_command\<close>.
\<close>

section \<open>State\<close>

record outbound =
  ob_data :: bytes
  ob_sequence :: uint64

record connection =
  cn_queue :: "outbound list"
  cn_pending :: "outbound list"
  cn_queuedMessages :: int
  cn_queuedBytes :: int
  cn_lastSequence :: uint64
  cn_lastRequestID :: uint64
  cn_started :: bool
  cn_failed :: bool
  cn_inflight :: "outbound option"
  cn_written :: "outbound list"

type_synonym framer = "envelope \<Rightarrow> bytes option"

definition newConnection :: connection where
  "newConnection = \<lparr>cn_queue = [], cn_pending = [], cn_queuedMessages = 0, cn_queuedBytes = 0,
     cn_lastSequence = 0, cn_lastRequestID = 0, cn_started = False, cn_failed = False,
     cn_inflight = None, cn_written = []\<rparr>"

datatype conn_error = ConnFailed | QueueOverflow | SequenceGap fault | MarshalFailed | CannotQueueReply

section \<open>Bounds\<close>

definition reserve :: "outbound \<Rightarrow> connection \<Rightarrow> connection option" where
  "reserve m c =
    (if cn_queuedMessages c + 1 > int MaxPresenterQueueMessages then None
     else if cn_queuedBytes c + int (length (ob_data m)) > int MaxPresenterDecodedBytes then None
     else Some (c\<lparr>cn_queuedMessages := cn_queuedMessages c + 1,
                  cn_queuedBytes := cn_queuedBytes c + int (length (ob_data m))\<rparr>))"

definition release :: "outbound \<Rightarrow> connection \<Rightarrow> connection" where
  "release m c = c\<lparr>cn_queuedMessages := cn_queuedMessages c - 1,
     cn_queuedBytes := cn_queuedBytes c - int (length (ob_data m))\<rparr>"

definition fail :: "connection \<Rightarrow> connection" where
  "fail c = c\<lparr>cn_failed := True\<rparr>"

definition followsLocked :: "connection \<Rightarrow> uint64 \<Rightarrow> fault goerror" where
  "followsLocked c sequence =
    (if sequence = 0 then None else ValidateNextSequence (cn_lastSequence c) sequence)"

text \<open>A send on the buffered channel: \<open>None\<close> where it would block.\<close>

definition channel_send :: "outbound \<Rightarrow> connection \<Rightarrow> connection option" where
  "channel_send m c =
    (if length (cn_queue c) < MaxPresenterQueueMessages
     then Some (c\<lparr>cn_queue := cn_queue c @ [m]\<rparr>) else None)"

section \<open>Send\<close>

definition Send :: "framer \<Rightarrow> envelope \<Rightarrow> connection \<Rightarrow> conn_error goerror \<times> connection" where
  "Send frame e c =
    (case frame e of
      None \<Rightarrow> (Some MarshalFailed, fail c)
    | Some data \<Rightarrow>
        let m = \<lparr>ob_data = data, ob_sequence = en_Sequence e\<rparr> in
        if cn_failed c then (Some ConnFailed, c)
        else case reserve m c of
          None \<Rightarrow> (Some QueueOverflow, fail c)
        | Some c1 \<Rightarrow>
            if \<not> cn_started c1 then (None, c1\<lparr>cn_pending := cn_pending c1 @ [m]\<rparr>)
            else case followsLocked c1 (ob_sequence m) of
              Some e \<Rightarrow> (Some (SequenceGap e), fail (release m c1))
            | None \<Rightarrow>
                (case channel_send m c1 of
                  Some c2 \<Rightarrow> (None, c2\<lparr>cn_lastSequence := ob_sequence m\<rparr>)
                | None \<Rightarrow> (Some QueueOverflow, fail (release m c1))))"

text \<open>
  \<open>Send\<close> is two sections: one under the lock, and after a refusal \<open>fail\<close>, which takes the lock again.
  The refusing section leaves the connection as it was. What another goroutine does between the two
  it could as well have done before, so that \<open>Send\<close> may be one step.
\<close>

definition Send_locked :: "outbound \<Rightarrow> connection \<Rightarrow> conn_error goerror \<times> connection" where
  "Send_locked m c =
    (if cn_failed c then (Some ConnFailed, c)
     else case reserve m c of
       None \<Rightarrow> (Some QueueOverflow, c)
     | Some c1 \<Rightarrow>
         if \<not> cn_started c1 then (None, c1\<lparr>cn_pending := cn_pending c1 @ [m]\<rparr>)
         else case followsLocked c1 (ob_sequence m) of
           Some e \<Rightarrow> (Some (SequenceGap e), release m c1)
         | None \<Rightarrow>
             (case channel_send m c1 of
               Some c2 \<Rightarrow> (None, c2\<lparr>cn_lastSequence := ob_sequence m\<rparr>)
             | None \<Rightarrow> (Some QueueOverflow, release m c1)))"

lemma release_reserve: "reserve m c = Some c1 \<Longrightarrow> release m c1 = c"
  by (auto simp: reserve_def release_def split: if_splits)

lemma Send_locked_refused: "Send_locked m c = (Some e, c') \<Longrightarrow> c' = c"
  by (auto simp: Send_locked_def release_reserve split: if_splits option.splits)

lemma Send_sections:
  "Send frame e c =
    (case frame e of
      None \<Rightarrow> (Some MarshalFailed, fail c)
    | Some data \<Rightarrow>
        (case Send_locked \<lparr>ob_data = data, ob_sequence = en_Sequence e\<rparr> c of
          (None, c') \<Rightarrow> (None, c')
        | (Some ConnFailed, c') \<Rightarrow> (Some ConnFailed, c')
        | (Some err, c') \<Rightarrow> (Some err, fail c')))"
  by (auto simp: Send_def Send_locked_def Let_def split: option.split)

section \<open>start\<close>

text \<open>
  The outcome of \<open>start\<close>. The prologue is sent with a blocking channel send while the lock is
  held and no writer runs, so a full queue would deadlock: that outcome is \<open>Blocked\<close>.
\<close>

datatype start_result = Started | StartError conn_error | Blocked

fun start_prologue :: "bytes list \<Rightarrow> connection \<Rightarrow> start_result \<times> connection" where
  "start_prologue [] c = (Started, c)"
| "start_prologue (f # fs) c =
    (let m = \<lparr>ob_data = f, ob_sequence = 0\<rparr> in
     case reserve m c of
       None \<Rightarrow> (StartError QueueOverflow, c)
     | Some c1 \<Rightarrow>
         (case channel_send m c1 of
           None \<Rightarrow> (Blocked, c1)
         | Some c2 \<Rightarrow> start_prologue fs c2))"

fun start_pending :: "uint64 \<Rightarrow> outbound list \<Rightarrow> connection \<Rightarrow> start_result \<times> connection" where
  "start_pending baseline [] c = (Started, c)"
| "start_pending baseline (m # ms) c =
    (if ob_sequence m \<le> baseline then start_pending baseline ms (release m c)
     else case followsLocked c (ob_sequence m) of
       Some e \<Rightarrow> (StartError (SequenceGap e), c)
     | None \<Rightarrow>
         let c1 = c\<lparr>cn_lastSequence := ob_sequence m\<rparr> in
         (case channel_send m c1 of
           None \<Rightarrow> (StartError QueueOverflow, c1)
         | Some c2 \<Rightarrow> start_pending baseline ms c2))"

definition start :: "uint64 \<Rightarrow> bytes list \<Rightarrow> connection \<Rightarrow> start_result \<times> connection" where
  "start baseline prologue c =
    (if cn_failed c then (StartError ConnFailed, c)
     else let c = c\<lparr>cn_lastSequence := baseline\<rparr> in
     case start_prologue prologue c of
       (Started, c1) \<Rightarrow>
         (case start_pending baseline (cn_pending c1) c1 of
           (Started, c2) \<Rightarrow> (Started, c2\<lparr>cn_pending := [], cn_started := True\<rparr>)
         | other \<Rightarrow> other)
     | other \<Rightarrow> other)"

text \<open>In \<open>handle\<close> every way out but success ends in the deferred \<open>c.fail()\<close>.\<close>

definition start_or_fail :: "uint64 \<Rightarrow> bytes list \<Rightarrow> connection \<Rightarrow> connection" where
  "start_or_fail baseline prologue c =
    (case start baseline prologue c of
      (Started, c1) \<Rightarrow> c1
    | (_, c1) \<Rightarrow> fail c1)"

section \<open>The writer\<close>

text \<open>\<open>writeLoop\<close>: take a frame, write it, release it. A write error fails the connection.\<close>

definition writer_take :: "connection \<Rightarrow> connection option" where
  "writer_take c =
    (if cn_inflight c \<noteq> None then None
     else case cn_queue c of
       [] \<Rightarrow> None
     | m # ms \<Rightarrow> Some (c\<lparr>cn_queue := ms, cn_inflight := Some m\<rparr>))"

definition writer_done :: "bool \<Rightarrow> connection \<Rightarrow> connection option" where
  "writer_done write_ok c =
    (case cn_inflight c of
      None \<Rightarrow> None
    | Some m \<Rightarrow>
        if \<not> write_ok then Some (fail c)
        else Some (release m (c\<lparr>cn_inflight := None, cn_written := cn_written c @ [m]\<rparr>)))"

section \<open>Replies\<close>

definition reply_envelope :: "uint64 \<Rightarrow> bytes \<Rightarrow> envelope" where
  "reply_envelope rid payload =
    \<lparr>en_Kind = KindReply, en_RequestID = rid, en_Sequence = 0, en_Payload = payload\<rparr>"

definition send_reply ::
  "marshaller \<Rightarrow> framer \<Rightarrow> uint64 \<Rightarrow> reply \<Rightarrow> connection \<Rightarrow> conn_error goerror \<times> connection" where
  "send_reply mar frame rid r c =
    (case mar (PReply r) of
      None \<Rightarrow> (Some MarshalFailed, c)
    | Some payload \<Rightarrow>
        (case frame (reply_envelope rid payload) of
          None \<Rightarrow> (Some MarshalFailed, c)
        | Some data \<Rightarrow>
            let m = \<lparr>ob_data = data, ob_sequence = 0\<rparr> in
            if cn_failed c then (Some CannotQueueReply, c)
            else case reserve m c of
              None \<Rightarrow> (Some CannotQueueReply, c)
            | Some c1 \<Rightarrow>
                (case channel_send m c1 of
                  Some c2 \<Rightarrow> (None, c2)
                | None \<Rightarrow> (Some QueueOverflow, release m c1))))"

section \<open>Steps of one connection\<close>

text \<open>
  The moves of a connection's own goroutines, between which the owner may call \<open>Send\<close>: the
  handler starts it with the frames \<open>pro\<close> (hello and snapshot) on the baseline \<open>base\<close>, the writer
  takes and releases frames, the reader queues replies, and anything may fail it.
\<close>

inductive conn_step ::
  "marshaller \<Rightarrow> framer \<Rightarrow> uint64 \<Rightarrow> bytes list \<Rightarrow> connection \<Rightarrow> connection \<Rightarrow> bool"
  for mar frame base pro where
  starts: "\<not> cn_started c \<Longrightarrow> conn_step mar frame base pro c (start_or_fail base pro c)"
| takes: "writer_take c = Some c' \<Longrightarrow> conn_step mar frame base pro c c'"
| writes: "writer_done ok c = Some c' \<Longrightarrow> conn_step mar frame base pro c c'"
| replies: "cn_started c \<Longrightarrow> conn_step mar frame base pro c (snd (send_reply mar frame rid r c))"
| fails: "conn_step mar frame base pro c (fail c)"

inductive_cases conn_stepE: "conn_step mar frame base pro c c'"

text \<open>Every state a connection reaches, the owner's deltas included.\<close>

inductive conn_reach ::
  "marshaller \<Rightarrow> framer \<Rightarrow> uint64 \<Rightarrow> bytes list \<Rightarrow> connection \<Rightarrow> bool"
  for mar frame base pro where
  opened: "conn_reach mar frame base pro newConnection"
| sends: "conn_reach mar frame base pro c \<Longrightarrow> en_Sequence e \<noteq> 0 \<Longrightarrow>
    conn_reach mar frame base pro (snd (Send frame e c))"
| steps: "conn_reach mar frame base pro c \<Longrightarrow> conn_step mar frame base pro c c' \<Longrightarrow>
    conn_reach mar frame base pro c'"

text \<open>The frames a connection holds, oldest first, and their deltas.\<close>

definition stream :: "connection \<Rightarrow> outbound list" where
  "stream c = cn_written c @ (case cn_inflight c of None \<Rightarrow> [] | Some m \<Rightarrow> [m]) @ cn_queue c"

definition waiting :: "connection \<Rightarrow> outbound list" where
  "waiting c = (case cn_inflight c of None \<Rightarrow> [] | Some m \<Rightarrow> [m]) @ cn_queue c @ cn_pending c"

definition is_delta :: "outbound \<Rightarrow> bool" where
  "is_delta m \<longleftrightarrow> ob_sequence m \<noteq> 0"

definition delta_log :: "connection \<Rightarrow> bytes list" where
  "delta_log c = map ob_data (filter is_delta (stream c @ cn_pending c))"

section \<open>Bounds\<close>

definition counts :: "connection \<Rightarrow> bool" where
  "counts c \<longleftrightarrow> cn_queuedMessages c = int (length (waiting c))
     \<and> cn_queuedBytes c = int (\<Sum>m\<leftarrow>waiting c. length (ob_data m))
     \<and> length (waiting c) \<le> MaxPresenterQueueMessages
     \<and> (\<Sum>m\<leftarrow>waiting c. length (ob_data m)) \<le> MaxPresenterDecodedBytes"

lemma reserve_Some:
  "reserve m c = Some c' \<longleftrightarrow> cn_queuedMessages c + 1 \<le> int MaxPresenterQueueMessages
     \<and> cn_queuedBytes c + int (length (ob_data m)) \<le> int MaxPresenterDecodedBytes
     \<and> c' = c\<lparr>cn_queuedMessages := cn_queuedMessages c + 1,
              cn_queuedBytes := cn_queuedBytes c + int (length (ob_data m))\<rparr>"
  by (auto simp: reserve_def)

lemma channel_send_Some:
  "channel_send m c = Some c' \<longleftrightarrow> length (cn_queue c) < MaxPresenterQueueMessages
     \<and> c' = c\<lparr>cn_queue := cn_queue c @ [m]\<rparr>"
  by (auto simp: channel_send_def)

lemma channel_send_None:
  "channel_send m c = None \<longleftrightarrow> length (cn_queue c) \<ge> MaxPresenterQueueMessages"
  by (auto simp: channel_send_def)

text \<open>While the counters agree, a reserved frame always finds room in the channel.\<close>

lemma reserved_room:
  assumes "counts c" and "reserve m c = Some c1"
  shows "length (cn_queue c) < MaxPresenterQueueMessages"
  using assms by (auto simp: counts_def reserve_Some waiting_def split: option.splits)

lemma reserved_channel:
  assumes "counts c" and "reserve m c = Some c1"
  shows "channel_send m c1 = Some (c1\<lparr>cn_queue := cn_queue c1 @ [m]\<rparr>)"
  using reserved_room [OF assms] assms(2) by (auto simp: channel_send_Some reserve_Some)

lemma counts_queue:
  assumes "counts c" and "reserve m c = Some c1"
  shows "counts (c1\<lparr>cn_queue := cn_queue c1 @ [m]\<rparr>)"
    and "counts (c1\<lparr>cn_pending := cn_pending c1 @ [m]\<rparr>)"
  using assms by (auto simp: counts_def reserve_Some waiting_def split: option.splits)

section \<open>What start leaves\<close>

text \<open>Sequences that each follow the one before, from \<open>b\<close> on.\<close>

fun consecutive :: "uint64 \<Rightarrow> uint64 list \<Rightarrow> bool" where
  "consecutive b [] = True"
| "consecutive b (s # ss) = (ValidateNextSequence b s = None \<and> consecutive s ss)"

lemma consecutive_snoc:
  "consecutive b (ss @ [s]) \<longleftrightarrow>
    consecutive b ss \<and> ValidateNextSequence (last (b # ss)) s = None"
  by (induction ss arbitrary: b) auto

lemma consecutive_upt:
  "consecutive b ss \<Longrightarrow> map unat ss = [Suc (unat b) ..< Suc (unat b + length ss)]"
proof (induction ss arbitrary: b)
  case Nil
  then show ?case by simp
next
  case (Cons s ss)
  then have s: "unat s = Suc (unat b)" by (simp add: ValidateNextSequence_None)
  with Cons.IH [of s] Cons.prems
  have "map unat ss = [Suc (Suc (unat b)) ..< Suc (Suc (unat b) + length ss)]" by simp
  with s show ?case by (simp add: upt_conv_Cons del: upt_Suc)
qed

abbreviation prologue_frames :: "bytes list \<Rightarrow> outbound list" where
  "prologue_frames pro \<equiv> map (\<lambda>f. \<lparr>ob_data = f, ob_sequence = 0\<rparr>) pro"

lemma start_prologue_counts:
  "counts c \<Longrightarrow> start_prologue pro c = (r, c') \<Longrightarrow> r \<noteq> Blocked \<and> counts c'"
proof (induction pro arbitrary: c)
  case Nil
  then show ?case by simp
next
  case (Cons f fs)
  let ?m = "\<lparr>ob_data = f, ob_sequence = 0\<rparr>"
  show ?case
  proof (cases "reserve ?m c")
    case None
    with Cons.prems show ?thesis by auto
  next
    case (Some c1)
    with Cons.prems reserved_channel [OF Cons.prems(1) Some]
    have "start_prologue fs (c1\<lparr>cn_queue := cn_queue c1 @ [?m]\<rparr>) = (r, c')" by simp
    with Cons.IH counts_queue(1) [OF Cons.prems(1) Some] show ?thesis by blast
  qed
qed

lemma start_prologue_frame:
  "start_prologue pro c = (r, c') \<Longrightarrow> cn_pending c' = cn_pending c \<and> cn_written c' = cn_written c
    \<and> cn_inflight c' = cn_inflight c \<and> cn_lastSequence c' = cn_lastSequence c
    \<and> cn_failed c' = cn_failed c \<and> cn_started c' = cn_started c
    \<and> (r = Started \<longrightarrow> cn_queue c' = cn_queue c @ prologue_frames pro)"
  by (induction pro arbitrary: c)
    (fastforce simp: Let_def reserve_Some channel_send_Some split: option.splits)+

text \<open>Of the held back messages those above the baseline are queued, the others released.\<close>

abbreviation above :: "uint64 \<Rightarrow> outbound list \<Rightarrow> outbound list" where
  "above b ms \<equiv> filter (\<lambda>m. b < ob_sequence m) ms"

abbreviation below :: "uint64 \<Rightarrow> outbound list \<Rightarrow> outbound list" where
  "below b ms \<equiv> filter (\<lambda>m. \<not> b < ob_sequence m) ms"

lemma start_pending_Started:
  "start_pending b ms c = (Started, c') \<Longrightarrow>
    c' = c\<lparr>cn_queue := cn_queue c @ above b ms,
          cn_lastSequence := last (cn_lastSequence c # map ob_sequence (above b ms)),
          cn_queuedMessages := cn_queuedMessages c - int (length (below b ms)),
          cn_queuedBytes := cn_queuedBytes c - int (\<Sum>m\<leftarrow>below b ms. length (ob_data m))\<rparr>
    \<and> consecutive (cn_lastSequence c) (map ob_sequence (above b ms))"
proof (induction ms arbitrary: c)
  case Nil
  then show ?case by simp
next
  case (Cons m ms)
  show ?case
  proof (cases "ob_sequence m \<le> b")
    case True
    with Cons.prems have "start_pending b ms (release m c) = (Started, c')" by simp
    from Cons.IH [OF this] True show ?thesis
      by (simp add: release_def leD algebra_simps)
  next
    case False
    then have "ob_sequence m \<noteq> 0" by auto
    with Cons.prems False
    obtain "ValidateNextSequence (cn_lastSequence c) (ob_sequence m) = None"
      and "start_pending b ms (c\<lparr>cn_lastSequence := ob_sequence m, cn_queue := cn_queue c @ [m]\<rparr>)
        = (Started, c')"
      by (auto simp: followsLocked_def Let_def channel_send_Some split: option.splits)
    with Cons.IH [OF this(2)] False show ?thesis by (simp add: not_le)
  qed
qed

lemma start_pending_Blocked: "fst (start_pending b ms c) \<noteq> Blocked"
  by (induction b ms c rule: start_pending.induct) (auto simp: Let_def split: option.splits)

lemma sum_split: "(\<Sum>m\<leftarrow>below b ms. g m) + (\<Sum>m\<leftarrow>above b ms. g m) = (\<Sum>m\<leftarrow>ms. (g m :: nat))"
  by (induction ms) auto

lemma start_Started:
  assumes "start b pro c = (Started, c')"
  obtains c1 where "\<not> cn_failed c"
    and "start_prologue pro (c\<lparr>cn_lastSequence := b\<rparr>) = (Started, c1)"
    and "c' = c1\<lparr>cn_queue := cn_queue c @ prologue_frames pro @ above b (cn_pending c),
          cn_lastSequence := last (b # map ob_sequence (above b (cn_pending c))),
          cn_queuedMessages := cn_queuedMessages c1 - int (length (below b (cn_pending c))),
          cn_queuedBytes := cn_queuedBytes c1 - int (\<Sum>m\<leftarrow>below b (cn_pending c). length (ob_data m)),
          cn_pending := [], cn_started := True\<rparr>"
    and "consecutive b (map ob_sequence (above b (cn_pending c)))"
proof -
  from assms obtain c1 c2 where nf: "\<not> cn_failed c"
    and pr: "start_prologue pro (c\<lparr>cn_lastSequence := b\<rparr>) = (Started, c1)"
    and pe: "start_pending b (cn_pending c1) c1 = (Started, c2)"
    and c': "c' = c2\<lparr>cn_pending := [], cn_started := True\<rparr>"
    by (auto simp: start_def Let_def split: if_splits prod.splits start_result.splits)
  from start_prologue_frame [OF pr] have "cn_pending c1 = cn_pending c" "cn_lastSequence c1 = b"
    "cn_queue c1 = cn_queue c @ prologue_frames pro" by auto
  with start_pending_Started [OF pe] c' that [OF nf pr] show thesis by simp
qed

lemma start_counts:
  assumes "counts c" and "start b pro c = (Started, c')"
  shows "counts c'"
  using assms(2)
proof (rule start_Started)
  fix c1
  assume pr: "start_prologue pro (c\<lparr>cn_lastSequence := b\<rparr>) = (Started, c1)"
    and c': "c' = c1\<lparr>cn_queue := cn_queue c @ prologue_frames pro @ above b (cn_pending c),
          cn_lastSequence := last (b # map ob_sequence (above b (cn_pending c))),
          cn_queuedMessages := cn_queuedMessages c1 - int (length (below b (cn_pending c))),
          cn_queuedBytes := cn_queuedBytes c1 - int (\<Sum>m\<leftarrow>below b (cn_pending c). length (ob_data m)),
          cn_pending := [], cn_started := True\<rparr>"
  have "counts (c\<lparr>cn_lastSequence := b\<rparr>)" using assms(1) by (simp add: counts_def waiting_def)
  with start_prologue_counts pr have "counts c1" by blast
  moreover from start_prologue_frame [OF pr] have "cn_pending c1 = cn_pending c"
    "cn_queue c1 = cn_queue c @ prologue_frames pro" "cn_inflight c1 = cn_inflight c" by auto
  moreover note sum_split [of "\<lambda>m. length (ob_data m)" b "cn_pending c", symmetric]
    sum_split [of "\<lambda>m. 1" b "cn_pending c", symmetric]
  ultimately show "counts c'" by (simp add: counts_def c' waiting_def sum_list_triv)
qed

lemma start_not_Blocked:
  assumes "counts c"
  shows "fst (start b pro c) \<noteq> Blocked"
proof -
  have "counts (c\<lparr>cn_lastSequence := b\<rparr>)" using assms by (simp add: counts_def waiting_def)
  with start_prologue_counts [of "c\<lparr>cn_lastSequence := b\<rparr>" pro] start_pending_Blocked
  show ?thesis
    by (auto simp: start_def Let_def split: prod.splits start_result.splits)
      (metis fst_conv)+
qed

section \<open>The outcomes of the operations\<close>

lemma Send_cases:
  assumes "Send frame e c = (err, c')"
  obtains (failed) "err \<noteq> None" "cn_failed c'"
    | (held) d c1 where "err = None" "frame e = Some d" "\<not> cn_failed c" "\<not> cn_started c"
        "reserve \<lparr>ob_data = d, ob_sequence = en_Sequence e\<rparr> c = Some c1"
        "c' = c1\<lparr>cn_pending := cn_pending c1 @ [\<lparr>ob_data = d, ob_sequence = en_Sequence e\<rparr>]\<rparr>"
    | (queued) d c1 where "err = None" "frame e = Some d" "\<not> cn_failed c" "cn_started c"
        "reserve \<lparr>ob_data = d, ob_sequence = en_Sequence e\<rparr> c = Some c1"
        "followsLocked c (en_Sequence e) = None"
        "c' = c1\<lparr>cn_queue := cn_queue c1 @ [\<lparr>ob_data = d, ob_sequence = en_Sequence e\<rparr>],
           cn_lastSequence := en_Sequence e\<rparr>"
  using assms
  by (auto simp: Send_def Let_def fail_def channel_send_Some reserve_Some followsLocked_def
    split: option.splits if_splits)

lemma send_reply_cases:
  assumes "send_reply mar frame rid r c = (err, c')"
  obtains (refused) "c' = c" "err \<noteq> None"
    | (full) m c1 where "err \<noteq> None" "reserve m c = Some c1" "channel_send m c1 = None"
        "c' = release m c1"
    | (queued) payload d c1 where "err = None" "mar (PReply r) = Some payload"
        "frame (reply_envelope rid payload) = Some d" "\<not> cn_failed c"
        "reserve \<lparr>ob_data = d, ob_sequence = 0\<rparr> c = Some c1"
        "c' = c1\<lparr>cn_queue := cn_queue c1 @ [\<lparr>ob_data = d, ob_sequence = 0\<rparr>]\<rparr>"
  using assms
  by (auto simp: send_reply_def Let_def channel_send_Some
    split: option.splits if_splits)

lemma reserve_frame:
  "reserve m c = Some c1 \<Longrightarrow> stream c1 = stream c \<and> waiting c1 = waiting c
    \<and> cn_pending c1 = cn_pending c \<and> cn_queue c1 = cn_queue c \<and> cn_started c1 = cn_started c
    \<and> cn_failed c1 = cn_failed c \<and> cn_lastSequence c1 = cn_lastSequence c
    \<and> cn_inflight c1 = cn_inflight c \<and> cn_written c1 = cn_written c"
  by (auto simp: reserve_Some stream_def waiting_def)

lemma writer_take_frame:
  assumes "writer_take c = Some c'"
  shows "stream c' = stream c" and "waiting c' = waiting c" and "cn_pending c' = cn_pending c"
    and "cn_started c' = cn_started c" and "cn_failed c' = cn_failed c"
    and "cn_lastSequence c' = cn_lastSequence c" and "counts c' = counts c"
  using assms
  by (auto simp: writer_take_def stream_def waiting_def counts_def split: if_splits list.splits)

lemma writer_done_frame:
  assumes "writer_done ok c = Some c'"
  shows "cn_failed c' \<or> stream c' = stream c \<and> cn_pending c' = cn_pending c
    \<and> cn_started c' = cn_started c \<and> cn_failed c' = cn_failed c
    \<and> cn_lastSequence c' = cn_lastSequence c \<and> (counts c \<longrightarrow> counts c')"
  using assms
  by (auto simp: writer_done_def release_def fail_def stream_def waiting_def counts_def
    split: if_splits option.splits)

section \<open>The invariant of a connection\<close>

text \<open>
  While it has not failed, a connection's counters agree with what it holds; before the handshake
  nothing is queued; afterwards nothing is held back, the stream opens with the handshake frames
  and its deltas run without a gap from the baseline to \<open>lastSequence\<close>.
\<close>

definition delta_seqs :: "connection \<Rightarrow> uint64 list" where
  "delta_seqs c = map ob_sequence (filter is_delta (stream c))"

definition conn_inv :: "uint64 \<Rightarrow> bytes list \<Rightarrow> connection \<Rightarrow> bool" where
  "conn_inv base pro c \<longleftrightarrow> cn_failed c \<or>
     counts c \<and> (\<not> cn_started c \<longrightarrow> stream c = []) \<and>
     (cn_started c \<longrightarrow> cn_pending c = []
        \<and> take (length pro) (stream c) = prologue_frames pro
        \<and> consecutive base (delta_seqs c) \<and> cn_lastSequence c = last (base # delta_seqs c))"

lemma conn_inv_new: "conn_inv base pro newConnection"
  by (simp add: conn_inv_def newConnection_def counts_def waiting_def stream_def)

lemma take_append_same: "take n xs = ys \<Longrightarrow> length ys = n \<Longrightarrow> take n (xs @ zs) = ys"
  by (metis append_Nil2 cancel_comm_monoid_add_class.diff_cancel length_take min.absorb_iff2
      nat_le_linear take_0 take_all take_append)

lemma stream_snoc: "stream (c\<lparr>cn_queue := cn_queue c @ [m]\<rparr>) = stream c @ [m]"
  by (simp add: stream_def)

lemma conn_inv_Send:
  assumes inv: "conn_inv base pro c" and "en_Sequence e \<noteq> 0"
  shows "conn_inv base pro (snd (Send frame e c))"
proof -
  obtain err c' where "Send frame e c = (err, c')" by fastforce
  then show ?thesis
  proof (cases rule: Send_cases)
    case failed
    with \<open>Send frame e c = (err, c')\<close> show ?thesis by (simp add: conn_inv_def)
  next
    case (held d c1)
    with inv have "counts c" "stream c = []" by (auto simp: conn_inv_def)
    with held counts_queue(2) [OF this(1) held(5)] reserve_frame [OF held(5)]
      \<open>Send frame e c = (err, c')\<close>
    show ?thesis by (simp add: conn_inv_def stream_def)
  next
    case (queued d c1)
    let ?m = "\<lparr>ob_data = d, ob_sequence = en_Sequence e\<rparr>"
    from queued inv have ok: "counts c" "cn_pending c = []"
      "take (length pro) (stream c) = prologue_frames pro" "consecutive base (delta_seqs c)"
      "cn_lastSequence c = last (base # delta_seqs c)"
      by (auto simp: conn_inv_def)
    note fr = reserve_frame [OF queued(5)]
    have st: "stream c' = stream c @ [?m]"
      using fr queued(7) by (simp add: stream_def)
    have "delta_seqs c' = delta_seqs c @ [en_Sequence e]"
      using st assms(2) by (simp add: delta_seqs_def is_delta_def)
    moreover have "counts c'"
      using counts_queue(1) [OF ok(1) queued(5)] queued(7) by (simp add: counts_def waiting_def)
    moreover have "consecutive base (delta_seqs c @ [en_Sequence e])"
      using ok queued(6) assms(2) by (simp add: consecutive_snoc followsLocked_def)
    moreover have "take (length pro) (stream c') = prologue_frames pro"
      unfolding st by (rule take_append_same [OF ok(3)]) simp
    ultimately show ?thesis
      using queued fr ok(2) \<open>Send frame e c = (err, c')\<close> by (simp add: conn_inv_def)
  qed
qed

lemma conn_inv_start:
  assumes inv: "conn_inv base pro c" and "\<not> cn_started c"
  shows "conn_inv base pro (start_or_fail base pro c)"
proof -
  obtain r c' where st: "start base pro c = (r, c')" by fastforce
  show ?thesis
  proof (cases "r = Started")
    case False
    with st show ?thesis
      by (cases r) (simp_all add: start_or_fail_def conn_inv_def fail_def)
  next
    case True
    with st have st': "start base pro c = (Started, c')" by simp
    then obtain c1 where nf: "\<not> cn_failed c"
      and pr: "start_prologue pro (c\<lparr>cn_lastSequence := base\<rparr>) = (Started, c1)"
      and c': "c' = c1\<lparr>cn_queue := cn_queue c @ prologue_frames pro @ above base (cn_pending c),
          cn_lastSequence := last (base # map ob_sequence (above base (cn_pending c))),
          cn_queuedMessages := cn_queuedMessages c1 - int (length (below base (cn_pending c))),
          cn_queuedBytes := cn_queuedBytes c1
            - int (\<Sum>m\<leftarrow>below base (cn_pending c). length (ob_data m)),
          cn_pending := [], cn_started := True\<rparr>"
      and con: "consecutive base (map ob_sequence (above base (cn_pending c)))"
      by (rule start_Started)
    from inv assms(2) nf have "counts c" "stream c = []" by (auto simp: conn_inv_def)
    with start_counts st' start_prologue_frame [OF pr]
    have cts: "counts c'" and st: "stream c' = prologue_frames pro @ above base (cn_pending c)"
      by (auto simp: c' stream_def split: option.splits)
    have "filter is_delta (prologue_frames pro) = []"
      by (simp add: is_delta_def filter_empty_conv)
    moreover have "filter is_delta (above base ms) = above base ms" for ms
      by (induction ms) (auto simp: is_delta_def)
    ultimately have "delta_seqs c' = map ob_sequence (above base (cn_pending c))"
      by (simp add: delta_seqs_def st)
    with st' cts st con show ?thesis
      by (simp add: start_or_fail_def conn_inv_def) (simp add: c')
  qed
qed

lemma conn_inv_reply:
  assumes inv: "conn_inv base pro c" and "cn_started c"
  shows "conn_inv base pro (snd (send_reply mar frame rid r c))"
proof -
  obtain err c' where sr: "send_reply mar frame rid r c = (err, c')" by fastforce
  then show ?thesis
  proof (cases rule: send_reply_cases)
    case refused
    with sr inv show ?thesis by simp
  next
    case (full m c1)
    with sr inv release_reserve [OF full(2)] show ?thesis by simp
  next
    case (queued payload d c1)
    let ?m = "\<lparr>ob_data = d, ob_sequence = 0\<rparr>"
    note fr = reserve_frame [OF queued(5)]
    from queued inv assms(2) have ok: "counts c"
      "take (length pro) (stream c) = prologue_frames pro" by (auto simp: conn_inv_def)
    have st: "stream c' = stream c @ [?m]" using fr queued(6) by (simp add: stream_def)
    then have "delta_seqs c' = delta_seqs c" by (simp add: delta_seqs_def is_delta_def)
    moreover have "take (length pro) (stream c') = prologue_frames pro"
      unfolding st by (rule take_append_same [OF ok(2)]) simp
    moreover have "counts c'" using counts_queue(1) [OF ok(1) queued(5)] queued(6) by simp
    ultimately show ?thesis
      using sr inv fr queued(4,6) assms(2) by (simp add: conn_inv_def)
  qed
qed

lemma conn_inv_step:
  assumes "conn_step mar frame base pro c c'" and inv: "conn_inv base pro c"
  shows "conn_inv base pro c'"
  using assms(1)
proof (cases rule: conn_step.cases)
  case takes
  note fr = writer_take_frame [OF takes]
  then have "delta_seqs c' = delta_seqs c" by (simp add: delta_seqs_def)
  with fr inv show ?thesis by (simp add: conn_inv_def)
next
  case (writes ok)
  with inv show ?thesis
    using writer_done_frame [OF writes] by (auto simp: conn_inv_def delta_seqs_def)
qed (use inv in \<open>auto simp: conn_inv_start conn_inv_reply, simp add: conn_inv_def fail_def\<close>)

lemma conn_reach_inv: "conn_reach mar frame base pro c \<Longrightarrow> conn_inv base pro c"
  by (induction rule: conn_reach.induct) (auto simp: conn_inv_new conn_inv_Send dest: conn_inv_step)

end
