(* ===== verification/Session.thy ===== *)
theory Session
  imports Replica Connection
begin

text \<open>
  The presenter's connections as sinks of the state owner. The rest of the service is a map from
  connection numbers to connections; \<open>Send\<close> acts on one of them, and each moves by its own
  goroutines. Interpreting the locale \<open>sink\<close> on this world gives the refinement for the code:
  a presenter that follows its stream holds the owner's published state.
\<close>

type_synonym hub = "nat \<Rightarrow> connection"

definition hub_send :: "framer \<Rightarrow> hub sender" where
  "hub_send frame i e w =
    (let (err, c) = Send frame e (w i) in (err = None, w(i := c)))"

text \<open>Connection \<open>i\<close> starts on the baseline \<open>base i\<close> with the handshake frames \<open>pro i\<close>.\<close>

definition hub_step ::
  "marshaller \<Rightarrow> framer \<Rightarrow> (nat \<Rightarrow> uint64) \<Rightarrow> (nat \<Rightarrow> bytes list) \<Rightarrow> hub \<Rightarrow> hub \<Rightarrow> bool" where
  "hub_step mar frame base pro w w' \<longleftrightarrow>
    (\<exists>j c. conn_step mar frame (base j) (pro j) (w j) c \<and> w' = w(j := c))"

definition hub_log :: "hub \<Rightarrow> nat \<Rightarrow> bytes list" where
  "hub_log w i = delta_log (w i)"

definition hub_live :: "hub \<Rightarrow> nat \<Rightarrow> bool" where
  "hub_live w i \<longleftrightarrow> \<not> cn_failed (w i)"

text \<open>What is held back for a connection lies beyond the snapshot it was attached with.\<close>

definition conn_good :: "uint64 \<Rightarrow> bytes list \<Rightarrow> connection \<Rightarrow> bool" where
  "conn_good base pro c \<longleftrightarrow> conn_inv base pro c \<and>
    (\<not> cn_failed c \<longrightarrow> (\<forall>m\<in>set (cn_pending c). base < ob_sequence m))"

definition hub_good :: "(nat \<Rightarrow> uint64) \<Rightarrow> (nat \<Rightarrow> bytes list) \<Rightarrow> hub \<Rightarrow> bool" where
  "hub_good base pro w \<longleftrightarrow> (\<forall>i. conn_good (base i) (pro i) (w i))"

section \<open>The sink laws of one connection\<close>

lemma Send_accepts:
  assumes "conn_good base pro c" and "base < en_Sequence e" and "Send frame e c = (None, c')"
  shows "\<not> cn_failed c \<and> (\<exists>d. frame e = Some d \<and> delta_log c' = delta_log c @ [d])"
  using assms(3)
proof (cases rule: Send_cases)
  case failed
  then show ?thesis by simp
next
  case (held d c1)
  then show ?thesis
    using reserve_frame [OF held(5)] assms(2)
    by (auto simp: delta_log_def stream_def is_delta_def)
next
  case (queued d c1)
  with assms(1) have "cn_pending c = []" by (auto simp: conn_good_def conn_inv_def)
  with queued reserve_frame [OF queued(5)] assms(2) show ?thesis
    by (auto simp: delta_log_def stream_def is_delta_def)
qed

lemma Send_good:
  assumes "conn_good base pro c" and "base < en_Sequence e"
  shows "conn_good base pro (snd (Send frame e c))"
proof -
  obtain err c' where snd: "Send frame e c = (err, c')" by fastforce
  from assms(2) have "en_Sequence e \<noteq> 0" by auto
  with assms(1) have inv: "conn_inv base pro (snd (Send frame e c))"
    by (auto simp: conn_good_def conn_inv_Send)
  from snd show ?thesis
  proof (cases rule: Send_cases)
    case failed
    with snd inv show ?thesis by (simp add: conn_good_def)
  next
    case (held d c1)
    with snd inv assms reserve_frame [OF held(5)] show ?thesis by (auto simp: conn_good_def)
  next
    case (queued d c1)
    with snd inv assms reserve_frame [OF queued(5)] show ?thesis by (auto simp: conn_good_def)
  qed
qed

lemma Send_failed: "\<not> cn_failed (snd (Send frame e c)) \<Longrightarrow> \<not> cn_failed c"
  by (auto simp: Send_def Let_def fail_def split: option.splits)

lemma start_keeps:
  assumes good: "conn_good base pro c" and "\<not> cn_started c"
    and live: "\<not> cn_failed (start_or_fail base pro c)"
  shows "\<not> cn_failed c \<and> delta_log (start_or_fail base pro c) = delta_log c
    \<and> cn_pending (start_or_fail base pro c) = []"
proof -
  obtain r c' where st: "start base pro c = (r, c')" by fastforce
  with live have r: "r = Started" "start_or_fail base pro c = c'"
    by (auto simp: start_or_fail_def fail_def split: start_result.splits)
  with st have "start base pro c = (Started, c')" by simp
  then obtain c1 where nf: "\<not> cn_failed c"
    and pr: "start_prologue pro (c\<lparr>cn_lastSequence := base\<rparr>) = (Started, c1)"
    and c': "c' = c1\<lparr>cn_queue := cn_queue c @ prologue_frames pro @ above base (cn_pending c),
        cn_lastSequence := last (base # map ob_sequence (above base (cn_pending c))),
        cn_queuedMessages := cn_queuedMessages c1 - int (length (below base (cn_pending c))),
        cn_queuedBytes := cn_queuedBytes c1
          - int (\<Sum>m\<leftarrow>below base (cn_pending c). length (ob_data m)),
        cn_pending := [], cn_started := True\<rparr>"
    by (rule start_Started)
  have "above base (cn_pending c) = cn_pending c"
    using good nf by (auto simp: conn_good_def intro: filter_True)
  moreover have "filter is_delta (prologue_frames pro) = []"
    by (simp add: is_delta_def filter_empty_conv)
  moreover have "stream c = []" using good nf assms(2) by (auto simp: conn_good_def conn_inv_def)
  ultimately show ?thesis
    using nf r start_prologue_frame [OF pr]
    by (simp add: c' delta_log_def stream_def split: option.splits)
qed

lemma reply_keeps:
  "delta_log (snd (send_reply mar frame rid r c)) = delta_log c
    \<and> cn_failed (snd (send_reply mar frame rid r c)) = cn_failed c
    \<and> cn_pending (snd (send_reply mar frame rid r c)) = cn_pending c" if "conn_good base pro c" "cn_started c"
proof -
  obtain err c' where sr: "send_reply mar frame rid r c = (err, c')" by fastforce
  then show ?thesis
  proof (cases rule: send_reply_cases)
    case (full m c1)
    with sr release_reserve [OF full(2)] show ?thesis by simp
  next
    case (queued payload d c1)
    with sr that reserve_frame [OF queued(5)] show ?thesis
      by (auto simp: delta_log_def stream_def is_delta_def conn_good_def conn_inv_def)
  qed (use sr in simp_all)
qed

lemma conn_step_keeps:
  assumes "conn_step mar frame base pro c c'" and good: "conn_good base pro c"
    and live: "\<not> cn_failed c'"
  shows "\<not> cn_failed c \<and> delta_log c' = delta_log c \<and>
    (cn_pending c' = [] \<or> cn_pending c' = cn_pending c)"
  using assms(1)
proof (cases rule: conn_step.cases)
  case starts
  with start_keeps [OF good] live show ?thesis by simp
next
  case takes
  note fr = writer_take_frame [OF takes]
  with live show ?thesis by (simp add: delta_log_def)
next
  case (writes ok)
  with live writer_done_frame [OF writes] show ?thesis by (auto simp: delta_log_def)
next
  case (replies rid r)
  with live reply_keeps [OF good] show ?thesis by simp
next
  case fails
  with live show ?thesis by (simp add: fail_def)
qed

lemma conn_step_good:
  assumes "conn_step mar frame base pro c c'" and good: "conn_good base pro c"
  shows "conn_good base pro c'"
proof -
  have "conn_inv base pro c'"
    using assms by (auto simp: conn_good_def intro: conn_inv_step)
  moreover have "\<forall>m\<in>set (cn_pending c'). base < ob_sequence m" if "\<not> cn_failed c'"
    using conn_step_keeps [OF assms that] good by (auto simp: conn_good_def)
  ultimately show ?thesis by (simp add: conn_good_def)
qed

section \<open>The hub is a sink\<close>

interpretation hub: sink "hub_send frame" frame hub_log hub_live base "hub_good base pro"
  "hub_step mar frame base pro"
  for frame mar base pro
proof unfold_locales
  fix w w' :: hub and i j e
  assume good: "hub_good base pro w"
  then have at: "conn_good (base k) (pro k) (w k)" for k by (simp add: hub_good_def)
  show "hub_live w i \<and> (\<exists>d. frame e = Some d \<and> hub_log w' i = hub_log w i @ [d])"
    if "base i < en_Sequence e" "hub_send frame i e w = (True, w')"
    using that Send_accepts [OF at [of i]]
    by (auto simp: hub_send_def hub_live_def hub_log_def split: prod.splits)
  show "hub_good base pro (snd (hub_send frame i e w))" if "base i < en_Sequence e"
    using Send_good [OF at that, of frame] good
    by (auto simp: hub_send_def hub_good_def split: prod.splits)
  show "hub_live w j" if "hub_live (snd (hub_send frame i e w)) j"
    using that Send_failed [of frame e "w i"]
    by (auto simp: hub_send_def hub_live_def split: prod.splits if_splits)
  show "hub_good base pro w'" if "hub_step mar frame base pro w w'"
    using that good conn_step_good [OF _ at] by (auto simp: hub_step_def hub_good_def)
  show "hub_live w i \<and> hub_log w' i = hub_log w i"
    if "hub_step mar frame base pro w w'" "hub_live w' i"
    using that conn_step_keeps [OF _ at]
    by (auto simp: hub_step_def hub_live_def hub_log_def split: if_splits)
qed

end
