(* ===== verification/Limiter.thy ===== *)
theory Limiter
  imports Protocol
begin

text \<open>
  The refresh limiter of \<open>internal/item/model.go\<close>, shared by every item proxy. Times are the
  nanoseconds of the limiter's clock, an argument of \<open>Reserve\<close>; the zero \<open>time.Time\<close> of \<open>last\<close> is
  \<open>None\<close>. A run is any sequence of reservations on a clock that does not go back, and of
  \<open>Forget\<close>s.
\<close>

definition PerItemInterval :: int where [const_defs]: "PerItemInterval = 1000000000 div 30"
definition GlobalInterval :: int where [const_defs]: "GlobalInterval = 1000000000 div 120"

record limiter =
  lm_perKey :: "(item_key, int) gomap"
  lm_last :: "int option"

definition NewLimiter :: limiter where
  "NewLimiter = \<lparr>lm_perKey = [], lm_last = None\<rparr>"

definition Reserve :: "int \<Rightarrow> item_key \<Rightarrow> limiter \<Rightarrow> int \<times> limiter" where
  "Reserve now key l =
    (let earliest = now;
         earliest = (case lm_last l of
             None \<Rightarrow> earliest
           | Some t \<Rightarrow> if t + GlobalInterval > earliest then t + GlobalInterval else earliest);
         earliest = (case gm_get (lm_perKey l) key of
             None \<Rightarrow> earliest
           | Some t \<Rightarrow> if t + PerItemInterval > earliest then t + PerItemInterval else earliest)
     in if earliest > now then (earliest - now, l)
        else (0, l\<lparr>lm_last := Some now, lm_perKey := gm_set key now (lm_perKey l)\<rparr>))"

definition Forget :: "item_key \<Rightarrow> limiter \<Rightarrow> limiter" where
  "Forget key l = l\<lparr>lm_perKey := gm_del key (lm_perKey l)\<rparr>"

text \<open>Grants, oldest first; \<open>gone\<close> are the keys that may be forgotten.\<close>

type_synonym grants = "(int \<times> item_key) list"

inductive limiter_run :: "item_key set \<Rightarrow> int \<Rightarrow> limiter \<Rightarrow> grants \<Rightarrow> bool" for gone where
  starts: "limiter_run gone now NewLimiter []"
| grants: "limiter_run gone t l g \<Longrightarrow> t \<le> now \<Longrightarrow> Reserve now key l = (wait, l') \<Longrightarrow> wait \<le> 0 \<Longrightarrow>
    limiter_run gone now l' (g @ [(now, key)])"
| refuses: "limiter_run gone t l g \<Longrightarrow> t \<le> now \<Longrightarrow> Reserve now key l = (wait, l') \<Longrightarrow> 0 < wait \<Longrightarrow>
    limiter_run gone now l' g"
| forgets: "limiter_run gone t l g \<Longrightarrow> key \<in> gone \<Longrightarrow> limiter_run gone t (Forget key l) g"

section \<open>One reservation\<close>

text \<open>The time from which a key may be refreshed.\<close>

definition ready_at :: "item_key \<Rightarrow> limiter \<Rightarrow> int \<Rightarrow> bool" where
  "ready_at key l now \<longleftrightarrow> (\<forall>t. lm_last l = Some t \<longrightarrow> t + GlobalInterval \<le> now)
     \<and> (\<forall>t. gm_get (lm_perKey l) key = Some t \<longrightarrow> t + PerItemInterval \<le> now)"

lemma Reserve_granted:
  "fst (Reserve now key l) \<le> 0 \<longleftrightarrow> ready_at key l now"
  "ready_at key l now \<Longrightarrow> Reserve now key l =
     (0, l\<lparr>lm_last := Some now, lm_perKey := gm_set key now (lm_perKey l)\<rparr>)"
  by (auto simp: Reserve_def Let_def ready_at_def split: option.splits if_splits)

lemma Reserve_refused: "\<not> ready_at key l now \<Longrightarrow> snd (Reserve now key l) = l"
  by (auto simp: Reserve_def Let_def ready_at_def split: option.splits if_splits)

lemma Reserve_wait:
  "0 < fst (Reserve now key l) \<Longrightarrow> ready_at key l (now + d) \<longleftrightarrow> fst (Reserve now key l) \<le> d"
  by (auto simp: Reserve_def Let_def ready_at_def split: option.splits if_splits)

section \<open>Spacing\<close>

definition apart :: "item_key set \<Rightarrow> int \<times> item_key \<Rightarrow> int \<times> item_key \<Rightarrow> bool" where
  "apart gone a b \<longleftrightarrow> fst a + GlobalInterval \<le> fst b
     \<and> (snd a = snd b \<longrightarrow> snd a \<notin> gone \<longrightarrow> fst a + PerItemInterval \<le> fst b)"

definition limiter_inv :: "item_key set \<Rightarrow> limiter \<Rightarrow> grants \<Rightarrow> bool" where
  "limiter_inv gone l g \<longleftrightarrow> sorted_wrt (apart gone) g
     \<and> (\<forall>(t, k)\<in>set g. (\<exists>s. lm_last l = Some s \<and> t \<le> s)
          \<and> (k \<notin> gone \<longrightarrow> (\<exists>s. gm_get (lm_perKey l) k = Some s \<and> t \<le> s)))"

lemma limiter_run_inv: "limiter_run gone now l g \<Longrightarrow> limiter_inv gone l g"
proof (induction rule: limiter_run.induct)
  case (starts now)
  then show ?case by (simp add: limiter_inv_def)
next
  case (grants t l g now key wait l')
  then have ready: "ready_at key l now" using Reserve_granted(1) [of now key l] by simp
  with grants have l': "l' = l\<lparr>lm_last := Some now, lm_perKey := gm_set key now (lm_perKey l)\<rparr>"
    by (simp add: Reserve_granted(2))
  have before: "apart gone (s, k) (now, key)" if "(s, k) \<in> set g" for s k
    using that grants.IH ready unfolding limiter_inv_def ready_at_def apart_def by fastforce
  have pos: "0 \<le> GlobalInterval" "0 \<le> PerItemInterval" by (simp_all add: const_defs)
  have early: "s \<le> now" if "(s, k) \<in> set g" for s k
    using before [OF that] pos by (simp add: apart_def)
  show ?case
    using grants.IH before early unfolding limiter_inv_def l'
    by (auto simp: sorted_wrt_append gm_get_set)
next
  case (refuses t l g now key wait l')
  then have "l' = l"
    using Reserve_refused [of key l now] Reserve_granted(1) [of now key l] by simp
  with refuses show ?case by simp
next
  case (forgets t l g key)
  then show ?case by (force simp: limiter_inv_def Forget_def gm_get_del)
qed

lemma apart_span:
  "sorted_wrt (apart gone) g \<Longrightarrow> g \<noteq> [] \<Longrightarrow>
    fst (hd g) + (int (length g) - 1) * GlobalInterval \<le> fst (last g)"
proof (induction g rule: rev_induct)
  case Nil
  then show ?case by simp
next
  case (snoc x g)
  show ?case
  proof (cases "g = []")
    case True
    then show ?thesis by simp
  next
    case False
    with snoc have "fst (hd g) + (int (length g) - 1) * GlobalInterval \<le> fst (last g)"
      by (simp add: sorted_wrt_append)
    moreover have "fst (last g) + GlobalInterval \<le> fst x"
      using snoc.prems(1) False by (simp add: sorted_wrt_append apart_def)
    ultimately show ?thesis using False by (simp add: algebra_simps)
  qed
qed

end
