(* ===== verification/Dbusval.thy ===== *)
theory Dbusval
  imports Utf8
begin

text \<open>
  Values that arrive over D-Bus, \<open>internal/dbusval/value.go\<close>. The bus hands over Go values of
  any dynamic type; \<open>dval\<close> lists the shapes the code tells apart through \<open>reflect\<close>. A
  \<open>reflect.Value\<close> is invalid (\<open>None\<close>) or a value with the read-only flag that reading an
  unexported struct field sets and \<open>CanInterface\<close> reports.
\<close>

section \<open>Dynamic values\<close>

datatype dval =
    DNil                              \<comment> \<open>a nil interface\<close>
  | DString bytes                     \<comment> \<open>string\<close>
  | DObjectPath bytes                 \<comment> \<open>dbus.ObjectPath, of kind String\<close>
  | DBool bool
  | DInt "64 word"                    \<comment> \<open>any signed integer\<close>
  | DUint32 uint32
  | DUint "64 word"                   \<comment> \<open>any other unsigned integer\<close>
  | DBytes bytes                      \<comment> \<open>[]byte\<close>
  | DSlice "dval list"                \<comment> \<open>any other slice\<close>
  | DArray "dval list"
  | DStruct "(bool \<times> dval) list"      \<comment> \<open>fields, with whether each is exported\<close>
  | DVariant dval                     \<comment> \<open>dbus.Variant\<close>
  | DMapVariant "(bytes \<times> dval) list" \<comment> \<open>map[string]dbus.Variant, the variants' contents\<close>
  | DMapAny "(bytes \<times> dval) list"     \<comment> \<open>map[string]any\<close>
  | DIface "dval option"              \<comment> \<open>an interface-typed element\<close>
  | DPtr "dval option"
  | DOther                            \<comment> \<open>any other kind\<close>

type_synonym rvalue = "(bool \<times> dval) option"

definition ValueOf :: "dval \<Rightarrow> rvalue" where
  "ValueOf v = (if v = DNil then None else Some (False, v))"

section \<open>Unwrapping\<close>

fun unwrap :: "bool \<Rightarrow> dval \<Rightarrow> rvalue" where
  "unwrap ro DNil = None"
| "unwrap ro (DIface None) = None"
| "unwrap ro (DIface (Some v)) = unwrap ro v"
| "unwrap ro (DPtr None) = None"
| "unwrap ro (DPtr (Some v)) = unwrap ro v"
| "unwrap ro (DVariant v) = (if ro then Some (ro, DVariant v) else unwrap False v)"
| "unwrap ro v = Some (ro, v)"

definition Indirect :: "rvalue \<Rightarrow> rvalue" where
  "Indirect r = (case r of None \<Rightarrow> None | Some (ro, v) \<Rightarrow> unwrap ro v)"

text \<open>What \<open>root.Index\<close> and \<open>root.Field\<close> read from a root that is not read-only.\<close>

fun struct_fields :: "dval \<Rightarrow> rvalue list option" where
  "struct_fields (DStruct fs) = Some (map (\<lambda>(exported, v). Some (\<not> exported, v)) fs)"
| "struct_fields _ = None"

fun slice_items :: "dval \<Rightarrow> rvalue list option" where
  "slice_items (DBytes b) = Some (map (\<lambda>c. Some (False, DUint (of_nat (byte_val c)))) b)"
| "slice_items (DSlice vs) = Some (map (\<lambda>v. Some (False, v)) vs)"
| "slice_items (DArray vs) = Some (map (\<lambda>v. Some (False, v)) vs)"
| "slice_items _ = None"

definition Tuple :: "dval \<Rightarrow> nat \<Rightarrow> rvalue list option" where
  "Tuple v want =
    (case Indirect (ValueOf v) of
      None \<Rightarrow> None
    | Some (ro, root) \<Rightarrow>
        (case (case struct_fields root of Some fs \<Rightarrow> Some fs | None \<Rightarrow> slice_items root) of
          None \<Rightarrow> None
        | Some fs \<Rightarrow> if length fs < want then None else Some (map Indirect (take want fs))))"

definition Elements :: "dval \<Rightarrow> rvalue list option" where
  "Elements v =
    (case Indirect (ValueOf v) of
      None \<Rightarrow> None
    | Some (ro, root) \<Rightarrow>
        (case slice_items root of None \<Rightarrow> None | Some vs \<Rightarrow> Some (map Indirect vs)))"

section \<open>Scalars\<close>

definition String :: "rvalue \<Rightarrow> bytes" where
  "String r =
    (case r of
      Some (ro, DString s) \<Rightarrow> s
    | Some (ro, DObjectPath s) \<Rightarrow> s
    | _ \<Rightarrow> [])"

definition Bool :: "rvalue \<Rightarrow> bool \<Rightarrow> bool" where
  "Bool r fallback = (case r of Some (ro, DBool b) \<Rightarrow> b | _ \<Rightarrow> fallback)"

definition Int_value :: "rvalue \<Rightarrow> int option" where
  "Int_value r =
    (case r of
      Some (ro, DInt w) \<Rightarrow> Some (sint w)
    | Some (ro, DUint32 w) \<Rightarrow> Some (uint w)
    | Some (ro, DUint w) \<Rightarrow> if w > 4294967295 then None else Some (uint w)
    | _ \<Rightarrow> None)"

definition CanInterface :: "rvalue \<Rightarrow> bool" where
  "CanInterface r = (case r of None \<Rightarrow> False | Some (ro, v) \<Rightarrow> \<not> ro)"

definition Bytes :: "rvalue \<Rightarrow> bytes option" where
  "Bytes r =
    (if \<not> CanInterface r then None
     else case r of Some (ro, DBytes b) \<Rightarrow> Some b | _ \<Rightarrow> None)"

definition Any :: "rvalue \<Rightarrow> dval" where
  "Any r = (if \<not> CanInterface r then DNil else snd (the r))"

definition StringOf :: "dval \<Rightarrow> bytes" where
  "StringOf v = String (Indirect (ValueOf v))"

definition BoolOf :: "dval \<Rightarrow> bool \<Rightarrow> bool" where
  "BoolOf v fallback = Bool (Indirect (ValueOf v)) fallback"

definition IntOf :: "dval \<Rightarrow> int option" where
  "IntOf v = Int_value (Indirect (ValueOf v))"

definition BytesOf :: "dval \<Rightarrow> bytes option" where
  "BytesOf v = Bytes (Indirect (ValueOf v))"

section \<open>Method calls\<close>

text \<open>The outcome of a D-Bus method call, and what \<open>call.Err.Error()\<close> says of it.\<close>

datatype call_reply = Body "dval list" | CallCanceled | CallTimedOut | CallFailed bytes

definition call_error :: "call_reply \<Rightarrow> bytes option" where
  "call_error r =
    (case r of
      Body b \<Rightarrow> None
    | CallCanceled \<Rightarrow> Some ''context canceled''
    | CallTimedOut \<Rightarrow> Some ''context deadline exceeded''
    | CallFailed t \<Rightarrow> Some t)"

datatype method_arg = ArgInt int32 | ArgWord uint32 | ArgText bytes | ArgTexts "bytes list"
  | ArgVariant dval

record dsignal =
  sg_Sender :: bytes
  sg_Path :: bytes
  sg_Name :: bytes
  sg_Body :: "dval list"

text \<open>\<open>v, _ := value.(string)\<close>\<close>

definition as_string :: "dval \<Rightarrow> bytes" where
  "as_string v = (case v of DString s \<Rightarrow> s | _ \<Rightarrow> [])"

section \<open>Unwrapped values\<close>

text \<open>
  An unwrapped value is never an interface or a pointer, and a variant only where reading it is
  forbidden; from a root it can always be read.
\<close>

definition unwrapped :: "rvalue \<Rightarrow> bool" where
  "unwrapped r = (case r of
      None \<Rightarrow> True
    | Some (ro, v) \<Rightarrow> v \<noteq> DNil \<and> (\<forall>x. v \<noteq> DIface x \<and> v \<noteq> DPtr x) \<and> (\<forall>x. v = DVariant x \<longrightarrow> ro))"

lemma unwrap_unwrapped: "unwrapped (unwrap ro v)"
  by (induction ro v rule: unwrap.induct) (auto simp: unwrapped_def)

lemma unwrap_readable: "unwrap False v = Some (ro, w) \<Longrightarrow> \<not> ro"
  by (induction False v rule: unwrap.induct) auto

lemma Indirect_unwrapped: "unwrapped (Indirect r)"
  by (auto simp: Indirect_def unwrap_unwrapped split: option.splits prod.splits)
    (simp add: unwrapped_def)

lemma Indirect_ValueOf: "Indirect (ValueOf v) = unwrap False v"
  by (simp add: Indirect_def ValueOf_def)

lemma unwrap_id: "unwrapped (Some (ro, v)) \<Longrightarrow> unwrap ro v = Some (ro, v)"
  by (cases "(ro, v)" rule: unwrap.cases) (auto simp: unwrapped_def)

text \<open>Unwrapping twice is unwrapping once, so nested wrappers of any depth read alike.\<close>

lemma Indirect_idem: "Indirect (Indirect r) = Indirect r"
proof (cases "Indirect r")
  case None
  then show ?thesis by (simp add: Indirect_def)
next
  case (Some p)
  then show ?thesis
    using Indirect_unwrapped [of r] unwrap_id by (cases p) (simp add: Indirect_def)
qed

lemma Tuple_length: "Tuple v want = Some fs \<Longrightarrow> length fs = want"
  by (auto simp: Tuple_def split: option.splits prod.splits if_splits)

lemma Tuple_unwrapped: "Tuple v want = Some fs \<Longrightarrow> r \<in> set fs \<Longrightarrow> unwrapped r"
  by (auto simp: Tuple_def Indirect_unwrapped split: option.splits prod.splits if_splits)

lemma Elements_unwrapped: "Elements v = Some rs \<Longrightarrow> r \<in> set rs \<Longrightarrow> unwrapped r"
  by (auto simp: Elements_def Indirect_unwrapped split: option.splits prod.splits)

lemma Int_value_range: "Int_value r = Some i \<Longrightarrow> - (2 ^ 63) \<le> i \<and> i < 2 ^ 63"
proof -
  assume "Int_value r = Some i"
  then consider w where "i = sint (w :: 64 word)" | w where "i = uint (w :: 64 word)" "\<not> w > 4294967295"
    | w where "i = uint (w :: uint32)"
    by (auto simp: Int_value_def split: option.splits prod.splits dval.splits if_splits)
  then show ?thesis
  proof cases
    case 1
    then show ?thesis using sint_range_size [of w] by (simp add: word_size)
  next
    case 2
    then have "uint w \<le> uint (4294967295 :: 64 word)" by (simp only: not_less word_le_def)
    then have "uint w \<le> 4294967295" by simp
    moreover have "0 \<le> uint w" by simp
    moreover have "- (2 ^ 63) \<le> (0 :: int)" "4294967295 < (2 ^ 63 :: int)" by simp_all
    ultimately show ?thesis using 2 by linarith
  next
    case 3
    have "uint w < 2 ^ LENGTH(32)" by (rule unsigned_less)
    moreover have "0 \<le> uint w" by simp
    moreover have "- (2 ^ 63) \<le> (0 :: int)" "2 ^ LENGTH(32) < (2 ^ 63 :: int)" by simp_all
    ultimately show ?thesis using 3 by linarith
  qed
qed

end
