(* ===== verification/Watcher.thy ===== *)
theory Watcher
  imports State_Owner Dbusval "HOL-Library.Char_ord" "HOL-Library.List_Lexorder"
begin

text \<open>
  The registry of tray items, \<open>internal/watcher\<close>: canonical addresses (\<open>address.go\<close>), the watcher
  this process serves (\<open>server.go\<close>) and the client that attaches to an external one
  (\<open>attach.go\<close>). A \<open>watcher.Key\<close> has the fields of \<open>protocol.ItemKey\<close>, and
  \<open>watcher.Address\<close> those of the owner's \<open>address\<close>; the records are shared. The bus daemon's
  \<open>GetNameOwner\<close> is the parameter \<open>resolve\<close>, \<open>ObjectPath.IsValid\<close> the parameter \<open>path_valid\<close>,
  and the order in which Go ranges over a map the parameter \<open>order\<close>, any rearrangement of a list.
  What an operation tells the \<open>Observer\<close> is the list of events it returns.
\<close>

section \<open>Addresses\<close>

definition BusName :: bytes where [const_defs]: "BusName = ''org.kde.StatusNotifierWatcher''"
definition DefaultItemPath :: bytes where [const_defs]: "DefaultItemPath = ''/StatusNotifierItem''"

type_synonym resolver = "bytes \<Rightarrow> bytes option"

datatype address_error = EmptyArgument | InvalidPath bytes | SenderNotUnique bytes | NotAName bytes
  | Unresolved bytes | ResolvedTo bytes bytes

definition Address_String :: "address \<Rightarrow> bytes" where
  "Address_String a = ad_owner a @ ad_path a"

definition isUniqueName :: "bytes \<Rightarrow> bool" where
  "isUniqueName name \<longleftrightarrow> HasPrefix name '':'' \<and> length name > 1"

definition isBusName :: "bytes \<Rightarrow> bool" where
  "isBusName name \<longleftrightarrow>
    (if isUniqueName name then True
     else CHR ''.'' \<in> set name \<and> \<not> HasPrefix name ''.'' \<and> \<not> HasSuffix name ''.'')"

definition resolveRegistration ::
  "(bytes \<Rightarrow> bool) \<Rightarrow> resolver \<Rightarrow> bytes \<Rightarrow> bytes \<Rightarrow> address_error + address" where
  "resolveRegistration path_valid resolve sender argument =
    (if argument = [] then Inl EmptyArgument
     else if HasPrefix argument ''/'' then
       (if \<not> path_valid argument then Inl (InvalidPath argument)
        else if \<not> isUniqueName sender then Inl (SenderNotUnique sender)
        else Inr \<lparr>ad_owner = sender, ad_path = argument\<rparr>)
     else if \<not> isBusName argument then Inl (NotAName argument)
     else case resolve argument of
       None \<Rightarrow> Inl (Unresolved argument)
     | Some owner \<Rightarrow>
         if \<not> isUniqueName owner then Inl (ResolvedTo argument owner)
         else Inr \<lparr>ad_owner = owner, ad_path = DefaultItemPath\<rparr>)"

definition parseRegisteredItem ::
  "(bytes \<Rightarrow> bool) \<Rightarrow> resolver \<Rightarrow> bytes \<Rightarrow> address_error + address" where
  "parseRegisteredItem path_valid resolve entry =
    (if entry = [] then Inl EmptyArgument
     else let (name, path) =
           (if CHR ''/'' \<in> set entry
            then (takeWhile (\<lambda>c. c \<noteq> CHR ''/'') entry, dropWhile (\<lambda>c. c \<noteq> CHR ''/'') entry)
            else (entry, DefaultItemPath))
     in if \<not> path_valid path then Inl (InvalidPath entry)
        else case (if \<not> isUniqueName name then resolve name else Some name) of
          None \<Rightarrow> Inl (Unresolved name)
        | Some owner \<Rightarrow>
            if \<not> isUniqueName owner then Inl (ResolvedTo name owner)
            else Inr \<lparr>ad_owner = owner, ad_path = path\<rparr>)"

section \<open>The observer's side\<close>

datatype registry_event = ItemAdded item_key | ItemRemoved item_key

text \<open>
  The contract of \<open>Observer\<close>: transitions in order, a retired generation removed before its
  address is registered again. An observer that holds it to the letter keeps the live keys by
  address and the highest generation it has seen, and refuses anything else.
\<close>

record observer =
  ob_live :: "(address, item_key) gomap"
  ob_top :: uint64

fun observe_one :: "registry_event \<Rightarrow> observer \<Rightarrow> observer option" where
  "observe_one (ItemAdded k) ob =
    (if gm_get (ob_live ob) (addr_of k) \<noteq> None \<or> ik_Generation k \<le> ob_top ob then None
     else Some (ob\<lparr>ob_live := gm_set (addr_of k) k (ob_live ob), ob_top := ik_Generation k\<rparr>))"
| "observe_one (ItemRemoved k) ob =
    (if gm_get (ob_live ob) (addr_of k) \<noteq> Some k then None
     else Some (ob\<lparr>ob_live := gm_del (addr_of k) (ob_live ob)\<rparr>))"

fun observe :: "registry_event list \<Rightarrow> observer \<Rightarrow> observer option" where
  "observe [] ob = Some ob"
| "observe (e # es) ob = (case observe_one e ob of None \<Rightarrow> None | Some ob' \<Rightarrow> observe es ob')"

lemma observe_append:
  "observe (es @ fs) ob = (case observe es ob of None \<Rightarrow> None | Some ob' \<Rightarrow> observe fs ob')"
  by (induction es arbitrary: ob) (auto split: option.splits)

section \<open>The watcher's server\<close>

record server =
  sv_items :: "(address, item_key) gomap"
  sv_generation :: uint64
  sv_hostRegistered :: bool
  sv_hosts :: "bytes list"
  sv_served :: bool
  sv_propItems :: "bytes list"
  sv_propHost :: bool
  sv_lost :: bool

definition NewServer :: server where
  "NewServer = \<lparr>sv_items = [], sv_generation = 0, sv_hostRegistered = False, sv_hosts = [],
     sv_served = False, sv_propItems = [], sv_propHost = False, sv_lost = False\<rparr>"

definition publishItemsLocked :: "server \<Rightarrow> server" where
  "publishItemsLocked s = s\<lparr>sv_propItems := sort (map (\<lambda>(a, k). Address_String a) (sv_items s))\<rparr>"

text \<open>
  \<open>register\<close>: under the lock it enters the item and returns the key, if any, that it announces
  after it has released the lock.
\<close>

definition register_locked :: "address \<Rightarrow> server \<Rightarrow> item_key option \<times> server" where
  "register_locked a s =
    (if gm_get (sv_items s) a \<noteq> None then (None, s)
     else let s = s\<lparr>sv_generation := sv_generation s + 1\<rparr>;
              key = \<lparr>ik_Owner = ad_owner a, ik_ObjectPath = ad_path a,
                     ik_Generation = sv_generation s\<rparr>;
              s = s\<lparr>sv_items := gm_set a key (sv_items s)\<rparr>
          in (Some key, publishItemsLocked s))"

definition register ::
  "(bytes \<Rightarrow> bool) \<Rightarrow> resolver \<Rightarrow> bytes \<Rightarrow> bytes \<Rightarrow> server \<Rightarrow> address_error goerror \<times> registry_event list \<times> server" where
  "register path_valid resolve sender argument s =
    (case resolveRegistration path_valid resolve sender argument of
      Inl e \<Rightarrow> (Some e, [], s)
    | Inr a \<Rightarrow>
        (case register_locked a s of
          (None, s) \<Rightarrow> (None, [], s)
        | (Some key, s) \<Rightarrow> (None, [ItemAdded key], s)))"

definition removeOwner ::
  "(item_key list \<Rightarrow> item_key list) \<Rightarrow> bytes \<Rightarrow> server \<Rightarrow> item_key list \<times> server" where
  "removeOwner order owner s =
    (let removed = order (map snd (filter (\<lambda>(a, k). ad_owner a = owner) (sv_items s)));
         s' = s\<lparr>sv_items := filter (\<lambda>(a, k). ad_owner a \<noteq> owner) (sv_items s)\<rparr>
     in (removed, if removed \<noteq> [] then publishItemsLocked s' else s'))"

definition NameOwnerChanged :: bytes where
  [const_defs]: "NameOwnerChanged = ''org.freedesktop.DBus.NameOwnerChanged''"

definition handleNameOwnerChanged ::
  "(item_key list \<Rightarrow> item_key list) \<Rightarrow> dsignal option \<Rightarrow> server \<Rightarrow> registry_event list \<times> server" where
  "handleNameOwnerChanged order sg s =
    (case sg of
      None \<Rightarrow> ([], s)
    | Some sg \<Rightarrow>
        if sg_Name sg \<noteq> NameOwnerChanged \<or> length (sg_Body sg) \<noteq> 3 then ([], s)
        else let name = as_string (sg_Body sg ! 0); newOwner = as_string (sg_Body sg ! 2) in
        if newOwner \<noteq> [] then ([], s)
        else if name = BusName then ([], s\<lparr>sv_lost := True\<rparr>)
        else if \<not> isUniqueName name then ([], s)
        else let (removed, s) = removeOwner order name s in (map ItemRemoved removed, s))"

definition registerHost :: "bytes \<Rightarrow> server \<Rightarrow> bool \<times> bool \<times> server" where
  "registerHost service s =
    (if service = [] then (False, False, s)
     else let known = service \<in> set (sv_hosts s);
              s = s\<lparr>sv_hosts := List.insert service (sv_hosts s)\<rparr>;
              first = (\<not> sv_hostRegistered s);
              s = s\<lparr>sv_hostRegistered := True\<rparr>;
              s = (if first then s\<lparr>sv_propHost := True\<rparr> else s)
          in (True, \<not> known, s))"

definition Items :: "server \<Rightarrow> item_key list" where
  "Items s = sort_key ik_Generation (map snd (sv_items s))"

section \<open>The client of an external watcher\<close>

record client =
  cl_items :: "(address, item_key) gomap"
  cl_generation :: uint64
  cl_attached :: bool
  cl_gone :: bool

definition newClient :: client where
  "newClient = \<lparr>cl_items = [], cl_generation = 0, cl_attached = False, cl_gone = False\<rparr>"

definition client_add :: "(bytes \<Rightarrow> bool) \<Rightarrow> resolver \<Rightarrow> bytes \<Rightarrow> client \<Rightarrow> registry_event list \<times> client" where
  "client_add path_valid resolve entry c =
    (case parseRegisteredItem path_valid resolve entry of
      Inl e \<Rightarrow> ([], c)
    | Inr a \<Rightarrow>
        let previous = gm_get (cl_items c) a;
            c = (if previous \<noteq> None then c\<lparr>cl_items := gm_del a (cl_items c)\<rparr> else c);
            c = c\<lparr>cl_generation := cl_generation c + 1\<rparr>;
            key = \<lparr>ik_Owner = ad_owner a, ik_ObjectPath = ad_path a, ik_Generation = cl_generation c\<rparr>;
            c = c\<lparr>cl_items := gm_set a key (cl_items c)\<rparr>
        in ((case previous of None \<Rightarrow> [] | Some k \<Rightarrow> [ItemRemoved k]) @ [ItemAdded key], c))"

definition client_remove :: "(bytes \<Rightarrow> bool) \<Rightarrow> resolver \<Rightarrow> bytes \<Rightarrow> client \<Rightarrow> registry_event list \<times> client" where
  "client_remove path_valid resolve entry c =
    (case parseRegisteredItem path_valid resolve entry of
      Inl e \<Rightarrow> ([], c)
    | Inr a \<Rightarrow>
        let known = gm_get (cl_items c) a; c = c\<lparr>cl_items := gm_del a (cl_items c)\<rparr>
        in (case known of None \<Rightarrow> ([], c) | Some k \<Rightarrow> ([ItemRemoved k], c)))"

definition drain :: "(item_key list \<Rightarrow> item_key list) \<Rightarrow> client \<Rightarrow> item_key list \<times> client" where
  "drain order c = (order (map snd (cl_items c)), c\<lparr>cl_items := []\<rparr>)"

definition client_close :: "(item_key list \<Rightarrow> item_key list) \<Rightarrow> client \<Rightarrow> registry_event list \<times> client" where
  "client_close order c =
    (let attached = cl_attached c; c = c\<lparr>cl_attached := False\<rparr> in
     if \<not> attached then ([], c)
     else let (keys, c) = drain order c in (map ItemRemoved keys, c))"

definition SignalRegistered :: bytes where
  [const_defs]: "SignalRegistered = BusName @ ''.StatusNotifierItemRegistered''"
definition SignalUnregistered :: bytes where
  [const_defs]: "SignalUnregistered = BusName @ ''.StatusNotifierItemUnregistered''"

definition client_handle ::
  "(bytes \<Rightarrow> bool) \<Rightarrow> resolver \<Rightarrow> dsignal option \<Rightarrow> client \<Rightarrow> registry_event list \<times> client" where
  "client_handle path_valid resolve sg c =
    (case sg of
      None \<Rightarrow> ([], c)
    | Some sg \<Rightarrow>
        if sg_Name sg = NameOwnerChanged then
          (if length (sg_Body sg) \<noteq> 3 then ([], c)
           else if as_string (sg_Body sg ! 0) \<noteq> BusName then ([], c)
           else if as_string (sg_Body sg ! 2) = [] then ([], c\<lparr>cl_gone := True\<rparr>)
           else ([], c))
        else if sg_Name sg = SignalRegistered then
          (case sg_Body sg of
            [DString entry] \<Rightarrow> client_add path_valid resolve entry c
          | _ \<Rightarrow> ([], c))
        else if sg_Name sg = SignalUnregistered then
          (case sg_Body sg of
            [DString entry] \<Rightarrow> client_remove path_valid resolve entry c
          | _ \<Rightarrow> ([], c))
        else ([], c))"

text \<open>The entries \<open>attach\<close> reads from the external watcher, added in order.\<close>

fun add_all :: "(bytes \<Rightarrow> bool) \<Rightarrow> resolver \<Rightarrow> bytes list \<Rightarrow> client \<Rightarrow> registry_event list \<times> client" where
  "add_all path_valid resolve [] c = ([], c)"
| "add_all path_valid resolve (entry # entries) c =
    (let (es, c) = client_add path_valid resolve entry c;
         (fs, c) = add_all path_valid resolve entries c
     in (es @ fs, c))"

section \<open>Canonical addresses\<close>

definition canonical :: "(bytes \<Rightarrow> bool) \<Rightarrow> address \<Rightarrow> bool" where
  "canonical path_valid a \<longleftrightarrow> isUniqueName (ad_owner a) \<and> path_valid (ad_path a)"

lemma resolveRegistration_canonical:
  "path_valid DefaultItemPath \<Longrightarrow> resolveRegistration path_valid resolve sender arg = Inr a \<Longrightarrow>
    canonical path_valid a \<and> (HasPrefix arg ''/'' \<longrightarrow> ad_owner a = sender \<and> ad_path a = arg)"
  by (auto simp: resolveRegistration_def canonical_def split: if_splits option.splits)

lemma parseRegisteredItem_canonical:
  "parseRegisteredItem path_valid resolve entry = Inr a \<Longrightarrow> canonical path_valid a"
  by (auto simp: parseRegisteredItem_def canonical_def Let_def split: if_splits option.splits)

text \<open>What the server publishes, a client reads back.\<close>

lemma parse_Address_String:
  assumes "canonical path_valid a" and "HasPrefix (ad_path a) ''/''" and "CHR ''/'' \<notin> set (ad_owner a)"
  shows "parseRegisteredItem path_valid resolve (Address_String a) = Inr a"
proof -
  from assms(2) obtain p where p: "ad_path a = CHR ''/'' # p" by (auto simp: HasPrefix_single)
  have "takeWhile (\<lambda>c. c \<noteq> CHR ''/'') (ad_owner a @ ad_path a) = ad_owner a"
    "dropWhile (\<lambda>c. c \<noteq> CHR ''/'') (ad_owner a @ ad_path a) = ad_path a"
    using assms(3) p by (auto simp: takeWhile_append dropWhile_append)
  with assms(1) p show ?thesis
    by (auto simp: parseRegisteredItem_def Address_String_def canonical_def isUniqueName_def)
qed

section \<open>The contract of a registry\<close>

text \<open>An observer's view and a registry agree on who is live and how far generations have come.\<close>

definition agrees :: "observer \<Rightarrow> (address, item_key) gomap \<Rightarrow> uint64 \<Rightarrow> bool" where
  "agrees ob items newest \<longleftrightarrow> gm_get (ob_live ob) = gm_get items \<and> ob_top ob = newest"

text \<open>
  What the client and the server promise alike: an operation keeps the registry well formed, takes
  at most one generation, and its events lead any observer that agreed before to agree again.
\<close>

locale registry =
  fixes items :: "'s \<Rightarrow> (address, item_key) gomap"
    and newest :: "'s \<Rightarrow> uint64"
    and fair :: "'o \<Rightarrow> bool"
    and oper :: "'o \<Rightarrow> 's \<Rightarrow> registry_event list \<times> 's"
    and inv :: "'s \<Rightarrow> bool"
  assumes keeps: "inv s \<Longrightarrow> fair c \<Longrightarrow> newest s \<noteq> - 1 \<Longrightarrow> inv (snd (oper c s))"
    and one_generation: "newest (snd (oper c s)) = newest s \<or> newest (snd (oper c s)) = newest s + 1"
    and told: "inv s \<Longrightarrow> fair c \<Longrightarrow> newest s \<noteq> - 1 \<Longrightarrow> agrees ob (items s) (newest s) \<Longrightarrow>
      \<exists>ob'. observe (fst (oper c s)) ob = Some ob'
        \<and> agrees ob' (items (snd (oper c s))) (newest (snd (oper c s)))"
begin

fun history :: "'o list \<Rightarrow> 's \<Rightarrow> registry_event list \<times> 's" where
  "history [] s = ([], s)"
| "history (c # cs) s =
    (let (es, s) = oper c s; (fs, s) = history cs s in (es @ fs, s))"

theorem observer_agrees:
  assumes "inv s" and "\<forall>c\<in>set cs. fair c" and "unat (newest s) + length cs < 2 ^ 64"
    and "agrees ob (items s) (newest s)"
  shows "inv (snd (history cs s)) \<and> (\<exists>ob'. observe (fst (history cs s)) ob = Some ob'
    \<and> agrees ob' (items (snd (history cs s))) (newest (snd (history cs s))))"
  using assms
proof (induction cs arbitrary: s ob)
  case Nil
  then show ?case by simp
next
  case (Cons c cs)
  let ?s = "snd (oper c s)"
  have nw: "newest s \<noteq> - 1" using Cons.prems(3) unat64_max by auto
  have "fair c" using Cons.prems(2) by simp
  from told [OF Cons.prems(1) this nw Cons.prems(4)] obtain ob1 where
    ob1: "observe (fst (oper c s)) ob = Some ob1" "agrees ob1 (items ?s) (newest ?s)" by auto
  have "unat (newest s + 1) \<le> Suc (unat (newest s))" by (simp add: unat_word_ariths)
  with one_generation [of c s] Cons.prems(3) have "unat (newest ?s) + length cs < 2 ^ 64" by auto
  with Cons.IH [OF keeps [OF Cons.prems(1) \<open>fair c\<close> nw] _ _ ob1(2)] Cons.prems(2)
  obtain ob2 where "inv (snd (history cs ?s))" "observe (fst (history cs ?s)) ob1 = Some ob2"
    "agrees ob2 (items (snd (history cs ?s))) (newest (snd (history cs ?s)))" by auto
  with ob1 show ?case by (simp add: split_beta observe_append)
qed

end

section \<open>Both registries keep it\<close>

lemma address_eta [simp]: "\<lparr>ad_owner = ad_owner a, ad_path = ad_path a\<rparr> = (a :: address)"
  by (cases a) simp

definition registry_inv :: "(address, item_key) gomap \<Rightarrow> uint64 \<Rightarrow> bool" where
  "registry_inv items newest \<longleftrightarrow> gm_ok items
     \<and> (\<forall>a k. gm_get items a = Some k \<longrightarrow> addr_of k = a \<and> ik_Generation k \<le> newest)"

definition rearranges :: "('a list \<Rightarrow> 'a list) \<Rightarrow> bool" where
  "rearranges order \<longleftrightarrow> (\<forall>xs. mset (order xs) = mset xs)"

lemma rearranges_Nil: "rearranges order \<Longrightarrow> order xs = [] \<longleftrightarrow> xs = []"
  unfolding rearranges_def by (metis mset_zero_iff)

lemma gm_get_filter: "gm_get (filter (\<lambda>(a, k). P a) m) a = (if P a then gm_get m a else None)"
  by (induction m) auto

lemma gm_ok_filter: "gm_ok m \<Longrightarrow> gm_ok (filter Q m)"
  by (simp add: gm_ok_def distinct_map_filter)

lemma gm_get_member: "gm_ok m \<Longrightarrow> (a, k) \<in> set m \<longleftrightarrow> gm_get m a = Some k"
  by (simp add: gm_ok_def map_of_eq_Some_iff)

text \<open>Removing live keys, each once, in any order.\<close>

lemma observe_removed:
  "distinct (map addr_of ks) \<Longrightarrow> \<forall>k\<in>set ks. gm_get (ob_live ob) (addr_of k) = Some k \<Longrightarrow>
    \<exists>ob'. observe (map ItemRemoved ks) ob = Some ob' \<and> ob_top ob' = ob_top ob
      \<and> gm_get (ob_live ob') = (\<lambda>a. if a \<in> addr_of ` set ks then None else gm_get (ob_live ob) a)"
proof (induction ks arbitrary: ob)
  case Nil
  then show ?case by simp
next
  case (Cons k ks)
  let ?ob = "ob\<lparr>ob_live := gm_del (addr_of k) (ob_live ob)\<rparr>"
  have "\<forall>k'\<in>set ks. gm_get (ob_live ?ob) (addr_of k') = Some k'"
  proof
    fix k' assume k': "k' \<in> set ks"
    then have "addr_of k' \<noteq> addr_of k" using Cons.prems(1) by (metis distinct.simps(2) image_eqI list.map(2) set_map)
    with k' Cons.prems(2) show "gm_get (ob_live ?ob) (addr_of k') = Some k'"
      by (simp add: gm_get_del)
  qed
  moreover have "distinct (map addr_of ks)" using Cons.prems(1) by simp
  ultimately have "\<exists>ob'. observe (map ItemRemoved ks) ?ob = Some ob' \<and> ob_top ob' = ob_top ?ob
      \<and> gm_get (ob_live ob') = (\<lambda>a. if a \<in> addr_of ` set ks then None else gm_get (ob_live ?ob) a)"
    by (intro Cons.IH)
  then obtain ob' where ob': "observe (map ItemRemoved ks) ?ob = Some ob'" "ob_top ob' = ob_top ob"
    "gm_get (ob_live ob') = (\<lambda>a. if a \<in> addr_of ` set ks then None else gm_get (ob_live ?ob) a)"
    by (elim exE conjE) simp
  have "observe (map ItemRemoved (k # ks)) ob = Some ob'"
    using Cons.prems(2) ob'(1) by simp
  moreover have "gm_get (ob_live ob') = (\<lambda>a. if a \<in> addr_of ` set (k # ks) then None
      else gm_get (ob_live ob) a)"
    unfolding ob'(3) by (simp add: gm_get_del fun_eq_iff)
  ultimately show ?case using ob'(2) by blast
qed

text \<open>The keys of some of a registry's addresses, and what remains.\<close>

lemma told_removed:
  assumes inv: "registry_inv m t" and ord: "rearranges order" and ob: "agrees ob m t"
  shows "\<exists>ob'. observe (map ItemRemoved (order (map snd (filter (\<lambda>(a, k). P a) m)))) ob = Some ob'
    \<and> agrees ob' (filter (\<lambda>(a, k). \<not> P a) m) t"
proof -
  let ?f = "filter (\<lambda>(a, k). P a) m" and ?ks = "order (map snd (filter (\<lambda>(a, k). P a) m))"
  have ok: "gm_ok m" "gm_ok ?f" using inv gm_ok_filter by (auto simp: registry_inv_def)
  have at: "addr_of k = a" if "(a, k) \<in> set m" for a k
    using inv that ok(1) by (simp add: registry_inv_def gm_get_member)
  then have keys: "map addr_of (map snd ?f) = map fst ?f" by (auto simp: comp_def)
  have mset: "mset ?ks = mset (map snd ?f)" using ord by (simp add: rearranges_def)
  then have "mset (map addr_of ?ks) = mset (map fst ?f)"
    by (metis keys mset_map)
  then have "distinct (map addr_of ?ks)"
    using ok(2) mset_eq_imp_distinct_iff unfolding gm_ok_def by blast
  moreover have sets: "set ?ks = snd ` set ?f" using mset_eq_setD [OF mset] by simp
  then have "\<forall>k\<in>set ?ks. gm_get (ob_live ob) (addr_of k) = Some k"
    using ob at ok(1) by (auto simp: agrees_def gm_get_member [symmetric])
  ultimately obtain ob' where ob': "observe (map ItemRemoved ?ks) ob = Some ob'" "ob_top ob' = t"
    "gm_get (ob_live ob') = (\<lambda>a. if a \<in> addr_of ` set ?ks then None else gm_get (ob_live ob) a)"
    using observe_removed [of ?ks ob] ob by (auto simp: agrees_def)
  have "gm_get (filter (\<lambda>(a, k). \<not> P a) m) a = gm_get (ob_live ob') a" for a
  proof -
    have "gm_get (filter (\<lambda>(a, k). \<not> P a) m) a = (if \<not> P a then gm_get m a else None)"
      using gm_get_filter [of "\<lambda>a. \<not> P a" m a] by simp
    moreover have "a \<in> addr_of ` set ?ks \<longleftrightarrow> P a \<and> gm_get m a \<noteq> None"
      unfolding sets using at ok(1) by (force simp: gm_get_member [symmetric] image_iff)
    ultimately show ?thesis using ob'(3) ob by (auto simp: agrees_def)
  qed
  with ob' show ?thesis by (auto simp: agrees_def fun_eq_iff)
qed

lemma registry_inv_filter: "registry_inv m t \<Longrightarrow> registry_inv (filter (\<lambda>(a, k). P a) m) t"
  using gm_ok_filter by (auto simp: registry_inv_def gm_get_filter split: if_splits)

lemma registry_inv_enter:
  assumes "registry_inv m t" and "t \<noteq> - 1"
  shows "registry_inv (gm_set a \<lparr>ik_Owner = ad_owner a, ik_ObjectPath = ad_path a,
    ik_Generation = t + 1\<rparr> m) (t + 1)"
proof -
  have "ik_Generation k \<le> t + 1" if "gm_get m b = Some k" for b k
    using assms less_next_sequence [of "ik_Generation k" t] that
    by (auto simp: registry_inv_def)
  then show ?thesis using assms by (auto simp: registry_inv_def gm_get_set addr_of_def)
qed

text \<open>A key for a free address, one generation on.\<close>

lemma told_added:
  assumes "registry_inv m t" and "t \<noteq> - 1" and "agrees ob m t" and "gm_get m a = None"
  shows "\<exists>ob'. observe [ItemAdded \<lparr>ik_Owner = ad_owner a, ik_ObjectPath = ad_path a,
      ik_Generation = t + 1\<rparr>] ob = Some ob'
    \<and> agrees ob' (gm_set a \<lparr>ik_Owner = ad_owner a, ik_ObjectPath = ad_path a, ik_Generation = t + 1\<rparr> m)
        (t + 1)"
proof -
  have "\<not> t + 1 \<le> t" using less_next_sequence [OF order_refl assms(2)] by simp
  with assms show ?thesis
    by (auto simp: agrees_def addr_of_def gm_get_set fun_eq_iff)
qed

datatype server_op = SRegister resolver bytes bytes
  | SSignal "item_key list \<Rightarrow> item_key list" "dsignal option" | SHost bytes

fun server_fair :: "server_op \<Rightarrow> bool" where
  "server_fair (SSignal order sg) = rearranges order"
| "server_fair _ = True"

fun server_oper :: "(bytes \<Rightarrow> bool) \<Rightarrow> server_op \<Rightarrow> server \<Rightarrow> registry_event list \<times> server" where
  "server_oper path_valid (SRegister resolve sender arg) s =
    snd (register path_valid resolve sender arg s)"
| "server_oper path_valid (SSignal order sg) s = handleNameOwnerChanged order sg s"
| "server_oper path_valid (SHost service) s = ([], snd (snd (registerHost service s)))"

definition server_inv :: "server \<Rightarrow> bool" where
  "server_inv s \<longleftrightarrow> registry_inv (sv_items s) (sv_generation s)
     \<and> sv_propItems s = sort (map (\<lambda>(a, k). Address_String a) (sv_items s))"

lemma publish_frame_items [simp]:
  "sv_items (publishItemsLocked s) = sv_items s"
  "sv_generation (publishItemsLocked s) = sv_generation s"
  by (simp_all add: publishItemsLocked_def)

lemma server_inv_publish:
  "registry_inv (sv_items s) (sv_generation s) \<Longrightarrow> server_inv (publishItemsLocked s)"
  by (simp add: server_inv_def) (simp add: publishItemsLocked_def)

lemma server_register_cases:
  obtains (unchanged) "snd (register pv resolve sender arg s) = ([], s)"
    | (entered) a where "gm_get (sv_items s) a = None"
        "snd (register pv resolve sender arg s) =
          ([ItemAdded \<lparr>ik_Owner = ad_owner a, ik_ObjectPath = ad_path a, ik_Generation = sv_generation s + 1\<rparr>],
           publishItemsLocked (s\<lparr>sv_generation := sv_generation s + 1,
             sv_items := gm_set a \<lparr>ik_Owner = ad_owner a, ik_ObjectPath = ad_path a,
               ik_Generation = sv_generation s + 1\<rparr> (sv_items s)\<rparr>))"
proof (cases "resolveRegistration pv resolve sender arg")
  case (Inl e)
  with unchanged show ?thesis by (simp add: register_def)
next
  case (Inr a)
  with unchanged entered [of a] show ?thesis
    by (cases "gm_get (sv_items s) a = None") (auto simp: register_def register_locked_def Let_def)
qed

lemma handle_owner_cases:
  obtains (unchanged) lost where "handleNameOwnerChanged order sg s = ([], s\<lparr>sv_lost := lost\<rparr>)"
    | (removed) owner ks where
        "ks = order (map snd (filter (\<lambda>(a, k). ad_owner a = owner) (sv_items s)))"
        "handleNameOwnerChanged order sg s = (map ItemRemoved ks,
          let s' = s\<lparr>sv_items := filter (\<lambda>(a, k). ad_owner a \<noteq> owner) (sv_items s)\<rparr>
          in if ks \<noteq> [] then publishItemsLocked s' else s')"
proof -
  have same: "s = s\<lparr>sv_lost := sv_lost s\<rparr>" by simp
  show ?thesis
  proof (cases "\<exists>owner. handleNameOwnerChanged order sg s =
      (let (ks, s') = removeOwner order owner s in (map ItemRemoved ks, s'))")
    case True
    then show ?thesis using removed by (auto simp: removeOwner_def Let_def)
  next
    case False
    then show ?thesis
      using unchanged [of True] unchanged [of "sv_lost s"] same
      by (auto simp: handleNameOwnerChanged_def Let_def split: option.splits if_splits)
  qed
qed

interpretation served: registry sv_items sv_generation server_fair "server_oper path_valid" server_inv
  for path_valid
proof unfold_locales
  fix s c ob
  show "sv_generation (snd (server_oper path_valid c s)) = sv_generation s
      \<or> sv_generation (snd (server_oper path_valid c s)) = sv_generation s + 1"
  proof (cases c)
    case (SRegister resolve sender arg)
    then show ?thesis
      by (cases rule: server_register_cases [of path_valid resolve sender arg s]) auto
  next
    case (SSignal order sg)
    then show ?thesis
      by (cases rule: handle_owner_cases [of order sg s]) (auto simp: Let_def)
  qed (simp add: registerHost_def Let_def)
  assume inv: "server_inv s" and fair: "server_fair c" and nw: "sv_generation s \<noteq> - 1"
  from inv have reg: "registry_inv (sv_items s) (sv_generation s)" by (simp add: server_inv_def)
  show "server_inv (snd (server_oper path_valid c s))"
  proof (cases c)
    case (SRegister resolve sender arg)
    then show ?thesis
      using inv registry_inv_enter [OF reg nw]
      by (cases rule: server_register_cases [of path_valid resolve sender arg s])
        (auto intro: server_inv_publish)
  next
    case (SSignal order sg)
    then show ?thesis
    proof (cases rule: handle_owner_cases [of order sg s])
      case (unchanged lost)
      with SSignal inv show ?thesis by (simp add: server_inv_def)
    next
      case (removed owner ks)
      have "registry_inv (filter (\<lambda>(a, k). ad_owner a \<noteq> owner) (sv_items s)) (sv_generation s)"
        using reg by (rule registry_inv_filter)
      moreover have "filter (\<lambda>(a, k). ad_owner a \<noteq> owner) (sv_items s) = sv_items s" if "ks = []"
      proof -
        have "rearranges order" using fair SSignal by simp
        then have "filter (\<lambda>(a, k). ad_owner a = owner) (sv_items s) = []"
          using that rearranges_Nil [of order] unfolding removed(1) map_is_Nil_conv by simp
        then show ?thesis unfolding filter_empty_conv filter_id_conv by auto
      qed
      ultimately show ?thesis
        using SSignal removed(2) inv by (auto simp: Let_def server_inv_def publishItemsLocked_def)
    qed
  qed (use inv in \<open>simp add: server_inv_def registerHost_def Let_def\<close>)
  assume ob: "agrees ob (sv_items s) (sv_generation s)"
  show "\<exists>ob'. observe (fst (server_oper path_valid c s)) ob = Some ob'
      \<and> agrees ob' (sv_items (snd (server_oper path_valid c s)))
          (sv_generation (snd (server_oper path_valid c s)))"
  proof (cases c)
    case (SRegister resolve sender arg)
    then show ?thesis
    proof (cases rule: server_register_cases [of path_valid resolve sender arg s])
      case unchanged
      with SRegister ob show ?thesis by simp
    next
      case (entered a)
      with SRegister told_added [OF reg nw ob entered(1)] show ?thesis by simp
    qed
  next
    case (SSignal order sg)
    then show ?thesis
    proof (cases rule: handle_owner_cases [of order sg s])
      case (unchanged lost)
      with SSignal ob show ?thesis by simp
    next
      case (removed owner ks)
      with SSignal fair told_removed [OF reg _ ob, of order "\<lambda>a. ad_owner a = owner"]
      show ?thesis by (auto simp: Let_def)
    qed
  qed (use ob in \<open>simp add: registerHost_def Let_def\<close>)
qed

datatype client_op = CSignal resolver "dsignal option" | CEntry resolver bytes
  | CClose "item_key list \<Rightarrow> item_key list"

fun client_fair :: "client_op \<Rightarrow> bool" where
  "client_fair (CClose order) = rearranges order"
| "client_fair _ = True"

fun client_oper :: "(bytes \<Rightarrow> bool) \<Rightarrow> client_op \<Rightarrow> client \<Rightarrow> registry_event list \<times> client" where
  "client_oper path_valid (CSignal resolve sg) c = client_handle path_valid resolve sg c"
| "client_oper path_valid (CEntry resolve entry) c = client_add path_valid resolve entry c"
| "client_oper path_valid (CClose order) c = client_close order c"

definition client_inv :: "client \<Rightarrow> bool" where
  "client_inv c \<longleftrightarrow> registry_inv (cl_items c) (cl_generation c)"

text \<open>One step of a client: nothing, a registration over what was there, a removal, or the end.\<close>

definition client_told :: "client \<Rightarrow> registry_event list \<times> client \<Rightarrow> bool" where
  "client_told c r \<longleftrightarrow> (cl_generation (snd r) = cl_generation c \<or> cl_generation (snd r) = cl_generation c + 1)
     \<and> (client_inv c \<longrightarrow> cl_generation c \<noteq> - 1 \<longrightarrow> client_inv (snd r)
        \<and> (\<forall>ob. agrees ob (cl_items c) (cl_generation c) \<longrightarrow>
             (\<exists>ob'. observe (fst r) ob = Some ob' \<and> agrees ob' (cl_items (snd r)) (cl_generation (snd r)))))"

lemma registry_inv_del: "registry_inv m t \<Longrightarrow> registry_inv (gm_del a m) t"
  by (auto simp: registry_inv_def gm_get_del)

lemma told_del:
  assumes "registry_inv m t" and "gm_get m a = Some k" and "agrees ob m t"
  shows "\<exists>ob'. observe [ItemRemoved k] ob = Some ob' \<and> agrees ob' (gm_del a m) t"
  using assms by (auto simp: registry_inv_def agrees_def gm_get_del fun_eq_iff)

lemma client_told_add: "client_told c (client_add pv resolve entry c)"
proof (cases "parseRegisteredItem pv resolve entry")
  case (Inl e)
  then show ?thesis by (simp add: client_told_def client_add_def)
next
  case (Inr a)
  let ?t = "cl_generation c" and ?m = "gm_del a (cl_items c)"
  let ?k = "\<lparr>ik_Owner = ad_owner a, ik_ObjectPath = ad_path a, ik_Generation = ?t + 1\<rparr>"
  let ?es = "case gm_get (cl_items c) a of None \<Rightarrow> [] | Some k \<Rightarrow> [ItemRemoved k]"
  have step: "client_add pv resolve entry c =
      (?es @ [ItemAdded ?k], c\<lparr>cl_generation := ?t + 1, cl_items := gm_set a ?k
        (if gm_get (cl_items c) a = None then cl_items c else ?m)\<rparr>)"
    using Inr by (auto simp: client_add_def Let_def)
  let ?n = "if gm_get (cl_items c) a = None then cl_items c else ?m"
  have gone: "gm_get ?n a = None" by (simp add: gm_get_del)
  have reg: "registry_inv ?n ?t" if "client_inv c"
    using that registry_inv_del by (simp add: client_inv_def)
  have told: "\<exists>ob'. observe (?es @ [ItemAdded ?k]) ob = Some ob' \<and> agrees ob' (gm_set a ?k ?n) (?t + 1)"
    if inv: "client_inv c" and nw: "?t \<noteq> - 1" and ob: "agrees ob (cl_items c) ?t" for ob
  proof -
    have "\<exists>ob1. observe ?es ob = Some ob1 \<and> agrees ob1 ?n ?t"
    proof (cases "gm_get (cl_items c) a")
      case None
      with ob show ?thesis by simp
    next
      case (Some k)
      with told_del [of "cl_items c" ?t a k ob] inv ob show ?thesis by (simp add: client_inv_def)
    qed
    then obtain ob1 where "observe ?es ob = Some ob1" "agrees ob1 ?n ?t" by blast
    with told_added [OF reg [OF inv] nw _ gone] show ?thesis unfolding observe_append by simp
  qed
  show ?thesis
    unfolding step client_told_def
    using told registry_inv_enter [OF reg] by (simp add: client_inv_def)
qed

lemma client_told_remove: "client_told c (client_remove pv resolve entry c)"
proof (cases "parseRegisteredItem pv resolve entry")
  case (Inl e)
  then show ?thesis by (simp add: client_told_def client_remove_def)
next
  case (Inr a)
  show ?thesis
  proof (cases "gm_get (cl_items c) a")
    case None
    then have "agrees ob (gm_del a (cl_items c)) t" if "agrees ob (cl_items c) t" for ob t
      using that by (simp add: agrees_def gm_get_del fun_eq_iff)
    with None Inr registry_inv_del show ?thesis
      by (simp add: client_told_def client_remove_def Let_def client_inv_def)
  next
    case (Some k)
    with Inr have step: "client_remove pv resolve entry c =
        ([ItemRemoved k], c\<lparr>cl_items := gm_del a (cl_items c)\<rparr>)"
      by (simp add: client_remove_def Let_def)
    show ?thesis
      unfolding step client_told_def
      using told_del [OF _ Some] registry_inv_del by (simp add: client_inv_def)
  qed
qed

lemma client_told_close: "rearranges order \<Longrightarrow> client_told c (client_close order c)"
  using told_removed [of "cl_items c" "cl_generation c" order _ "\<lambda>a. True"]
  by (auto simp: client_told_def client_close_def drain_def Let_def client_inv_def registry_inv_def)

lemma client_told_handle: "client_told c (client_handle pv resolve sg c)"
proof -
  have "client_told c ([], c\<lparr>cl_gone := gone\<rparr>)" for gone
    by (simp add: client_told_def client_inv_def)
  then have "client_told c ([], c)" "client_told c ([], c\<lparr>cl_gone := True\<rparr>)"
    by (metis client.surjective client.update_convs(4) client.select_convs(4), blast)
  then show ?thesis
    by (auto simp: client_handle_def Let_def client_told_add client_told_remove
      split: option.split list.split dval.split)
qed

lemma client_told_oper: "client_fair op \<Longrightarrow> client_told c (client_oper pv op c)"
  by (cases op) (simp_all add: client_told_handle client_told_add client_told_close)

lemma client_one_generation:
  "cl_generation (snd (client_oper pv op c)) = cl_generation c
    \<or> cl_generation (snd (client_oper pv op c)) = cl_generation c + 1"
proof (cases op)
  case (CClose order)
  then show ?thesis by (simp add: client_close_def drain_def Let_def)
qed (use client_told_handle client_told_add in \<open>auto simp: client_told_def\<close>)

interpretation attached: registry cl_items cl_generation client_fair "client_oper path_valid" client_inv
  for path_valid
  using client_told_oper client_one_generation
  by unfold_locales (auto simp: client_told_def)

end
