(* ===== verification/Watcher_Run.thy ===== *)
theory Watcher_Run
  imports Watcher
begin

text \<open>
  The loop that keeps one watcher relationship alive (\<open>Watcher.Run\<close>, \<open>serveOnce\<close>), the steps by
  which a server takes the watcher name (\<open>Server.Serve\<close>, \<open>Server.Close\<close>), and the two places where
  the observer's contract does not survive: announcements made outside the lock, and a server
  that starts over.
\<close>

section \<open>Taking and releasing the name\<close>

datatype bus_part = Exported | Properties | MatchRule | SignalChannel | Named

datatype serve_error = ServerMissing | AlreadyServed | ExportFailed | PropertiesFailed | WatchFailed
  | AcquireFailed

text \<open>
  What \<open>Serve\<close> asks of the bus, in its order; \<open>bus\<close> answers each request, for \<open>Named\<close> whether the
  reply was the primary owner. A failure undoes the parts held so far, in the code's order, and
  the result lists the parts this connection is left with.
\<close>

definition unexport :: "bus_part set \<Rightarrow> bus_part set" where
  "unexport held = held - {Exported, Properties}"

definition Serve :: "(bus_part \<Rightarrow> bool) \<Rightarrow> server \<Rightarrow> serve_error goerror \<times> bus_part set \<times> server" where
  "Serve bus s =
    (if sv_served s then (Some AlreadyServed, {}, s)
     else if \<not> bus Exported then (Some ExportFailed, {}, s)
     else let held = {Exported} in
     if \<not> bus Properties then (Some PropertiesFailed, held - {Exported}, s)
     else let held = insert Properties held in
     if \<not> bus MatchRule then (Some WatchFailed, unexport held, s)
     else let held = insert SignalChannel (insert MatchRule held) in
     if \<not> bus Named then (Some AcquireFailed, unexport (held - {SignalChannel} - {MatchRule}), s)
     else (None, insert Named held, s\<lparr>sv_served := True\<rparr>))"

definition Server_Close :: "bus_part set \<Rightarrow> server \<Rightarrow> bus_part set \<times> registry_event list \<times> server" where
  "Server_Close held s =
    (let served = sv_served s; s = s\<lparr>sv_served := False\<rparr> in
     if \<not> served then (held, [], s)
     else (unexport (held - {SignalChannel} - {MatchRule} - {Named}), [], s))"

lemma Serve_fails_clean: "fst (Serve bus s) \<noteq> None \<Longrightarrow> snd (Serve bus s) = ({}, s)"
  by (auto simp: Serve_def Let_def unexport_def split: if_splits)

lemma Serve_Close:
  "Serve bus s = (None, held, s') \<Longrightarrow>
    held = UNIV \<and> Server_Close held s' = ({}, [], s)"
proof -
  have all: "{Exported, Properties, MatchRule, SignalChannel, Named} = UNIV"
    using bus_part.exhaust by auto
  assume "Serve bus s = (None, held, s')"
  then show ?thesis
    using all by (auto simp: Serve_def Let_def Server_Close_def unexport_def split: if_splits)
qed

section \<open>The loop\<close>

datatype Mode = ModeStopped | ModeOwner | ModeAttached

text \<open>A \<open>time.Duration\<close> in nanoseconds; twice the largest backoff is far below \<open>2 ^ 63\<close>.\<close>

type_synonym duration = int

definition initialBackoff :: duration where [const_defs]: "initialBackoff = 50000000"
definition maxBackoff :: duration where [const_defs]: "maxBackoff = 5000000000"

text \<open>
  One turn of the loop as the world answers it: whether the context is already cancelled, how
  \<open>Serve\<close> and \<open>attach\<close> fare, whether a working relationship ends by cancellation (otherwise it is
  lost), whether the context is cancelled by the time a failed attempt has returned, and whether
  it is cancelled during the sleep.
\<close>

record turn =
  tn_cancelled :: bool
  tn_serves :: bool
  tn_attaches :: bool
  tn_ends :: bool
  tn_late :: bool
  tn_asleep :: bool

datatype run_error = Cancelled | AttachFailed

text \<open>\<open>serveOnce\<close>: progress, error, and the modes stored, the deferred one last.\<close>

definition serveOnce :: "turn \<Rightarrow> bool \<times> run_error goerror \<times> Mode list" where
  "serveOnce t =
    (if tn_serves t then (True, if tn_ends t then Some Cancelled else None, [ModeOwner, ModeStopped])
     else if \<not> tn_attaches t then (False, Some AttachFailed, [])
     else (True, if tn_ends t then Some Cancelled else None, [ModeAttached, ModeStopped]))"

definition ctx_done :: "turn \<Rightarrow> bool" where
  "ctx_done t \<longleftrightarrow> (if tn_serves t \<or> tn_attaches t then tn_ends t else tn_late t)"

record loop =
  lp_mode :: Mode
  lp_backoff :: duration
  lp_slept :: "duration list"

text \<open>\<open>Left\<close> is a return of \<open>Run\<close>, \<open>Right\<close> the state at the head of the next turn.\<close>

definition run_turn :: "turn \<Rightarrow> loop \<Rightarrow> loop + loop" where
  "run_turn t l =
    (if tn_cancelled t then Inl (l\<lparr>lp_mode := ModeStopped\<rparr>)
     else let (progressed, err, modes) = serveOnce t;
              l = fold (\<lambda>m l. l\<lparr>lp_mode := m\<rparr>) modes l
     in if err \<noteq> None \<and> ctx_done t then Inl (l\<lparr>lp_mode := ModeStopped\<rparr>)
     else if progressed then Inr (l\<lparr>lp_backoff := initialBackoff\<rparr>)
     else let l = l\<lparr>lp_slept := lp_slept l @ [lp_backoff l]\<rparr>
     in if tn_asleep t then Inl (l\<lparr>lp_mode := ModeStopped\<rparr>)
     else let doubled = lp_backoff l * 2
     in Inr (l\<lparr>lp_backoff := (if doubled > maxBackoff then maxBackoff else doubled)\<rparr>))"

fun Run :: "turn list \<Rightarrow> loop \<Rightarrow> loop + loop" where
  "Run [] l = Inr l"
| "Run (t # ts) l = (case run_turn t l of Inl l' \<Rightarrow> Inl l' | Inr l' \<Rightarrow> Run ts l')"

definition started_loop :: loop where
  "started_loop = \<lparr>lp_mode = ModeStopped, lp_backoff = initialBackoff, lp_slept = []\<rparr>"

fun outcome :: "'a + 'a \<Rightarrow> 'a" where
  "outcome (Inl x) = x" | "outcome (Inr x) = x"

definition backoff :: "nat \<Rightarrow> duration" where
  "backoff n = min maxBackoff (initialBackoff * 2 ^ n)"

lemma backoff_Suc: "(if backoff n * 2 > maxBackoff then maxBackoff else backoff n * 2) = backoff (Suc n)"
  by (auto simp: backoff_def const_defs min_def)

text \<open>Every turn at whose head the loop stands is in mode stopped; the relationship's own modes
  are only seen inside \<open>serveOnce\<close>.\<close>

definition failed :: "turn \<Rightarrow> bool" where
  "failed t \<longleftrightarrow> \<not> tn_cancelled t \<and> \<not> tn_serves t \<and> \<not> tn_attaches t \<and> \<not> tn_late t \<and> \<not> tn_asleep t"

definition progress :: "turn \<Rightarrow> bool" where
  "progress t \<longleftrightarrow> \<not> tn_cancelled t \<and> (tn_serves t \<or> tn_attaches t) \<and> \<not> tn_ends t"

lemma run_turn_returns:
  "\<not> progress t \<Longrightarrow> \<not> failed t \<Longrightarrow> \<exists>l'. run_turn t l = Inl l' \<and> lp_mode l' = ModeStopped
    \<and> lp_slept l' = lp_slept l @
      (if \<not> tn_cancelled t \<and> \<not> tn_serves t \<and> \<not> tn_attaches t \<and> \<not> tn_late t then [lp_backoff l] else [])"
  by (auto simp: run_turn_def serveOnce_def ctx_done_def progress_def failed_def Let_def
    split: if_splits)

lemma run_turn_cases:
  obtains (returns) l' where "run_turn t l = Inl l'" "lp_mode l' = ModeStopped" "\<not> progress t" "\<not> failed t"
      "lp_slept l' = lp_slept l \<or> lp_slept l' = lp_slept l @ [lp_backoff l]"
    | (progresses) "progress t" "\<not> failed t"
        "run_turn t l = Inr (l\<lparr>lp_mode := ModeStopped, lp_backoff := initialBackoff\<rparr>)"
    | (fails) "failed t" "\<not> progress t"
        "run_turn t l = Inr (l\<lparr>lp_slept := lp_slept l @ [lp_backoff l],
          lp_backoff := if lp_backoff l * 2 > maxBackoff then maxBackoff else lp_backoff l * 2\<rparr>)"
proof -
  consider "progress t" | "failed t" | "\<not> progress t" "\<not> failed t" by blast
  then show ?thesis
  proof cases
    case 1
    with progresses show ?thesis
      by (auto simp: run_turn_def serveOnce_def ctx_done_def progress_def failed_def)
  next
    case 2
    with fails show ?thesis
      by (auto simp: run_turn_def serveOnce_def ctx_done_def progress_def failed_def Let_def)
  next
    case 3
    with run_turn_returns [of t l] returns show ?thesis by (auto split: if_splits)
  qed
qed


lemma run_turn_not_asleep: "run_turn t l = Inr l' \<Longrightarrow> lp_mode l = ModeStopped \<Longrightarrow> lp_mode l' = ModeStopped"
  by (cases rule: run_turn_cases [of t l]) auto

text \<open>The sleeps of a run: within a row of failed attempts the n-th is the n-th backoff, and a
  working relationship starts the row again.\<close>

fun sleeps :: "nat \<Rightarrow> turn list \<Rightarrow> duration list" where
  "sleeps n [] = []"
| "sleeps n (t # ts) =
    (if progress t then sleeps 0 ts
     else if failed t then backoff n # sleeps (Suc n) ts
     else if \<not> tn_cancelled t \<and> \<not> tn_serves t \<and> \<not> tn_attaches t \<and> \<not> tn_late t then [backoff n]
     else [])"

lemma Run_sleeps_from:
  "lp_backoff l = backoff n \<Longrightarrow> lp_slept (outcome (Run ts l)) = lp_slept l @ sleeps n ts"
proof (induction ts arbitrary: l n)
  case Nil
  then show ?case by simp
next
  case (Cons t ts)
  consider "progress t" | "failed t" | "\<not> progress t" "\<not> failed t" by blast
  then show ?case
  proof cases
    case 1
    with Cons.IH [of "l\<lparr>lp_mode := ModeStopped, lp_backoff := initialBackoff\<rparr>" 0] show ?thesis
      by (cases rule: run_turn_cases [of t l]) (auto simp: backoff_def const_defs)
  next
    case 2
    then have "\<not> progress t" by (auto simp: failed_def progress_def)
    with 2 have "run_turn t l = Inr (l\<lparr>lp_slept := lp_slept l @ [lp_backoff l], lp_backoff := backoff (Suc n)\<rparr>)"
      unfolding backoff_Suc [symmetric] Cons.prems [symmetric]
      by (cases rule: run_turn_cases [of t l]) blast+
    with 2 \<open>\<not> progress t\<close> Cons.prems Cons.IH [of "l\<lparr>lp_slept := lp_slept l @ [lp_backoff l],
        lp_backoff := backoff (Suc n)\<rparr>" "Suc n"]
    show ?thesis by simp
  next
    case 3
    with run_turn_returns [of t l] Cons.prems show ?thesis by auto
  qed
qed

lemma sleeps_bounded: "d \<in> set (sleeps n ts) \<Longrightarrow> initialBackoff \<le> d \<and> d \<le> maxBackoff"
proof (induction n ts rule: sleeps.induct)
  case (2 n t ts)
  have "initialBackoff \<le> backoff n \<and> backoff n \<le> maxBackoff"
    by (auto simp: backoff_def const_defs)
  with 2 show ?case by (auto split: if_splits)
qed simp

section \<open>Where the contract fails\<close>

text \<open>
  \<open>register\<close> runs on a bus handler's goroutine and announces after it has released the lock; the
  departure of an owner is handled on the pump's. \<open>regs\<close> holds the announcements of handlers that
  are past the lock, \<open>pump\<close> those the pump has still to make, \<open>told\<close> what the observer has seen.
\<close>

inductive server_race ::
  "(bytes \<Rightarrow> bool) \<Rightarrow> server \<Rightarrow> item_key list \<Rightarrow> registry_event list \<Rightarrow> registry_event list \<Rightarrow> bool" for path_valid where
  opens: "server_race path_valid NewServer [] [] []"
| enters: "server_race path_valid s regs pump told \<Longrightarrow>
    resolveRegistration path_valid resolve sender arg = Inr a \<Longrightarrow>
    register_locked a s = (Some k, s') \<Longrightarrow> server_race path_valid s' (regs @ [k]) pump told"
| leaves: "server_race path_valid s regs [] told \<Longrightarrow>
    handleNameOwnerChanged order sg s = (es, s') \<Longrightarrow> rearranges order \<Longrightarrow>
    server_race path_valid s' regs es told"
| tells_added: "server_race path_valid s (regs @ k # regs') pump told \<Longrightarrow>
    server_race path_valid s (regs @ regs') pump (told @ [ItemAdded k])"
| tells_removed: "server_race path_valid s regs (e # pump) told \<Longrightarrow>
    server_race path_valid s regs pump (told @ [e])"

definition departed :: "bytes \<Rightarrow> dsignal" where
  "departed name = \<lparr>sg_Sender = ''org.freedesktop.DBus'', sg_Path = ''/org/freedesktop/DBus'',
     sg_Name = NameOwnerChanged, sg_Body = [DString name, DString name, DString []]\<rparr>"

definition new_observer :: observer where "new_observer = \<lparr>ob_live = [], ob_top = 0\<rparr>"

lemma rearranges_same: "rearranges (\<lambda>xs. xs)"
  by (simp add: rearranges_def)

text \<open>A registration that has entered and whose owner leaves before it is announced.\<close>

lemma race_overtakes:
  assumes "isUniqueName name" and "path_valid path" and "HasPrefix path ''/''" and "name \<noteq> BusName"
  shows "\<exists>s. server_race path_valid s [] []
      [ItemRemoved \<lparr>ik_Owner = name, ik_ObjectPath = path, ik_Generation = 1\<rparr>,
       ItemAdded \<lparr>ik_Owner = name, ik_ObjectPath = path, ik_Generation = 1\<rparr>] \<and> sv_items s = []"
proof -
  let ?a = "\<lparr>ad_owner = name, ad_path = path\<rparr>"
  let ?k = "\<lparr>ik_Owner = name, ik_ObjectPath = path, ik_Generation = 1\<rparr>"
  have arg: "path \<noteq> []" using assms(3) by (auto simp: HasPrefix_def)
  have "resolveRegistration path_valid (\<lambda>_. None) name path = Inr ?a"
    using assms arg by (simp add: resolveRegistration_def)
  moreover have "register_locked ?a NewServer =
      (Some ?k, publishItemsLocked (NewServer\<lparr>sv_generation := 1, sv_items := [(?a, ?k)]\<rparr>))"
    by (simp add: register_locked_def NewServer_def Let_def)
  ultimately have "server_race path_valid
      (publishItemsLocked (NewServer\<lparr>sv_generation := 1, sv_items := [(?a, ?k)]\<rparr>)) [?k] [] []"
    using enters [OF opens] by fastforce
  then have race: "server_race path_valid (snd (handleNameOwnerChanged (\<lambda>xs. xs) (Some (departed name))
      (publishItemsLocked (NewServer\<lparr>sv_generation := 1, sv_items := [(?a, ?k)]\<rparr>)))) [?k]
      (fst (handleNameOwnerChanged (\<lambda>xs. xs) (Some (departed name))
      (publishItemsLocked (NewServer\<lparr>sv_generation := 1, sv_items := [(?a, ?k)]\<rparr>)))) []"
    by (rule leaves [OF _ surjective_pairing rearranges_same])
  have "handleNameOwnerChanged (\<lambda>xs. xs) (Some (departed name))
      (publishItemsLocked (NewServer\<lparr>sv_generation := 1, sv_items := [(?a, ?k)]\<rparr>)) =
    ([ItemRemoved ?k], publishItemsLocked (NewServer\<lparr>sv_generation := 1, sv_items := []\<rparr>))"
    using assms by (simp add: handleNameOwnerChanged_def departed_def removeOwner_def Let_def
      publishItemsLocked_def NewServer_def as_string_def)
  with race have "server_race path_valid (publishItemsLocked (NewServer\<lparr>sv_generation := 1, sv_items := []\<rparr>))
      [?k] [ItemRemoved ?k] []" by simp
  from tells_removed [OF this]
  have "server_race path_valid (publishItemsLocked (NewServer\<lparr>sv_generation := 1, sv_items := []\<rparr>))
      ([] @ ?k # []) [] [ItemRemoved ?k]" by simp
  from tells_added [OF this] show ?thesis
    by (intro exI [of _ "publishItemsLocked (NewServer\<lparr>sv_generation := 1, sv_items := []\<rparr>)"]) simp
qed

text \<open>A new server starts its generations over.\<close>

lemma restarted_generation:
  "register path_valid resolve sender arg NewServer = (None, [ItemAdded k], s') \<Longrightarrow> ik_Generation k = 1"
  by (auto simp: register_def register_locked_def NewServer_def Let_def split: sum.splits)

lemma restarted_refused:
  assumes "register path_valid resolve sender arg NewServer = (None, [ItemAdded k], s')" and "1 \<le> ob_top ob"
  shows "observe [ItemAdded k] ob = None"
  using restarted_generation [OF assms(1)] assms(2) by simp

lemma restarted_ignored:
  assumes "register path_valid resolve sender arg NewServer = (None, [ItemAdded k], s')"
    and "gm_get (ow_items (fst st)) (addr_of k) = Some r" and "1 \<le> ik_Generation (rc_key r)"
  shows "Owner_Add mar send k st = st"
  using restarted_generation [OF assms(1)] assms by (intro Owner_Add_stale) auto

end
