(* ===== verification/Ownership.thy ===== *)
theory Ownership
  imports Prelude
begin

text \<open>
  The process identity behind an item, \<open>internal/ownership/ownership.go\<close>: how a record is
  established from the bus and \<open>/proc\<close>, how it is rechecked, and when a process counts as alive.
  The bus answers and the contents of \<open>/proc/<pid>/stat\<close> are arguments; the parsing is modelled
  byte by byte. \<open>strings.Fields\<close> is given for the ASCII text the kernel prints after the command
  name.
\<close>

section \<open>Records\<close>

record own_record =
  own_UID :: uint32
  own_PID :: int
  own_StartTime :: uint64

definition zero_record :: own_record where
  "zero_record = \<lparr>own_UID = 0, own_PID = 0, own_StartTime = 0\<rparr>"

datatype own_error = ErrUnavailable | UIDChanged uint32 uint32 | PIDChanged int int | Recycled int

definition Verify :: "own_record \<Rightarrow> own_record \<Rightarrow> own_error goerror" where
  "Verify recorded current =
    (if own_PID recorded = 0 \<or> own_PID current = 0 then Some ErrUnavailable
     else if own_UID recorded \<noteq> own_UID current then
       Some (UIDChanged (own_UID recorded) (own_UID current))
     else if own_PID recorded \<noteq> own_PID current then
       Some (PIDChanged (own_PID recorded) (own_PID current))
     else if own_StartTime recorded \<noteq> own_StartTime current then Some (Recycled (own_PID recorded))
     else None)"

definition SameUser :: "uint32 \<Rightarrow> own_record \<Rightarrow> bool" where
  "SameUser serviceUID r \<longleftrightarrow> own_PID r \<noteq> 0 \<and> own_UID r = serviceUID"

lemma Verify_None: "Verify r c = None \<longleftrightarrow> c = r \<and> own_PID r \<noteq> 0"
  by (cases r; cases c) (auto simp: Verify_def)

section \<open>The start time\<close>

text \<open>\<open>strings.LastIndex\<close>\<close>

fun LastIndex :: "bytes \<Rightarrow> bytes \<Rightarrow> nat option" where
  "LastIndex [] pat = (if pat = [] then Some 0 else None)"
| "LastIndex (c # cs) pat =
    (case LastIndex cs pat of
      Some i \<Rightarrow> Some (Suc i)
    | None \<Rightarrow> if take (length pat) (c # cs) = pat then Some 0 else None)"

definition is_space :: "char \<Rightarrow> bool" where
  "is_space c \<longleftrightarrow> c \<in> {CHR '' '', CHR 0x09, CHR 0x0A, CHR 0x0B, CHR 0x0C, CHR 0x0D}"

function Fields :: "bytes \<Rightarrow> bytes list" where
  "Fields s =
    (let s = dropWhile is_space s in
     if s = [] then [] else takeWhile (\<lambda>c. \<not> is_space c) s # Fields (dropWhile (\<lambda>c. \<not> is_space c) s))"
  by pat_completeness auto
termination
proof (relation "measure length")
  fix s :: bytes and t
  assume t: "t = dropWhile is_space s" "t \<noteq> []"
  then have "\<not> is_space (hd t)" using hd_dropWhile by blast
  then have "length (dropWhile (\<lambda>c. \<not> is_space c) t) < length t"
    using t(2) by (cases t) (simp_all add: le_imp_less_Suc length_dropWhile_le)
  also have "length t \<le> length s" unfolding t(1) by (rule length_dropWhile_le)
  finally show "(dropWhile (\<lambda>c. \<not> is_space c) t, s) \<in> measure length" by simp
qed simp

declare Fields.simps [simp del]

definition is_digit :: "char \<Rightarrow> bool" where
  "is_digit c \<longleftrightarrow> 48 \<le> byte_val c \<and> byte_val c \<le> 57"

definition digits_value :: "bytes \<Rightarrow> nat" where
  "digits_value s = foldl (\<lambda>n c. n * 10 + (byte_val c - 48)) 0 s"

text \<open>\<open>strconv.ParseUint(s, 10, 64)\<close>\<close>

definition ParseUint :: "bytes \<Rightarrow> uint64 option" where
  "ParseUint s =
    (if s = [] \<or> \<not> list_all is_digit s then None
     else if digits_value s \<ge> 18446744073709551616 then None
     else Some (of_nat (digits_value s)))"

definition readStartTime :: "bytes option \<Rightarrow> uint64 option" where
  "readStartTime stat =
    (case stat of
      None \<Rightarrow> None
    | Some text \<Rightarrow>
        (case LastIndex text '') '' of
          None \<Rightarrow> None
        | Some end \<Rightarrow>
            let fields = Fields (drop (end + 2) text) in
            if length fields < 20 then None else ParseUint (fields ! 19)))"

text \<open>
  \<open>Inspect\<close>: \<open>user\<close> and \<open>process\<close> are the bus daemon's answers, \<open>proc\<close> the contents of a process's
  \<open>stat\<close>.
\<close>

definition Inspect ::
  "(bytes \<Rightarrow> uint32 option) \<Rightarrow> (bytes \<Rightarrow> uint32 option) \<Rightarrow> (int \<Rightarrow> bytes option) \<Rightarrow> bytes \<Rightarrow>
    own_error + own_record" where
  "Inspect user process proc owner =
    (if owner = [] then Inl ErrUnavailable
     else case user owner of
       None \<Rightarrow> Inl ErrUnavailable
     | Some uid \<Rightarrow>
         (case process owner of
           None \<Rightarrow> Inl ErrUnavailable
         | Some pid \<Rightarrow>
             if pid = 0 then Inl ErrUnavailable
             else case readStartTime (proc (uint pid)) of
               None \<Rightarrow> Inl ErrUnavailable
             | Some start \<Rightarrow> Inr \<lparr>own_UID = uid, own_PID = uint pid, own_StartTime = start\<rparr>))"

definition Alive :: "(int \<Rightarrow> bytes option) \<Rightarrow> own_record \<Rightarrow> bool" where
  "Alive proc r =
    (if own_PID r = 0 then False
     else case readStartTime (proc (own_PID r)) of
       None \<Rightarrow> False
     | Some start \<Rightarrow> start = own_StartTime r)"

lemma uint_positive: "(w :: uint32) \<noteq> 0 \<Longrightarrow> 0 < uint w"
  using uint_0_iff [of w] uint_ge_0 [of w] by linarith

lemma Inspect_PID: "Inspect user process proc owner = Inr r \<Longrightarrow> 0 < own_PID r"
  using uint_positive by (auto simp: Inspect_def split: if_splits option.splits)

lemma Inspect_Alive: "Inspect user process proc owner = Inr r \<Longrightarrow> Alive proc r"
  using Inspect_PID [of user process proc owner r]
  by (auto simp: Inspect_def Alive_def split: if_splits option.splits)

section \<open>What the parser reads\<close>

lemma LastIndex_absent:
  "CHR '')'' \<notin> set s \<Longrightarrow> LastIndex s '') '' = None"
  by (induction s) auto

text \<open>Whatever stands before it, the last mark is found.\<close>

lemma LastIndex_last:
  "CHR '')'' \<notin> set s \<Longrightarrow> LastIndex (pre @ '') '' @ s) '') '' = Some (length pre)"
  by (induction pre) (simp_all add: LastIndex_absent)

definition blank_join :: "bytes list \<Rightarrow> bytes" where
  "blank_join fs = concat (map (\<lambda>f. f @ '' '') fs)"

lemma Fields_blank: "is_space c \<Longrightarrow> Fields (c # s) = Fields s"
  by (subst (1 2) Fields.simps) simp

lemma Fields_Cons:
  assumes "f \<noteq> []" and "\<forall>c\<in>set f. \<not> is_space c"
  shows "Fields (f @ CHR '' '' # s) = f # Fields s"
proof -
  have sp: "is_space CHR '' ''" by (simp add: is_space_def)
  have "dropWhile is_space (f @ CHR '' '' # s) = f @ CHR '' '' # s"
    using assms by (cases f) auto
  moreover have "takeWhile (\<lambda>c. \<not> is_space c) (f @ CHR '' '' # s) = f"
    "dropWhile (\<lambda>c. \<not> is_space c) (f @ CHR '' '' # s) = CHR '' '' # s"
    using assms sp by (simp_all add: takeWhile_append dropWhile_append)
  ultimately show ?thesis
    using assms(1) by (subst Fields.simps) (simp add: Let_def Fields_blank [OF sp])
qed

lemma Fields_blank_join:
  assumes "\<forall>f\<in>set fs. f \<noteq> [] \<and> (\<forall>c\<in>set f. \<not> is_space c)"
  shows "Fields (blank_join fs @ s) = fs @ Fields s"
  using assms by (induction fs) (simp_all add: blank_join_def Fields_Cons)

text \<open>Whatever the command name holds, spaces and parentheses too, field 22 is read.\<close>

lemma readStartTime_line:
  assumes "\<forall>f\<in>set fs. f \<noteq> [] \<and> (\<forall>c\<in>set f. \<not> is_space c \<and> c \<noteq> CHR '')'')"
    and "20 \<le> length fs"
  shows "readStartTime (Some (pid @ '' ('' @ comm @ '') '' @ blank_join fs)) = ParseUint (fs ! 19)"
proof -
  have "CHR '')'' \<notin> set (blank_join fs)"
    using assms(1) by (auto simp: blank_join_def)
  from LastIndex_last [OF this, of "pid @ '' ('' @ comm"]
  have "LastIndex (pid @ '' ('' @ comm @ '') '' @ blank_join fs) '') ''
      = Some (length (pid @ '' ('' @ comm))" by simp
  moreover have "drop (length p + 2) (p @ '') '' @ t) = t" for p t :: bytes by simp
  from this [of "pid @ '' ('' @ comm" "blank_join fs"]
  have "drop (length (pid @ '' ('' @ comm) + 2) (pid @ '' ('' @ comm @ '') '' @ blank_join fs)
      = blank_join fs @ []" by (simp only: append_assoc append_Nil2)
  moreover have "Fields [] = []" by (simp add: Fields.simps)
  ultimately show ?thesis
    using Fields_blank_join [of fs "[]"] assms
    unfolding readStartTime_def Let_def option.case by simp
qed

section \<open>Decimal\<close>

fun decimal :: "nat \<Rightarrow> bytes" where
  "decimal n = (if n < 10 then [] else decimal (n div 10)) @ [char_of (48 + n mod 10)]"

declare decimal.simps [simp del]

lemma byte_val_digit: "d < 10 \<Longrightarrow> byte_val (char_of (48 + d)) = 48 + d"
  by (simp add: byte_val_def)

lemma decimal_digits: "list_all is_digit (decimal n) \<and> decimal n \<noteq> []"
proof (induction n rule: less_induct)
  case (less n)
  have "is_digit (char_of (48 + n mod 10))" by (simp add: is_digit_def byte_val_digit)
  with less show ?case by (subst (1 2) decimal.simps) auto
qed

lemma decimal_value: "digits_value (decimal n) = n"
proof (induction n rule: less_induct)
  case (less n)
  then show ?case
    by (subst decimal.simps) (auto simp: digits_value_def byte_val_digit)
qed

lemma ParseUint_decimal: "n < 18446744073709551616 \<Longrightarrow> ParseUint (decimal n) = Some (of_nat n)"
  using decimal_digits [of n] by (simp add: ParseUint_def decimal_value)

end
