(* ===== verification/Menu_Validate.thy ===== *)
theory Menu_Validate
  imports Validation
begin

text \<open>
  The two validators of a menu tree. \<open>protocol.Menu.Validate\<close> recurses (theory \<open>Validation\<close>);
  \<open>menu.Validate\<close> of \<open>internal/menu/validate.go\<close> walks with an explicit stack and its own
  counters, and visits the children of a node last to first. The locale \<open>visitor\<close> states what a
  visit of one node promises; both walks are interpreted in it and accept the same menus.
\<close>

section \<open>The explicit-stack validator\<close>

datatype walk_error = MRoot int32 | MDepth nat | MNodes | MNegative int32 | MRepeated int32
  | MText bytes | MToggle bytes | MDisplay bytes | MIcons

definition menu_validateText :: "bytes \<Rightarrow> bytes \<Rightarrow> walk_error goerror" where
  "menu_validateText name value =
    (if \<not> ValidString value then Some (MText name)
     else if length value > MaxTextBytes then Some (MText name)
     else None)"

record counters =
  ct_seen :: "int32 list"
  ct_nodes :: nat
  ct_icons :: nat

text \<open>One turn of the loop, before the children are pushed.\<close>

definition check_node :: "nat \<Rightarrow> node_fields \<Rightarrow> counters \<Rightarrow> walk_error + counters" where
  "check_node depth n w =
    (if depth > MaxMenuDepth then Inl (MDepth depth)
     else let w = w\<lparr>ct_nodes := Suc (ct_nodes w)\<rparr> in
     if ct_nodes w > MaxMenuNodes then Inl MNodes
     else if sint (mn_ID n) < 0 then Inl (MNegative (mn_ID n))
     else if mn_ID n \<in> set (ct_seen w) then Inl (MRepeated (mn_ID n))
     else let w = w\<lparr>ct_seen := mn_ID n # ct_seen w\<rparr> in
     case menu_validateText ''label'' (mn_Label n) of Some e \<Rightarrow> Inl e | None \<Rightarrow>
     (case menu_validateText ''icon name'' (mn_IconName n) of Some e \<Rightarrow> Inl e | None \<Rightarrow>
      if mn_ToggleType n \<notin> set [ToggleNone, ToggleCheckmark, ToggleRadio]
      then Inl (MToggle (mn_ToggleType n))
      else if mn_ChildrenDisplay n \<notin> set [[], ''submenu''] then Inl (MDisplay (mn_ChildrenDisplay n))
      else let w = w\<lparr>ct_icons := ct_icons w + length (mn_IconData n)\<rparr> in
      if ct_icons w > MaxMenuIconBytes then Inl MIcons else Inr w))"

text \<open>The stack's top is the head of the list, so pushing in order reverses the children.\<close>

definition stack_count :: "(menu_node \<times> nat) list \<Rightarrow> nat" where
  "stack_count st = (\<Sum>(n, d)\<leftarrow>st. node_count n)"

lemma stack_count_simps [simp]:
  "stack_count [] = 0" "stack_count ((n, d) # st) = node_count n + stack_count st"
  "stack_count (st @ st') = stack_count st + stack_count st'"
  by (simp_all add: stack_count_def)

lemma stack_count_push: "stack_count (rev (map (\<lambda>c. (c, d)) cs)) = sum_list (map node_count cs)"
  by (induction cs) simp_all

function check_stack :: "(menu_node \<times> nat) list \<Rightarrow> counters \<Rightarrow> walk_error + counters" where
  "check_stack [] w = Inr w"
| "check_stack ((MenuNode f cs, depth) # st) w =
    (case check_node depth f w of
      Inl e \<Rightarrow> Inl e
    | Inr w' \<Rightarrow> check_stack (rev (map (\<lambda>c. (c, Suc depth)) cs) @ st) w')"
  by pat_completeness auto
termination
  by (relation "measure (\<lambda>(st, w). stack_count st)") (simp_all add: stack_count_push)

definition Validate :: "menu \<Rightarrow> walk_error goerror" where
  "Validate m =
    (if mn_ID (nd_fields (me_Root m)) \<noteq> 0 then Some (MRoot (mn_ID (nd_fields (me_Root m))))
     else case check_stack [(me_Root m, 0)] \<lparr>ct_seen = [], ct_nodes = 0, ct_icons = 0\<rparr> of
       Inl e \<Rightarrow> Some e
     | Inr w \<Rightarrow> None)"

section \<open>Orders of a tree\<close>

type_synonym visits = "(nat \<times> node_fields) list"

fun preorder :: "nat \<Rightarrow> menu_node \<Rightarrow> visits" where
  "preorder d (MenuNode f cs) = (d, f) # concat (map (preorder (Suc d)) cs)"

text \<open>The stack's order: parents first, children last to first.\<close>

fun backorder :: "nat \<Rightarrow> menu_node \<Rightarrow> visits" where
  "backorder d (MenuNode f cs) = (d, f) # concat (rev (map (backorder (Suc d)) cs))"

lemma mset_concat_rev: "mset (concat (rev xss)) = mset (concat xss)"
  by (induction xss) simp_all

lemma backorder_preorder: "mset (backorder d n) = mset (preorder d n)"
proof (induction n arbitrary: d)
  case (MenuNode f cs)
  then have "map mset (map (backorder (Suc d)) cs) = map mset (map (preorder (Suc d)) cs)"
    by simp
  then have "mset (concat (map (backorder (Suc d)) cs)) = mset (concat (map (preorder (Suc d)) cs))"
    by (simp only: mset_concat)
  then show ?case by (simp add: mset_concat_rev)
qed

section \<open>The walks as folds\<close>

fun fold_visit :: "(nat \<Rightarrow> node_fields \<Rightarrow> 'w \<Rightarrow> 'e + 'w) \<Rightarrow> visits \<Rightarrow> 'w \<Rightarrow> 'e + 'w" where
  "fold_visit visit [] w = Inr w"
| "fold_visit visit ((d, f) # vs) w =
    (case visit d f w of Inl e \<Rightarrow> Inl e | Inr w' \<Rightarrow> fold_visit visit vs w')"

lemma fold_visit_append:
  "fold_visit visit (vs @ vs') w =
    (case fold_visit visit vs w of Inl e \<Rightarrow> Inl e | Inr w' \<Rightarrow> fold_visit visit vs' w')"
  by (induction visit vs w rule: fold_visit.induct) (auto split: sum.splits)

lemma MenuNode_validate_fold:
  "MenuNode_validate d n w = fold_visit visit_node (preorder d n) w"
  "MenuNodes_validate d cs w = fold_visit visit_node (concat (map (preorder d) cs)) w"
  by (induction d n w and d cs w rule: MenuNode_validate_MenuNodes_validate.induct)
    (auto simp: fold_visit_append split: sum.splits)

lemma check_stack_fold:
  "check_stack st w = fold_visit check_node (concat (map (\<lambda>(n, d). backorder d n) st)) w"
proof (induction st w rule: check_stack.induct)
  case (1 w)
  then show ?case by simp
next
  case (2 f cs depth st w)
  have "map (\<lambda>(n, d). backorder d n) (rev (map (\<lambda>c. (c, Suc depth)) cs))
      = rev (map (backorder (Suc depth)) cs)"
    by (simp add: rev_map comp_def)
  with 2 show ?case by (simp split: sum.splits)
qed

section \<open>What a walk accepts\<close>

text \<open>A Go slice is shorter than \<open>2^63\<close>.\<close>

definition slice_sized :: "node_fields \<Rightarrow> bool" where
  "slice_sized f \<longleftrightarrow> length (mn_IconData f) < 9223372036854775808"

definition node_ok :: "node_fields \<Rightarrow> bool" where
  "node_ok f \<longleftrightarrow> 0 \<le> sint (mn_ID f) \<and> text_ok MaxTextBytes (mn_Label f)
     \<and> text_ok MaxTextBytes (mn_IconName f)
     \<and> mn_ToggleType f \<in> {ToggleNone, ToggleCheckmark, ToggleRadio}
     \<and> mn_ChildrenDisplay f \<in> {[], ''submenu''}"

definition icon_bytes :: "visits \<Rightarrow> nat" where
  "icon_bytes vs = (\<Sum>(d, f)\<leftarrow>vs. length (mn_IconData f))"

definition ids :: "visits \<Rightarrow> int32 list" where
  "ids vs = map (\<lambda>(d, f). mn_ID f) vs"

definition walk_ok :: "visits \<Rightarrow> bool" where
  "walk_ok vs \<longleftrightarrow> (\<forall>(d, f)\<in>set vs. d \<le> MaxMenuDepth \<and> node_ok f) \<and> length vs \<le> MaxMenuNodes
     \<and> distinct (ids vs) \<and> icon_bytes vs \<le> MaxMenuIconBytes"

lemma ids_simps [simp]: "ids [] = []" "ids ((d, f) # vs) = mn_ID f # ids vs"
  by (simp_all add: ids_def)

lemma icon_bytes_simps [simp]:
  "icon_bytes [] = 0" "icon_bytes ((d, f) # vs) = length (mn_IconData f) + icon_bytes vs"
  by (simp_all add: icon_bytes_def)

lemma walk_ok_Nil [simp]: "walk_ok []"
  by (simp add: walk_ok_def)

lemma walk_ok_Cons:
  "walk_ok ((d, f) # vs) \<longleftrightarrow> walk_ok vs \<and> d \<le> MaxMenuDepth \<and> node_ok f
     \<and> length vs < MaxMenuNodes \<and> mn_ID f \<notin> set (ids vs)
     \<and> icon_bytes vs + length (mn_IconData f) \<le> MaxMenuIconBytes"
  by (auto simp: walk_ok_def)

lemma walk_ok_mset:
  assumes "mset vs = mset vs'"
  shows "walk_ok vs = walk_ok vs'"
proof -
  have "mset (ids vs) = mset (ids vs')" by (simp add: ids_def assms)
  then have "distinct (ids vs) = distinct (ids vs')" by (rule mset_eq_imp_distinct_iff)
  moreover have "mset (map (\<lambda>(d, f). length (mn_IconData f)) vs)
      = mset (map (\<lambda>(d, f). length (mn_IconData f)) vs')" by (simp add: assms)
  then have "icon_bytes vs = icon_bytes vs'"
    unfolding icon_bytes_def by (metis sum_mset_sum_list)
  moreover have "set vs = set vs'" using assms by (rule mset_eq_setD)
  moreover have "length vs = length vs'" using assms by (rule mset_eq_length)
  ultimately show ?thesis by (simp add: walk_ok_def)
qed

text \<open>
  What a visitor promises: in a state that stands for the nodes visited so far, it admits a node
  exactly if the nodes with it are still within every bound, and then stands for them.
\<close>

locale visitor =
  fixes visit :: "nat \<Rightarrow> node_fields \<Rightarrow> 'w \<Rightarrow> 'e + 'w"
    and stands_for :: "'w \<Rightarrow> visits \<Rightarrow> bool"
  assumes admits: "stands_for w vs \<Longrightarrow> walk_ok vs \<Longrightarrow> slice_sized f \<Longrightarrow>
      (\<exists>w'. visit d f w = Inr w') \<longleftrightarrow> walk_ok ((d, f) # vs)"
    and counts_in: "stands_for w vs \<Longrightarrow> walk_ok vs \<Longrightarrow> slice_sized f \<Longrightarrow> visit d f w = Inr w' \<Longrightarrow>
      stands_for w' ((d, f) # vs)"
begin

lemma fold_accepts:
  assumes "stands_for w vs" and "walk_ok vs" and "\<forall>(d, f)\<in>set new. slice_sized f"
  shows "(\<exists>w'. fold_visit visit new w = Inr w') \<longleftrightarrow> walk_ok (rev new @ vs)"
  using assms
proof (induction new arbitrary: w vs)
  case Nil
  then show ?case by simp
next
  case (Cons x new)
  obtain d f where x: "x = (d, f)" by (cases x)
  with Cons.prems have sz: "slice_sized f" by simp
  show ?case
  proof (cases "visit d f w")
    case (Inl e)
    then have "\<not> walk_ok ((d, f) # vs)" using admits [OF Cons.prems(1,2) sz, of d] by auto
    moreover have "walk_ok (rev new @ (d, f) # vs) \<Longrightarrow> walk_ok ((d, f) # vs)"
      by (induction "rev new") (auto simp: walk_ok_def ids_def icon_bytes_def)
    ultimately show ?thesis using x Inl by auto
  next
    case (Inr w')
    then have "walk_ok ((d, f) # vs)" using admits [OF Cons.prems(1,2) sz, of d] by auto
    from Cons.IH [OF counts_in [OF Cons.prems(1,2) sz Inr] this] Cons.prems(3) x Inr
    show ?thesis by simp
  qed
qed

lemma accepts_tree:
  assumes "stands_for w []" and "\<forall>(d, f)\<in>set new. slice_sized f" and "mset new = mset vs"
  shows "(\<exists>w'. fold_visit visit new w = Inr w') \<longleftrightarrow> walk_ok vs"
  using fold_accepts [OF assms(1) walk_ok_Nil assms(2)] walk_ok_mset [of "rev new" vs] assms(3)
  by simp

end

text \<open>The recursive walk's state.\<close>

definition walk_for :: "walk \<Rightarrow> visits \<Rightarrow> bool" where
  "walk_for w vs \<longleftrightarrow> wk_seen w = ids vs \<and> wk_nodes w = length vs
     \<and> unat (wk_icons w) = icon_bytes vs"

lemma visit_node_icons:
  assumes "walk_for w vs" and "walk_ok vs" and "slice_sized f"
  shows "unat (wk_icons w + of_nat (length (mn_IconData f))) = icon_bytes vs + length (mn_IconData f)"
proof -
  have len: "unat (of_nat (length (mn_IconData f)) :: uint64) = length (mn_IconData f)"
    using assms(3) by (intro unat_of_nat_64) (simp add: slice_sized_def)
  have "icon_bytes vs \<le> 2097152" using assms(2) by (simp add: walk_ok_def MaxMenuIconBytes_def)
  with assms len show ?thesis
    by (subst unat_add_64) (simp_all add: walk_for_def slice_sized_def)
qed

interpretation recursive: visitor visit_node walk_for
proof
  fix w :: walk and vs f d
  assume w: "walk_for w vs" and vs: "walk_ok vs" and f: "slice_sized f"
  note icons = visit_node_icons [OF w vs f]
  have max: "unat (of_nat MaxMenuIconBytes :: uint64) = MaxMenuIconBytes"
    by (rule unat_of_nat_64) (simp add: MaxMenuIconBytes_def)
  have cmp: "wk_icons w + of_nat (length (mn_IconData f)) > of_nat MaxMenuIconBytes \<longleftrightarrow>
      icon_bytes vs + length (mn_IconData f) > MaxMenuIconBytes"
    by (simp add: word_less_nat_alt icons max)
  have ok: "visit_node d f w = Inr w' \<longleftrightarrow> walk_ok ((d, f) # vs) \<and>
      w' = w\<lparr>wk_nodes := Suc (wk_nodes w), wk_seen := mn_ID f # wk_seen w,
        wk_icons := wk_icons w + of_nat (length (mn_IconData f))\<rparr>" for w'
  proof -
    have "visit_node d f w = Inr w' \<longleftrightarrow> d \<le> MaxMenuDepth \<and> Suc (wk_nodes w) \<le> MaxMenuNodes
      \<and> mn_ID f \<notin> set (wk_seen w) \<and> node_ok f
      \<and> icon_bytes vs + length (mn_IconData f) \<le> MaxMenuIconBytes
      \<and> w' = w\<lparr>wk_nodes := Suc (wk_nodes w), wk_seen := mn_ID f # wk_seen w,
        wk_icons := wk_icons w + of_nat (length (mn_IconData f))\<rparr>"
      by (simp add: visit_node_def Let_def go_simps node_ok_def ToggleType_valid_def cmp not_less)
        (auto simp: not_less)
    with w vs show ?thesis by (auto simp: walk_ok_Cons walk_for_def)
  qed
  then show "(\<exists>w'. visit_node d f w = Inr w') \<longleftrightarrow> walk_ok ((d, f) # vs)" by blast
  show "walk_for w' ((d, f) # vs)" if "visit_node d f w = Inr w'" for w'
    using that w icons unfolding ok by (simp add: walk_for_def add.commute)
qed

text \<open>The explicit stack's state.\<close>

definition counters_for :: "counters \<Rightarrow> visits \<Rightarrow> bool" where
  "counters_for w vs \<longleftrightarrow> ct_seen w = ids vs \<and> ct_nodes w = length vs \<and> ct_icons w = icon_bytes vs"

lemma menu_validateText_None: "menu_validateText name v = None \<longleftrightarrow> text_ok MaxTextBytes v"
  by (auto simp: menu_validateText_def text_ok_def)

interpretation stacked: visitor check_node counters_for
proof
  fix w :: counters and vs f d
  assume w: "counters_for w vs" and vs: "walk_ok vs"
  have ok: "check_node d f w = Inr w' \<longleftrightarrow> walk_ok ((d, f) # vs) \<and>
      w' = w\<lparr>ct_nodes := Suc (ct_nodes w), ct_seen := mn_ID f # ct_seen w,
        ct_icons := ct_icons w + length (mn_IconData f)\<rparr>" for w'
  proof -
    have "check_node d f w = Inr w' \<longleftrightarrow> d \<le> MaxMenuDepth \<and> Suc (ct_nodes w) \<le> MaxMenuNodes
      \<and> mn_ID f \<notin> set (ct_seen w) \<and> node_ok f
      \<and> ct_icons w + length (mn_IconData f) \<le> MaxMenuIconBytes
      \<and> w' = w\<lparr>ct_nodes := Suc (ct_nodes w), ct_seen := mn_ID f # ct_seen w,
        ct_icons := ct_icons w + length (mn_IconData f)\<rparr>"
      by (simp add: check_node_def Let_def go_simps node_ok_def menu_validateText_None not_less)
        (auto simp: not_less)
    with w vs show ?thesis by (auto simp: walk_ok_Cons counters_for_def)
  qed
  then show "(\<exists>w'. check_node d f w = Inr w') \<longleftrightarrow> walk_ok ((d, f) # vs)" by blast
  show "counters_for w' ((d, f) # vs)" if "check_node d f w = Inr w'" for w'
    using that w unfolding ok by (simp add: counters_for_def)
qed

section \<open>Both accept the same menus\<close>

definition menu_sized :: "menu \<Rightarrow> bool" where
  "menu_sized m \<longleftrightarrow> (\<forall>(d, f)\<in>set (preorder 0 (me_Root m)). slice_sized f)"

definition menu_ok :: "menu \<Rightarrow> bool" where
  "menu_ok m \<longleftrightarrow> mn_ID (nd_fields (me_Root m)) = 0 \<and> walk_ok (preorder 0 (me_Root m))"

lemma Menu_Validate_ok: "menu_sized m \<Longrightarrow> Menu_Validate m = None \<longleftrightarrow> menu_ok m"
  using recursive.accepts_tree [of walk_start "preorder 0 (me_Root m)"]
  by (auto simp: Menu_Validate_def menu_ok_def MenuNode_validate_fold menu_sized_def walk_for_def
    walk_start_def split: sum.splits)

lemma Validate_ok: "menu_sized m \<Longrightarrow> Validate m = None \<longleftrightarrow> menu_ok m"
proof -
  assume sized: "menu_sized m"
  have perm: "mset (backorder 0 (me_Root m)) = mset (preorder 0 (me_Root m))"
    by (rule backorder_preorder)
  then have "set (backorder 0 (me_Root m)) = set (preorder 0 (me_Root m))" by (rule mset_eq_setD)
  with sized have "\<forall>(d, f)\<in>set (backorder 0 (me_Root m)). slice_sized f"
    by (simp add: menu_sized_def)
  from stacked.accepts_tree [OF _ this perm, of "\<lparr>ct_seen = [], ct_nodes = 0, ct_icons = 0\<rparr>"]
  show ?thesis
    by (auto simp: Validate_def menu_ok_def check_stack_fold counters_for_def split: sum.splits)
qed

end
