(* ===== verification/Menu_Model.thy ===== *)
theory Menu_Model
  imports Menu_Validate Dbusval
begin

text \<open>
  Reading a DBusMenu layout, \<open>internal/menu/model.go\<close>. \<open>convertLayout\<close> builds the tree in place:
  its worklist holds pointers into the backing arrays of \<open>Children\<close> slices, and \<open>append\<close> moves a
  slice to a new array when it is full, which would strand a pointer into the old one. The model
  keeps that: nodes are cells of numbered arrays, a slice is a header (array, length, capacity) and
  \<open>append\<close> copies into a fresh array, of the capacity the runtime picks (\<open>grow\<close>), when the slice is
  full. The theory \<open>Menu_Convert\<close> proves that no pointer is ever stranded.
\<close>

section \<open>One node\<close>

datatype menu_error = NotALayout | NotANode | IdentityNotInteger | IdentityRange int
  | ConvertDepth nat | ConvertNodes

definition propertyMap :: "dval \<Rightarrow> (bytes, dval) gomap" where
  "propertyMap v = (case v of DMapVariant m \<Rightarrow> m | DMapAny m \<Rightarrow> m | _ \<Rightarrow> [])"

definition stringValue :: "dval \<Rightarrow> bytes" where
  "stringValue v = StringOf v"

definition boolValue :: "dval \<Rightarrow> bool \<Rightarrow> bool" where
  "boolValue v fallback = BoolOf v fallback"

definition with_property ::
  "(bytes, dval) gomap \<Rightarrow> bytes \<Rightarrow> (dval \<Rightarrow> node_fields \<Rightarrow> node_fields) \<Rightarrow> node_fields \<Rightarrow> node_fields" where
  "with_property props name f n = (case gm_get props name of None \<Rightarrow> n | Some v \<Rightarrow> f v n)"

definition node_properties :: "(bytes, dval) gomap \<Rightarrow> node_fields \<Rightarrow> node_fields" where
  "node_properties props n =
    with_property props ''children-display''
      (\<lambda>v n. if stringValue v = ''submenu'' then n\<lparr>mn_ChildrenDisplay := ''submenu''\<rparr> else n)
    (with_property props ''toggle-state''
      (\<lambda>v n. case IntOf v of Some st \<Rightarrow> n\<lparr>mn_ToggleState := of_int st\<rparr> | None \<Rightarrow> n)
    (with_property props ''toggle-type''
      (\<lambda>v n. let candidate = stringValue v in
         if candidate \<in> set [ToggleCheckmark, ToggleRadio] then n\<lparr>mn_ToggleType := candidate\<rparr> else n)
    (with_property props ''icon-data''
      (\<lambda>v n. case BytesOf v of
           Some b \<Rightarrow> if length b \<le> MaxMenuIconBytes then n\<lparr>mn_IconData := b\<rparr> else n
         | None \<Rightarrow> n)
    (with_property props ''icon-name''
      (\<lambda>v n. n\<lparr>mn_IconName := clamp (stringValue v) MaxTextBytes\<rparr>)
    (with_property props ''type''
      (\<lambda>v n. n\<lparr>mn_Separator := (stringValue v = ''separator'')\<rparr>)
    (with_property props ''visible'' (\<lambda>v n. n\<lparr>mn_Visible := boolValue v True\<rparr>)
    (with_property props ''enabled'' (\<lambda>v n. n\<lparr>mn_Enabled := boolValue v True\<rparr>)
    (with_property props ''label''
      (\<lambda>v n. n\<lparr>mn_Label := clamp (stringValue v) MaxTextBytes\<rparr>) n))))))))"

definition convertNode :: "dval \<Rightarrow> menu_error + node_fields" where
  "convertNode source =
    (case Tuple source 3 of
      None \<Rightarrow> Inl NotANode
    | Some fs \<Rightarrow>
        (case Int_value (fs ! 0) of
          None \<Rightarrow> Inl IdentityNotInteger
        | Some ident \<Rightarrow>
            if ident < 0 \<or> ident > 2147483647 then Inl (IdentityRange ident)
            else Inr (node_properties (propertyMap (Any (fs ! 1)))
              (zero_fields\<lparr>mn_ID := of_int ident, mn_Enabled := True, mn_Visible := True\<rparr>))))"

text \<open>The children a layout tuple lists; none if the third field is not an array.\<close>

definition children_of :: "dval \<Rightarrow> dval list" where
  "children_of source =
    (case Tuple source 3 of
      None \<Rightarrow> []
    | Some fs \<Rightarrow>
        (case Elements (Any (fs ! 2)) of None \<Rightarrow> [] | Some es \<Rightarrow> map Any es))"

section \<open>The heap\<close>

record header =
  hd_arr :: nat
  hd_len :: nat
  hd_cap :: nat

definition nil_slice :: header where
  "nil_slice = \<lparr>hd_arr = 0, hd_len = 0, hd_cap = 0\<rparr>"

record cell =
  ce_node :: node_fields
  ce_kids :: header

definition zero_cell :: cell where
  "zero_cell = \<lparr>ce_node = zero_fields, ce_kids = nil_slice\<rparr>"

record heap =
  hp_root :: cell
  hp_arrays :: "cell list list"

datatype ref = RootRef | CellRef nat nat

fun deref :: "heap \<Rightarrow> ref \<Rightarrow> cell" where
  "deref h RootRef = hp_root h"
| "deref h (CellRef a j) = hp_arrays h ! a ! j"

fun store :: "ref \<Rightarrow> cell \<Rightarrow> heap \<Rightarrow> heap" where
  "store RootRef c h = h\<lparr>hp_root := c\<rparr>"
| "store (CellRef a j) c h = h\<lparr>hp_arrays := (hp_arrays h)[a := (hp_arrays h ! a)[j := c]]\<rparr>"

text \<open>\<open>grow old needed\<close> is the capacity the runtime picks.\<close>

type_synonym growth = "nat \<Rightarrow> nat \<Rightarrow> nat"

definition growing :: "growth \<Rightarrow> bool" where
  "growing grow \<longleftrightarrow> (\<forall>old needed. needed \<le> grow old needed)"

text \<open>
  \<open>current.target.Children = append(current.target.Children, node)\<close>, and the address of the element
  just appended.
\<close>

definition append_child :: "growth \<Rightarrow> ref \<Rightarrow> node_fields \<Rightarrow> heap \<Rightarrow> heap \<times> ref" where
  "append_child grow target n h =
    (let c = \<lparr>ce_node = n, ce_kids = nil_slice\<rparr>;
         t = deref h target;
         k = ce_kids t
     in if hd_len k < hd_cap k then
          let h = store (CellRef (hd_arr k) (hd_len k)) c h;
              h = store target (t\<lparr>ce_kids := k\<lparr>hd_len := Suc (hd_len k)\<rparr>\<rparr>) h
          in (h, CellRef (hd_arr k) (hd_len k))
        else
          let a = length (hp_arrays h);
              cap = grow (hd_cap k) (Suc (hd_len k));
              old = (if hd_len k = 0 then [] else take (hd_len k) (hp_arrays h ! hd_arr k));
              xs = old @ [c] @ replicate (cap - Suc (hd_len k)) zero_cell;
              h = h\<lparr>hp_arrays := hp_arrays h @ [xs]\<rparr>;
              h = store target (t\<lparr>ce_kids := \<lparr>hd_arr = a, hd_len = Suc (hd_len k), hd_cap = cap\<rparr>\<rparr>) h
          in (h, CellRef a (hd_len k)))"

section \<open>The worklist\<close>

type_synonym frames = "(dval \<times> ref \<times> nat) list"

text \<open>Children are pushed last to first, so the first is on top, the head of the list.\<close>

definition push_frames :: "dval list \<Rightarrow> ref \<Rightarrow> nat \<Rightarrow> frames \<Rightarrow> frames" where
  "push_frames cs target depth st = foldr (\<lambda>c st. (c, target, depth) # st) cs st"

function convert_loop :: "growth \<Rightarrow> frames \<Rightarrow> heap \<Rightarrow> nat \<Rightarrow> menu_error + heap" where
  "convert_loop grow [] h nodes = Inr h"
| "convert_loop grow ((source, target, depth) # st) h nodes =
    (if depth > MaxMenuDepth then Inl (ConvertDepth depth)
     else if Suc nodes > MaxMenuNodes then Inl ConvertNodes
     else case convertNode source of
       Inl e \<Rightarrow> Inl e
     | Inr n \<Rightarrow>
         let (h', added) = append_child grow target n h in
         convert_loop grow (push_frames (children_of source) added (Suc depth) st) h' (Suc nodes))"
  by pat_completeness auto
termination
  by (relation "measure (\<lambda>(grow, st, h, nodes). Suc MaxMenuNodes - nodes)") auto

declare convert_loop.simps(2) [simp del]

text \<open>
  The value of the tree that the returned \<open>protocol.Menu\<close> points to. A tree this loop builds is at
  most \<open>MaxMenuDepth\<close> levels deep below the root, which bounds the fuel.
\<close>

fun read_tree :: "nat \<Rightarrow> heap \<Rightarrow> cell \<Rightarrow> menu_node" where
  "read_tree 0 h c = MenuNode (ce_node c) []"
| "read_tree (Suc fuel) h c = MenuNode (ce_node c)
    (map (read_tree fuel h)
      (if hd_len (ce_kids c) = 0 then []
       else take (hd_len (ce_kids c)) (hp_arrays h ! hd_arr (ce_kids c))))"

definition convertLayout :: "growth \<Rightarrow> uint32 \<Rightarrow> dval \<Rightarrow> menu_error + menu" where
  "convertLayout grow revision layout =
    (case convertNode layout of
      Inl e \<Rightarrow> Inl e
    | Inr root \<Rightarrow>
        (case Tuple layout 3 of
          None \<Rightarrow> Inl NotALayout
        | Some sources \<Rightarrow>
            let h = \<lparr>hp_root = \<lparr>ce_node = root, ce_kids = nil_slice\<rparr>, hp_arrays = []\<rparr>;
                children = (case Elements (Any (sources ! 2)) of None \<Rightarrow> [] | Some es \<Rightarrow> map Any es)
            in (case convert_loop grow (push_frames children RootRef 1 []) h 1 of
                  Inl e \<Rightarrow> Inl e
                | Inr h \<Rightarrow> Inr \<lparr>me_Revision = revision,
                    me_Root = read_tree (Suc MaxMenuDepth) h (hp_root h)\<rparr>)))"

section \<open>The recursive reading\<close>

text \<open>What the loop is meant to compute: the same checks in the same order, and no pointers.\<close>

function convert_children :: "dval list \<Rightarrow> nat \<Rightarrow> nat \<Rightarrow> menu_error + menu_node list \<times> nat" where
  "convert_children [] depth nodes = Inr ([], nodes)"
| "convert_children (source # rest) depth nodes =
    (if depth > MaxMenuDepth then Inl (ConvertDepth depth)
     else if Suc nodes > MaxMenuNodes then Inl ConvertNodes
     else case convertNode source of
       Inl e \<Rightarrow> Inl e
     | Inr n \<Rightarrow>
         (case convert_children (children_of source) (Suc depth) (Suc nodes) of
           Inl e \<Rightarrow> Inl e
         | Inr (kids, nodes) \<Rightarrow>
             (case convert_children rest depth nodes of
               Inl e \<Rightarrow> Inl e
             | Inr (siblings, nodes) \<Rightarrow> Inr (MenuNode n kids # siblings, nodes))))"
  by pat_completeness auto
termination
  by (relation "measures [\<lambda>(ss, depth, nodes). Suc MaxMenuDepth - depth, \<lambda>(ss, depth, nodes). length ss]")
    auto

declare convert_children.simps(2) [simp del]

definition convert_tree :: "uint32 \<Rightarrow> dval \<Rightarrow> menu_error + menu" where
  "convert_tree revision layout =
    (case convertNode layout of
      Inl e \<Rightarrow> Inl e
    | Inr root \<Rightarrow>
        (case convert_children (children_of layout) 1 1 of
          Inl e \<Rightarrow> Inl e
        | Inr (kids, nodes) \<Rightarrow> Inr \<lparr>me_Revision = revision, me_Root = MenuNode root kids\<rparr>))"

section \<open>A converted node is within its bounds\<close>

lemma with_property_ID:
  "mn_ID n = i \<Longrightarrow> (\<And>v n. mn_ID n = i \<Longrightarrow> mn_ID (f v n) = i) \<Longrightarrow>
    mn_ID (with_property props name f n) = i"
  by (simp add: with_property_def split: option.split)

lemma node_properties_keeps: "mn_ID (node_properties props n) = mn_ID n"
  unfolding node_properties_def
  by (intro with_property_ID) (auto simp: Let_def split: option.split)

definition props_ok :: "node_fields \<Rightarrow> bool" where
  "props_ok n \<longleftrightarrow> text_ok MaxTextBytes (mn_Label n) \<and> text_ok MaxTextBytes (mn_IconName n)
     \<and> mn_ToggleType n \<in> {ToggleNone, ToggleCheckmark, ToggleRadio}
     \<and> mn_ChildrenDisplay n \<in> {[], ''submenu''} \<and> length (mn_IconData n) \<le> MaxMenuIconBytes"

lemma with_property_ok:
  "props_ok n \<Longrightarrow> (\<And>v n. props_ok n \<Longrightarrow> props_ok (f v n)) \<Longrightarrow> props_ok (with_property props name f n)"
  by (simp add: with_property_def split: option.split)

lemma node_properties_ok: "props_ok n \<Longrightarrow> props_ok (node_properties props n)"
  unfolding node_properties_def
  by (intro with_property_ok) (auto simp: props_ok_def Let_def split: option.split)

lemma convertNode_ok: "convertNode source = Inr n \<Longrightarrow> node_ok n \<and> length (mn_IconData n) \<le> MaxMenuIconBytes"
proof -
  assume conv: "convertNode source = Inr n"
  then obtain fs ident where "Tuple source 3 = Some fs" "Int_value (fs ! 0) = Some ident"
    "0 \<le> ident" "ident \<le> 2147483647"
    and n: "n = node_properties (propertyMap (Any (fs ! 1)))
      (zero_fields\<lparr>mn_ID := of_int ident, mn_Enabled := True, mn_Visible := True\<rparr>)"
    by (auto simp: convertNode_def split: option.splits if_splits)
  then have "sint (mn_ID n) = ident"
    by (simp add: node_properties_keeps) (simp add: signed_of_int signed_take_bit_int_eq_self)
  moreover have "props_ok n"
    unfolding n by (rule node_properties_ok) (simp add: props_ok_def zero_fields_def const_defs)
  ultimately show ?thesis using \<open>0 \<le> ident\<close> by (simp add: node_ok_def props_ok_def)
qed

end
