(* ===== verification/Menu_Convert.thy ===== *)
theory Menu_Convert
  imports Menu_Model
begin

text \<open>
  No pointer of \<open>convertLayout\<close>'s worklist is ever stranded. The heap relation \<open>reps\<close> says which
  trees the cells of an array stand for and \<open>deeps\<close> which other cells they use; \<open>built\<close> describes
  what one node's children add: everything else on the heap keeps its value. The result is that the
  loop over the heap computes the recursive reading \<open>convert_tree\<close>.
\<close>

section \<open>Trees on the heap\<close>

fun rep :: "heap \<Rightarrow> cell \<Rightarrow> menu_node \<Rightarrow> bool"
and reps :: "heap \<Rightarrow> nat \<Rightarrow> nat \<Rightarrow> menu_node list \<Rightarrow> bool" where
  "rep h c (MenuNode f ts) \<longleftrightarrow> ce_node c = f \<and> hd_len (ce_kids c) = length ts
     \<and> (ts \<noteq> [] \<longrightarrow> hd_arr (ce_kids c) < length (hp_arrays h)
          \<and> length ts \<le> length (hp_arrays h ! hd_arr (ce_kids c)))
     \<and> reps h (hd_arr (ce_kids c)) 0 ts"
| "reps h a j [] \<longleftrightarrow> True"
| "reps h a j (t # ts) \<longleftrightarrow> rep h (hp_arrays h ! a ! j) t \<and> reps h a (Suc j) ts"

fun foot :: "heap \<Rightarrow> cell \<Rightarrow> menu_node \<Rightarrow> (nat \<times> nat) set"
and deeps :: "heap \<Rightarrow> nat \<Rightarrow> nat \<Rightarrow> menu_node list \<Rightarrow> (nat \<times> nat) set" where
  "foot h c (MenuNode f ts) =
    {hd_arr (ce_kids c)} \<times> {..<length ts} \<union> deeps h (hd_arr (ce_kids c)) 0 ts"
| "deeps h a j [] = {}"
| "deeps h a j (t # ts) = foot h (hp_arrays h ! a ! j) t \<union> deeps h a (Suc j) ts"

lemma reps_append: "reps h a j (ts @ us) \<longleftrightarrow> reps h a j ts \<and> reps h a (j + length ts) us"
  by (induction ts arbitrary: j) auto

lemma deeps_append: "deeps h a j (ts @ us) = deeps h a j ts \<union> deeps h a (j + length ts) us"
  by (induction ts arbitrary: j) auto

text \<open>Arrays are never freed nor resized.\<close>

definition extends :: "heap \<Rightarrow> heap \<Rightarrow> bool" where
  "extends h h' \<longleftrightarrow> length (hp_arrays h) \<le> length (hp_arrays h')
     \<and> (\<forall>b<length (hp_arrays h). length (hp_arrays h' ! b) = length (hp_arrays h ! b))"

lemma extends_length:
  "extends h h' \<Longrightarrow> extends h' h \<Longrightarrow> length (hp_arrays h') = length (hp_arrays h)"
  "extends h h' \<Longrightarrow> b < length (hp_arrays h) \<Longrightarrow> length (hp_arrays h' ! b) = length (hp_arrays h ! b)"
  by (simp_all add: extends_def le_antisym)

lemma extends_trans: "extends h h' \<Longrightarrow> extends h' h'' \<Longrightarrow> extends h h''"
  by (auto simp: extends_def)

text \<open>What a tree stands for depends on its cells only, and the cells of a list may move.\<close>

definition same_on :: "heap \<Rightarrow> heap \<Rightarrow> (nat \<times> nat) set \<Rightarrow> bool" where
  "same_on h h' S \<longleftrightarrow> (\<forall>b i. (b, i) \<in> S \<longrightarrow> hp_arrays h' ! b ! i = hp_arrays h ! b ! i)"

lemma same_on_Un [simp]: "same_on h h' (S \<union> T) \<longleftrightarrow> same_on h h' S \<and> same_on h h' T"
  by (auto simp: same_on_def)

lemma rep_stable:
  shows "extends h h' \<Longrightarrow> rep h c t \<Longrightarrow> same_on h h' (foot h c t) \<Longrightarrow>
      rep h' c t \<and> foot h' c t = foot h c t"
    and "extends h h' \<Longrightarrow> reps h a j ts \<Longrightarrow>
      \<forall>i<length ts. hp_arrays h' ! a' ! (j + i) = hp_arrays h ! a ! (j + i) \<Longrightarrow>
      same_on h h' (deeps h a j ts) \<Longrightarrow> reps h' a' j ts \<and> deeps h' a' j ts = deeps h a j ts"
proof (induction h c t and h a j ts arbitrary: and a' rule: rep_reps.induct)
  case (1 h c f ts)
  let ?a = "hd_arr (ce_kids c)"
  have "\<forall>i<length ts. hp_arrays h' ! ?a ! i = hp_arrays h ! ?a ! i"
    using 1(4) by (auto simp: same_on_def)
  moreover have "length (hp_arrays h' ! ?a) = length (hp_arrays h ! ?a)"
    "length (hp_arrays h) \<le> length (hp_arrays h')" if "ts \<noteq> []"
    using 1(2,3) that by (auto simp: extends_def)
  ultimately show ?case using 1(1) [of ?a] 1(2,3,4) by auto
next
  case (2 h a j)
  then show ?case by simp
next
  case (3 h a j t ts)
  have head: "hp_arrays h' ! a' ! j = hp_arrays h ! a ! j" using 3(5) by force
  have "\<forall>i<length ts. hp_arrays h' ! a' ! (Suc j + i) = hp_arrays h ! a ! (Suc j + i)"
  proof (intro allI impI)
    fix i assume "i < length ts"
    then show "hp_arrays h' ! a' ! (Suc j + i) = hp_arrays h ! a ! (Suc j + i)"
      using 3(5) [rule_format, of "Suc i"] by simp
  qed
  with 3(1,2) 3(3,4,6) head show ?case by simp
qed

lemma reps_bounds:
  shows "rep h c t \<Longrightarrow> (b, i) \<in> foot h c t \<Longrightarrow>
      b < length (hp_arrays h) \<and> i < length (hp_arrays h ! b)"
    and "reps h a j ts \<Longrightarrow> (b, i) \<in> deeps h a j ts \<Longrightarrow>
      b < length (hp_arrays h) \<and> i < length (hp_arrays h ! b)"
  by (induction h c t and h a j ts rule: rep_reps.induct) (auto split: if_splits)

section \<open>A node under construction\<close>

definition kids_of :: "heap \<Rightarrow> ref \<Rightarrow> header" where
  "kids_of h r = ce_kids (deref h r)"

definition valid_ref :: "heap \<Rightarrow> ref \<Rightarrow> bool" where
  "valid_ref h r \<longleftrightarrow> (case r of RootRef \<Rightarrow> True
     | CellRef a j \<Rightarrow> a < length (hp_arrays h) \<and> j < length (hp_arrays h ! a))"

text \<open>The node at \<open>r\<close> has the children \<open>ts\<close>, and shares no cell with them.\<close>

definition good :: "heap \<Rightarrow> ref \<Rightarrow> menu_node list \<Rightarrow> bool" where
  "good h r ts \<longleftrightarrow> valid_ref h r \<and> hd_len (kids_of h r) = length ts
     \<and> reps h (hd_arr (kids_of h r)) 0 ts
     \<and> (ts = [] \<longrightarrow> hd_cap (kids_of h r) = 0)
     \<and> (ts \<noteq> [] \<longrightarrow> hd_arr (kids_of h r) < length (hp_arrays h)
          \<and> hd_cap (kids_of h r) = length (hp_arrays h ! hd_arr (kids_of h r))
          \<and> length ts \<le> hd_cap (kids_of h r) \<and> (\<forall>j. r \<noteq> CellRef (hd_arr (kids_of h r)) j))
     \<and> (\<forall>b i. (b, i) \<in> deeps h (hd_arr (kids_of h r)) 0 ts \<longrightarrow>
          b \<noteq> hd_arr (kids_of h r) \<and> r \<noteq> CellRef b i)"

text \<open>
  Between \<open>h\<close> and \<open>h'\<close> only the node at \<open>r\<close>, the unused tail of its array and fresh arrays
  have been written.
\<close>

definition only_grows :: "heap \<Rightarrow> heap \<Rightarrow> ref \<Rightarrow> bool" where
  "only_grows h h' r \<longleftrightarrow> extends h h' \<and> (r \<noteq> RootRef \<longrightarrow> hp_root h' = hp_root h)
     \<and> (\<forall>b i. b < length (hp_arrays h) \<longrightarrow> i < length (hp_arrays h ! b) \<longrightarrow> CellRef b i \<noteq> r \<longrightarrow>
          \<not> (0 < hd_len (kids_of h r) \<and> b = hd_arr (kids_of h r) \<and> hd_len (kids_of h r) \<le> i) \<longrightarrow>
          hp_arrays h' ! b ! i = hp_arrays h ! b ! i)"

text \<open>The node at \<open>r\<close>, which had the children \<open>xs\<close>, got \<open>ys\<close> as well, all in fresh cells.\<close>

definition built :: "heap \<Rightarrow> heap \<Rightarrow> ref \<Rightarrow> menu_node list \<Rightarrow> menu_node list \<Rightarrow> bool" where
  "built h h' r xs ys \<longleftrightarrow> good h' r (xs @ ys) \<and> only_grows h h' r
     \<and> ce_node (deref h' r) = ce_node (deref h r)
     \<and> (xs = [] \<and> ys = [] \<or> xs \<noteq> [] \<and> hd_arr (kids_of h' r) = hd_arr (kids_of h r)
          \<or> length (hp_arrays h) \<le> hd_arr (kids_of h' r))
     \<and> (\<forall>us vs ws. xs = us @ vs @ ws \<longrightarrow> deeps h' (hd_arr (kids_of h' r)) (length us) vs
          = deeps h (hd_arr (kids_of h r)) (length us) vs)
     \<and> (\<forall>b i. (b, i) \<in> deeps h' (hd_arr (kids_of h' r)) (length xs) ys \<longrightarrow>
          length (hp_arrays h) \<le> b)"

lemma built_refl: "good h r xs \<Longrightarrow> built h h r xs []"
  by (auto simp: built_def only_grows_def extends_def)

lemma built_good: "built h h' r xs ys \<Longrightarrow> good h' r (xs @ ys)"
  by (simp add: built_def)

lemma only_grows_trans:
  assumes "built h h' r xs ys" and "good h r xs" and "only_grows h' h'' r"
  shows "only_grows h h'' r"
proof -
  from assms(1) have g: "only_grows h h' r" by (simp add: built_def)
  have len: "hd_len (kids_of h' r) = length (xs @ ys)" "hd_len (kids_of h r) = length xs"
    using assms(1,2) by (simp_all add: built_def good_def)
  have arr: "xs = [] \<and> ys = [] \<or> xs \<noteq> [] \<and> hd_arr (kids_of h' r) = hd_arr (kids_of h r)
      \<or> length (hp_arrays h) \<le> hd_arr (kids_of h' r)"
    using assms(1) by (simp add: built_def)
  show ?thesis
    unfolding only_grows_def
  proof (intro conjI allI impI)
    show "extends h h''" using g assms(3) extends_trans by (auto simp: only_grows_def)
    show "hp_root h'' = hp_root h" if "r \<noteq> RootRef"
      using g assms(3) that by (simp add: only_grows_def)
    fix b i
    assume b: "b < length (hp_arrays h)" "i < length (hp_arrays h ! b)" "CellRef b i \<noteq> r"
      and out: "\<not> (0 < hd_len (kids_of h r) \<and> b = hd_arr (kids_of h r) \<and> hd_len (kids_of h r) \<le> i)"
    have b': "b < length (hp_arrays h')" "i < length (hp_arrays h' ! b)"
      using g b by (auto simp: only_grows_def extends_def)
    have "\<not> (0 < hd_len (kids_of h' r) \<and> b = hd_arr (kids_of h' r) \<and> hd_len (kids_of h' r) \<le> i)"
      using arr out b(1) len by auto
    then have "hp_arrays h'' ! b ! i = hp_arrays h' ! b ! i"
      using assms(3) b' b(3) by (simp add: only_grows_def)
    also have "\<dots> = hp_arrays h ! b ! i" using g b out by (simp add: only_grows_def)
    finally show "hp_arrays h'' ! b ! i = hp_arrays h ! b ! i" .
  qed
qed

lemma built_trans:
  assumes "built h h' r xs ys" and "good h r xs" and "built h' h'' r (xs @ ys) zs"
  shows "built h h'' r xs (ys @ zs)"
proof -
  have grow: "only_grows h h'' r"
    using only_grows_trans [OF assms(1,2)] assms(3) by (simp add: built_def)
  have ext: "length (hp_arrays h) \<le> length (hp_arrays h')"
    using assms(1) by (simp add: built_def only_grows_def extends_def)
  have arr: "hd_arr (kids_of h'' r) = hd_arr (kids_of h' r) \<and> xs @ ys \<noteq> []
      \<or> length (hp_arrays h') \<le> hd_arr (kids_of h'' r) \<or> xs = [] \<and> ys = [] \<and> zs = []"
    using assms(3) by (auto simp: built_def)
  have olds: "deeps h'' (hd_arr (kids_of h'' r)) (length us) vs
      = deeps h' (hd_arr (kids_of h' r)) (length us) vs" if "xs @ ys = us @ vs @ ws" for us vs ws
    using assms(3) that unfolding built_def by blast
  have keep: "deeps h'' (hd_arr (kids_of h'' r)) (length us) vs
      = deeps h (hd_arr (kids_of h r)) (length us) vs" if "xs = us @ vs @ ws" for us vs ws
  proof -
    have "deeps h' (hd_arr (kids_of h' r)) (length us) vs
        = deeps h (hd_arr (kids_of h r)) (length us) vs"
      using assms(1) that unfolding built_def by blast
    with olds [of us vs "ws @ ys"] that show ?thesis by simp
  qed
  have fresh: "length (hp_arrays h) \<le> b"
    if "(b, i) \<in> deeps h'' (hd_arr (kids_of h'' r)) (length xs) (ys @ zs)" for b i
  proof -
    from that consider "(b, i) \<in> deeps h'' (hd_arr (kids_of h'' r)) (length xs) ys"
      | "(b, i) \<in> deeps h'' (hd_arr (kids_of h'' r)) (length (xs @ ys)) zs"
      by (auto simp: deeps_append)
    then show ?thesis
    proof cases
      case 1
      then show ?thesis
        using olds [of xs ys "[]"] assms(1) unfolding built_def append_Nil2 by blast
    next
      case 2
      then have "length (hp_arrays h') \<le> b" using assms(3) unfolding built_def by blast
      with ext show ?thesis by simp
    qed
  qed
  show ?thesis
    unfolding built_def
  proof (intro conjI allI impI)
    show "good h'' r (xs @ ys @ zs)" using assms(3) by (simp add: built_def)
    show "ce_node (deref h'' r) = ce_node (deref h r)" using assms(1,3) by (simp add: built_def)
    show "xs = [] \<and> ys @ zs = [] \<or> xs \<noteq> [] \<and> hd_arr (kids_of h'' r) = hd_arr (kids_of h r)
        \<or> length (hp_arrays h) \<le> hd_arr (kids_of h'' r)"
      using arr assms(1) ext by (auto simp: built_def)
  qed (use grow keep fresh in blast)+
qed

section \<open>Appending a node\<close>

lemma deref_store_other: "valid_ref h r \<Longrightarrow> r' \<noteq> r \<Longrightarrow> deref (store r c h) r' = deref h r'"
  by (cases r; cases r') (auto simp: valid_ref_def nth_list_update)

lemma deref_store: "valid_ref h r \<Longrightarrow> deref (store r c h) r = c"
  by (cases r) (auto simp: valid_ref_def)

lemma store_extends: "extends h (store r c h) \<and> extends (store r c h) h"
proof (cases r)
  case (CellRef a j)
  then show ?thesis
    by (cases "a < length (hp_arrays h)") (auto simp: extends_def nth_list_update)
qed (simp add: extends_def)

lemma store_cell:
  "valid_ref h r \<Longrightarrow> CellRef b i \<noteq> r \<Longrightarrow> hp_arrays (store r c h) ! b ! i = hp_arrays h ! b ! i"
  using deref_store_other [of h r "CellRef b i" c] by simp

text \<open>Appending needs room: an array of the slice's capacity, or a fresh one.\<close>

definition fresh_leaf :: "heap \<Rightarrow> ref \<Rightarrow> node_fields \<Rightarrow> bool" where
  "fresh_leaf h r n \<longleftrightarrow> deref h r = \<lparr>ce_node = n, ce_kids = nil_slice\<rparr>"

lemma append_result:
  fixes a l a' cap
  assumes good: "good h r xs" and ext: "extends h h'"
    and a: "a = hd_arr (kids_of h r)" and l: "l = length xs"
    and root: "r \<noteq> RootRef \<Longrightarrow> hp_root h' = hp_root h"
    and node: "deref h' r = (deref h r)\<lparr>ce_kids := \<lparr>hd_arr = a', hd_len = Suc l, hd_cap = cap\<rparr>\<rparr>"
    and arr: "a' < length (hp_arrays h')" "cap = length (hp_arrays h' ! a')" "Suc l \<le> cap"
      "xs \<noteq> [] \<and> a' = a \<or> length (hp_arrays h) \<le> a'"
    and moved: "\<And>i. i < l \<Longrightarrow> hp_arrays h' ! a' ! i = hp_arrays h ! a ! i"
    and leaf: "hp_arrays h' ! a' ! l = \<lparr>ce_node = n, ce_kids = nil_slice\<rparr>"
    and same: "\<And>b i. b < length (hp_arrays h) \<Longrightarrow> i < length (hp_arrays h ! b) \<Longrightarrow> CellRef b i \<noteq> r \<Longrightarrow>
      \<not> (xs \<noteq> [] \<and> b = a \<and> l \<le> i) \<Longrightarrow> hp_arrays h' ! b ! i = hp_arrays h ! b ! i"
  shows "built h h' r xs [MenuNode n []] \<and> CellRef a' l = CellRef (hd_arr (kids_of h' r)) (length xs)
    \<and> fresh_leaf h' (CellRef a' l) n"
proof -
  have kids: "kids_of h' r = \<lparr>hd_arr = a', hd_len = Suc l, hd_cap = cap\<rparr>"
    by (simp add: kids_of_def node)
  have len: "hd_len (kids_of h r) = length xs" and rp: "reps h a 0 xs"
    using good a by (simp_all add: good_def)
  have sep: "b \<noteq> a" "r \<noteq> CellRef b i" if "(b, i) \<in> deeps h a 0 xs" for b i
    using good that a unfolding good_def by blast+
  have same_deep: "same_on h h' (deeps h a 0 xs)"
    using reps_bounds(2) [OF rp] sep same by (fastforce simp: same_on_def)
  have all: "reps h' a' 0 xs \<and> deeps h' a' 0 xs = deeps h a 0 xs"
    using rep_stable(2) [OF ext rp _ same_deep, of a'] moved l by simp
  have part: "deeps h' a' (length us) vs = deeps h a (length us) vs" if "xs = us @ vs @ ws" for us vs ws
  proof -
    have "reps h a (length us) vs" using rp that by (simp add: reps_append)
    moreover have "same_on h h' (deeps h a (length us) vs)"
      using same_deep that by (simp add: deeps_append)
    ultimately show ?thesis
      using rep_stable(2) [OF ext, of a "length us" vs a'] moved l that by simp
  qed
  have noref: "r \<noteq> CellRef a' j" for j
    using arr(4) good a by (cases r) (auto simp: good_def valid_ref_def)
  have "valid_ref h' r"
    using good ext by (cases r) (auto simp: good_def valid_ref_def extends_def)
  moreover have "deeps h' a' 0 (xs @ [MenuNode n []]) = deeps h a 0 xs"
    using all by (simp add: deeps_append)
  moreover have "b \<noteq> a'" if "(b, i) \<in> deeps h a 0 xs" for b i
    using arr(4) sep(1) [OF that] reps_bounds(2) [OF rp that] by auto
  ultimately have "good h' r (xs @ [MenuNode n []])"
    using all leaf l arr(1-3) noref sep(2)
    by (auto simp: good_def kids reps_append nil_slice_def)
  moreover have "only_grows h h' r"
    using ext root same a l by (auto simp: only_grows_def len)
  ultimately have "built h h' r xs [MenuNode n []]"
    using part arr(4) a by (auto simp: built_def kids node)
  with kids l leaf show ?thesis by (simp add: fresh_leaf_def)
qed

lemma append_child_built:
  assumes grow: "growing grow" and good: "good h r xs"
    and app: "append_child grow r n h = (h', added)"
  shows "built h h' r xs [MenuNode n []] \<and> added = CellRef (hd_arr (kids_of h' r)) (length xs)
    \<and> fresh_leaf h' added n"
proof -
  let ?c = "\<lparr>ce_node = n, ce_kids = nil_slice\<rparr>"
  define k where "k = kids_of h r"
  have len: "hd_len k = length xs" and valid: "valid_ref h r"
    using good by (simp_all add: good_def k_def)
  have own: "hd_arr k < length (hp_arrays h)" "hd_cap k = length (hp_arrays h ! hd_arr k)"
      "length xs \<le> hd_cap k" "r \<noteq> CellRef (hd_arr k) j" if "xs \<noteq> []" for j
    using good that by (simp_all add: good_def k_def)
  show ?thesis
  proof (cases "hd_len k < hd_cap k")
    case True
    then have ne: "xs \<noteq> []" using good by (auto simp: good_def k_def)
    note own = own [OF ne]
    let ?h1 = "store (CellRef (hd_arr k) (length xs)) ?c h"
    have valid1: "valid_ref h (CellRef (hd_arr k) (length xs))" "valid_ref ?h1 r"
      using own(1,2) True len valid by (auto simp: valid_ref_def nth_list_update split: ref.splits)
    from app True len have h': "h' = store r ((deref h r)\<lparr>ce_kids := k\<lparr>hd_len := Suc (length xs)\<rparr>\<rparr>) ?h1"
      and added: "added = CellRef (hd_arr k) (length xs)"
      by (auto simp: append_child_def Let_def k_def kids_of_def)
    have ext: "extends h h'" "extends h' h"
      unfolding h' using store_extends extends_trans by blast+
    have arrlen: "length (hp_arrays h' ! hd_arr k) = length (hp_arrays h ! hd_arr k)"
      "length (hp_arrays h') = length (hp_arrays h)"
      using ext own(1) extends_length by (blast, blast)
    have cells: "hp_arrays h' ! b ! i = (if (b, i) = (hd_arr k, length xs) then ?c
        else hp_arrays h ! b ! i)" if "CellRef b i \<noteq> r" for b i
    proof -
      have "hp_arrays h' ! b ! i = hp_arrays ?h1 ! b ! i"
        unfolding h' by (rule store_cell [OF valid1(2) that])
      also have "\<dots> = (if (b, i) = (hd_arr k, length xs) then ?c else hp_arrays h ! b ! i)"
        using deref_store [OF valid1(1), of ?c] store_cell [OF valid1(1), of b i ?c] by auto
      finally show ?thesis .
    qed
    have own': "CellRef (hd_arr k) j \<noteq> r" for j using own(4) [of j] by simp
    show ?thesis
      unfolding added
    proof (rule append_result [OF good ext(1) refl [of "hd_arr (kids_of h r)"] refl, where cap = "hd_cap k",
          folded k_def])
      show "deref h' r = deref h r\<lparr>ce_kids := \<lparr>hd_arr = hd_arr k, hd_len = Suc (length xs), hd_cap = hd_cap k\<rparr>\<rparr>"
        unfolding h' deref_store [OF valid1(2)] by (cases k) simp
      show "hp_root h' = hp_root h" if "r \<noteq> RootRef"
        using that by (cases r) (simp_all add: h')
    qed (use own own' True len cells ne in \<open>auto simp: arrlen\<close>)
  next
    case False
    let ?a = "length (hp_arrays h)" and ?cap = "grow (hd_cap k) (Suc (length xs))"
    let ?old = "if length xs = 0 then [] else take (length xs) (hp_arrays h ! hd_arr k)"
    let ?new = "?old @ [?c] @ replicate (?cap - Suc (length xs)) zero_cell"
    let ?h1 = "h\<lparr>hp_arrays := hp_arrays h @ [?new]\<rparr>"
    have room: "Suc (length xs) \<le> ?cap" using grow by (simp add: growing_def)
    have oldlen: "length ?old = length xs" using own by auto
    then have newlen: "length ?new = ?cap" using room by simp
    have ref: "deref ?h1 r = deref h r" and valid1: "valid_ref ?h1 r"
      using valid by (auto simp: valid_ref_def nth_append split: ref.splits)
    from app False len
    have h': "h' = store r ((deref h r)\<lparr>ce_kids := \<lparr>hd_arr = ?a, hd_len = Suc (length xs), hd_cap = ?cap\<rparr>\<rparr>) ?h1"
      and added: "added = CellRef ?a (length xs)"
      by (auto simp: append_child_def Let_def k_def kids_of_def)
    have "extends h ?h1" by (simp add: extends_def nth_append)
    then have ext: "extends h h'" and ext1: "extends ?h1 h'" "extends h' ?h1"
      unfolding h' using store_extends extends_trans by blast+
    have noref: "r \<noteq> CellRef ?a i" for i using valid by (auto simp: valid_ref_def)
    have cells: "hp_arrays h' ! b ! i = (hp_arrays h @ [?new]) ! b ! i" if "CellRef b i \<noteq> r" for b i
      unfolding h' using store_cell [OF valid1 that] by simp
    have arrlen: "length (hp_arrays h') = Suc ?a" "length (hp_arrays h' ! ?a) = length ?new"
      using extends_length(1) [OF ext1] extends_length(2) [OF ext1(1), of ?a]
      by (simp_all add: nth_append)
    have moved: "hp_arrays h' ! ?a ! i = ?new ! i" for i
    proof -
      have "CellRef ?a i \<noteq> r" using noref [of i] by simp
      then have "hp_arrays h' ! ?a ! i = (hp_arrays h @ [?new]) ! ?a ! i" by (rule cells)
      then show ?thesis unfolding nth_append_length .
    qed
    show ?thesis
      unfolding added
    proof (rule append_result [OF good ext refl [of "hd_arr (kids_of h r)"] refl, where cap = ?cap,
          folded k_def])
      show "deref h' r = deref h r\<lparr>ce_kids := \<lparr>hd_arr = ?a, hd_len = Suc (length xs), hd_cap = ?cap\<rparr>\<rparr>"
        unfolding h' by (rule deref_store [OF valid1])
      show "hp_root h' = hp_root h" if "r \<noteq> RootRef"
        using that by (cases r) (simp_all add: h')
      show "?cap = length (hp_arrays h' ! ?a)" using arrlen(2) newlen by simp
      show "hp_arrays h' ! ?a ! i = hp_arrays h ! hd_arr k ! i" if "i < length xs" for i
      proof -
        have "hp_arrays h' ! ?a ! i = ?old ! i"
          unfolding moved using that oldlen by (simp only: nth_append if_True)
        with that show ?thesis by auto
      qed
      have "?new ! length ?old = ?c" by (simp only: nth_append_length append.simps(2))
      then show "hp_arrays h' ! ?a ! length xs = ?c" unfolding moved oldlen .
    qed (use room arrlen(1) cells in \<open>auto simp: nth_append\<close>)
  qed
qed

section \<open>A subtree and its siblings\<close>

text \<open>A leaf whose children are filled in is a child with children.\<close>

text \<open>What filling in the child at \<open>added\<close> leaves of its parent and siblings.\<close>

lemma fill_keeps:
  assumes g1: "good h1 r (xs @ [MenuNode n []])"
    and added: "added = CellRef (hd_arr (kids_of h1 r)) (length xs)" and leaf: "fresh_leaf h1 added n"
    and grow2: "only_grows h1 h2 added"
  shows "deref h2 r = deref h1 r"
    and "\<And>us vs ws. xs = us @ vs @ ws \<Longrightarrow> reps h2 (hd_arr (kids_of h1 r)) (length us) vs
      \<and> deeps h2 (hd_arr (kids_of h1 r)) (length us) vs = deeps h1 (hd_arr (kids_of h1 r)) (length us) vs"
    and "\<And>b i. b < length (hp_arrays h1) \<Longrightarrow> i < length (hp_arrays h1 ! b) \<Longrightarrow> CellRef b i \<noteq> added \<Longrightarrow>
      hp_arrays h2 ! b ! i = hp_arrays h1 ! b ! i"
proof -
  let ?a = "hd_arr (kids_of h1 r)"
  have nil: "hd_len (kids_of h1 added) = 0"
    using leaf by (simp add: fresh_leaf_def kids_of_def nil_slice_def)
  show same: "hp_arrays h2 ! b ! i = hp_arrays h1 ! b ! i"
    if "b < length (hp_arrays h1)" "i < length (hp_arrays h1 ! b)" "CellRef b i \<noteq> added" for b i
    using grow2 that nil unfolding only_grows_def by simp
  have ne: "r \<noteq> added" and root: "hp_root h2 = hp_root h1"
    using g1 grow2 added by (auto simp: good_def only_grows_def)
  show "deref h2 r = deref h1 r"
    using g1 ne root same by (cases r) (auto simp: good_def valid_ref_def)
  fix us vs ws
  assume xs: "xs = us @ vs @ ws"
  have rp: "reps h1 ?a 0 xs" "?a < length (hp_arrays h1)" "length xs < length (hp_arrays h1 ! ?a)"
    using g1 by (auto simp: good_def reps_append)
  have sep: "b \<noteq> ?a" if "(b, i) \<in> deeps h1 ?a 0 xs" for b i
    using g1 that unfolding good_def deeps_append by blast
  have "same_on h1 h2 (deeps h1 ?a 0 xs)"
    using reps_bounds(2) [OF rp(1)] sep same added by (fastforce simp: same_on_def)
  then have "same_on h1 h2 (deeps h1 ?a (length us) vs)" using xs by (simp add: deeps_append)
  moreover have "reps h1 ?a (length us) vs" using rp(1) xs by (simp add: reps_append)
  moreover have "\<forall>i<length vs. hp_arrays h2 ! ?a ! (length us + i) = hp_arrays h1 ! ?a ! (length us + i)"
    using xs rp same added by simp
  moreover have "extends h1 h2" using grow2 by (simp add: only_grows_def)
  ultimately show "reps h2 ?a (length us) vs \<and> deeps h2 ?a (length us) vs = deeps h1 ?a (length us) vs"
    using rep_stable(2) by blast
qed

lemma fill_child:
  assumes b1: "built h h1 r xs [MenuNode n []]" and good: "good h r xs"
    and added: "added = CellRef (hd_arr (kids_of h1 r)) (length xs)" and leaf: "fresh_leaf h1 added n"
    and b2: "built h1 h2 added [] kids"
  shows "built h h2 r xs [MenuNode n kids]"
proof -
  let ?a = "hd_arr (kids_of h1 r)" and ?t = "MenuNode n kids"
  have g1: "good h1 r (xs @ [MenuNode n []])" and grow1: "only_grows h h1 r"
    and node1: "ce_node (deref h1 r) = ce_node (deref h r)"
    and arr1: "xs \<noteq> [] \<and> ?a = hd_arr (kids_of h r) \<or> length (hp_arrays h) \<le> ?a"
    and part1: "\<And>us vs ws. xs = us @ vs @ ws \<Longrightarrow>
      deeps h1 ?a (length us) vs = deeps h (hd_arr (kids_of h r)) (length us) vs"
    using b1 by (auto simp: built_def)
  have g2: "good h2 added kids" and grow2: "only_grows h1 h2 added"
    and node2: "ce_node (deref h2 added) = n"
    and arr2: "kids \<noteq> [] \<longrightarrow> length (hp_arrays h1) \<le> hd_arr (kids_of h2 added)"
    and fresh2: "\<And>b i. (b, i) \<in> deeps h2 (hd_arr (kids_of h2 added)) 0 kids \<Longrightarrow>
      length (hp_arrays h1) \<le> b"
    using b2 leaf by (auto simp: built_def fresh_leaf_def)
  note keeps = fill_keeps [OF g1 added leaf grow2]
  have same_kids: "kids_of h2 r = kids_of h1 r" using keeps(1) by (simp add: kids_of_def)
  have ext1: "length (hp_arrays h) \<le> length (hp_arrays h1)" and
    ext2: "length (hp_arrays h1) \<le> length (hp_arrays h2)" and
    size2: "length (hp_arrays h2 ! b) = length (hp_arrays h1 ! b)" if "b < length (hp_arrays h1)" for b
    using grow1 grow2 that by (simp_all add: only_grows_def extends_def)
  have a: "?a < length (hp_arrays h1)" using g1 by (simp add: good_def)
  have cell: "hp_arrays h2 ! ?a ! length xs = deref h2 added" by (simp add: added)
  have foot: "length (hp_arrays h1) \<le> b" if "(b, i) \<in> foot h2 (deref h2 added) ?t" for b i
    using that arr2 fresh2 by (auto simp: kids_of_def)
  have "rep h2 (deref h2 added) ?t"
    using g2 node2 by (auto simp: good_def kids_of_def)
  then have reps: "reps h2 ?a 0 (xs @ [?t])"
    and deeps: "deeps h2 ?a 0 (xs @ [?t]) = deeps h1 ?a 0 xs \<union> foot h2 (deref h2 added) ?t"
    using keeps(2) [of "[]" xs "[]"] cell by (simp_all add: reps_append deeps_append del: rep.simps foot.simps)
  have sep: "b \<noteq> ?a \<and> r \<noteq> CellRef b i" if "(b, i) \<in> deeps h2 ?a 0 (xs @ [?t])" for b i
  proof -
    from that consider "(b, i) \<in> deeps h1 ?a 0 xs" | "length (hp_arrays h1) \<le> b"
      unfolding deeps using foot by blast
    then show ?thesis
    proof cases
      case 1
      then show ?thesis using g1 unfolding good_def deeps_append by blast
    next
      case 2
      with a g1 show ?thesis by (auto simp: good_def valid_ref_def)
    qed
  qed
  have valid: "valid_ref h2 r"
    using g1 ext2 [OF a] size2 by (auto simp: good_def valid_ref_def split: ref.splits)
  have final: "good h2 r (xs @ [?t])"
    unfolding good_def same_kids
  proof (intro conjI allI impI)
    show "hd_cap (kids_of h1 r) = length (hp_arrays h2 ! ?a)"
      using g1 size2 [OF a] by (simp add: good_def)
    show "?a < length (hp_arrays h2)" using a ext2 [OF a] by simp
  qed (use g1 valid reps sep in \<open>auto simp: good_def\<close>)
  have grow: "only_grows h h2 r"
    unfolding only_grows_def
  proof (intro conjI allI impI)
    show "extends h h2" using grow1 grow2 extends_trans by (auto simp: only_grows_def)
    show "hp_root h2 = hp_root h" if "r \<noteq> RootRef"
      using grow1 grow2 that added by (simp add: only_grows_def)
    fix b i
    assume b: "b < length (hp_arrays h)" "i < length (hp_arrays h ! b)" "CellRef b i \<noteq> r"
      and out: "\<not> (0 < hd_len (kids_of h r) \<and> b = hd_arr (kids_of h r) \<and> hd_len (kids_of h r) \<le> i)"
    have "hd_len (kids_of h r) = length xs" using good by (simp add: good_def)
    then have "CellRef b i \<noteq> added" using arr1 out b(1) added by auto
    moreover have "b < length (hp_arrays h1)" "i < length (hp_arrays h1 ! b)"
      using grow1 b by (auto simp: only_grows_def extends_def)
    ultimately have "hp_arrays h2 ! b ! i = hp_arrays h1 ! b ! i" by (intro keeps(3))
    also have "\<dots> = hp_arrays h ! b ! i" using grow1 b out by (simp add: only_grows_def)
    finally show "hp_arrays h2 ! b ! i = hp_arrays h ! b ! i" .
  qed
  show ?thesis
    unfolding built_def same_kids
  proof (intro conjI allI impI)
    show "deeps h2 ?a (length us) vs = deeps h (hd_arr (kids_of h r)) (length us) vs"
      if "xs = us @ vs @ ws" for us vs ws
      using keeps(2) [OF that] part1 [OF that] by simp
    show "length (hp_arrays h) \<le> b" if "(b, i) \<in> deeps h2 ?a (length xs) [?t]" for b i
      using foot [of b i] that cell ext1 [OF a] by (simp del: foot.simps)
  qed (use final grow arr1 node1 keeps(1) in auto)
qed

lemma push_frames_append: "push_frames cs r d st = map (\<lambda>c. (c, r, d)) cs @ st"
  by (induction cs) (simp_all add: push_frames_def)

lemma leaf_good:
  assumes "good h1 r (xs @ [t])" and "added = CellRef (hd_arr (kids_of h1 r)) (length xs)"
    and "fresh_leaf h1 added n"
  shows "good h1 added []"
proof -
  have "valid_ref h1 added" using assms(1,2) by (simp add: good_def valid_ref_def)
  with assms(3) show ?thesis by (simp add: good_def fresh_leaf_def kids_of_def nil_slice_def)
qed

lemma convert_loop_children:
  assumes grow: "growing grow"
  shows "good h r xs \<Longrightarrow>
    (case convert_children ss d n of
      Inl e \<Rightarrow> convert_loop grow (push_frames ss r d st) h n = Inl e
    | Inr (ys, n') \<Rightarrow> \<exists>h'. convert_loop grow (push_frames ss r d st) h n = convert_loop grow st h' n'
        \<and> built h h' r xs ys)"
proof (induction ss d n arbitrary: h r xs st rule: convert_children.induct)
  case (1 d n)
  then show ?case by (auto simp: push_frames_def intro: built_refl)
next
  case (2 source rest d n)
  have push: "push_frames (source # rest) r d st = (source, r, d) # push_frames rest r d st"
    by (simp add: push_frames_def)
  show ?case
  proof (cases "d > MaxMenuDepth \<or> Suc n > MaxMenuNodes")
    case True
    then show ?thesis
      by (auto simp: push convert_children.simps(2) convert_loop.simps(2))
  next
    case within: False
    show ?thesis
    proof (cases "convertNode source")
      case (Inl e)
      with within show ?thesis by (simp add: push convert_children.simps(2) convert_loop.simps(2))
    next
      case (Inr f)
      obtain h1 added where app: "append_child grow r f h = (h1, added)" by fastforce
      from append_child_built [OF grow 2(3) this]
      have b1: "built h h1 r xs [MenuNode f []]"
        and added: "added = CellRef (hd_arr (kids_of h1 r)) (length xs)"
        and leaf: "fresh_leaf h1 added f" by auto
      have step: "convert_loop grow (push_frames (source # rest) r d st) h n
          = convert_loop grow (push_frames (children_of source) added (Suc d)
              (push_frames rest r d st)) h1 (Suc n)"
        using within Inr app by (simp add: push convert_loop.simps(2))
      have g1: "good h1 added []" by (rule leaf_good [OF built_good [OF b1] added leaf])
      note ih = 2(1) [OF _ _ Inr g1, of "push_frames rest r d st"]
      show ?thesis
      proof (cases "convert_children (children_of source) (Suc d) (Suc n)")
        case (Inl e)
        with ih within Inr step show ?thesis by (simp add: convert_children.simps(2))
      next
        case sub: (Inr p)
        obtain kids n1 where p: "p = (kids, n1)" by (cases p)
        with ih within sub obtain h2 where
          loop: "convert_loop grow (push_frames (children_of source) added (Suc d)
              (push_frames rest r d st)) h1 (Suc n) = convert_loop grow (push_frames rest r d st) h2 n1"
          and b2: "built h1 h2 added [] kids" by auto
        have b3: "built h h2 r xs [MenuNode f kids]"
          by (rule fill_child [OF b1 2(3) added leaf b2])
        then have "good h2 r (xs @ [MenuNode f kids])" by (rule built_good)
        note ih2 = 2(2) [OF _ _ Inr sub p [symmetric] this, of st]
        show ?thesis
        proof (cases "convert_children rest d n1")
          case (Inl e)
          with ih2 within Inr step sub p loop \<open>convertNode source = Inr f\<close> show ?thesis
            by (simp add: convert_children.simps(2))
        next
          case others: (Inr q)
          obtain ys n2 where q: "q = (ys, n2)" by (cases q)
          with ih2 within others obtain h3 where
            "convert_loop grow (push_frames rest r d st) h2 n1 = convert_loop grow st h3 n2"
            and "built h2 h3 r (xs @ [MenuNode f kids]) ys" by auto
          with built_trans [OF b3 2(3)] step loop within Inr sub p others q show ?thesis
            by (auto simp: convert_children.simps(2))
        qed
      qed
    qed
  qed
qed

section \<open>The result\<close>

fun height :: "menu_node \<Rightarrow> nat" where
  "height (MenuNode f ts) = Suc (Max (insert 0 (height ` set ts)))"

lemma height_kid: "t \<in> set ts \<Longrightarrow> Suc (height t) \<le> height (MenuNode f ts)"
  by simp

lemma convert_children_height:
  "convert_children ss d n = Inr (ts, n') \<Longrightarrow> t \<in> set ts \<Longrightarrow> height t + d \<le> Suc MaxMenuDepth"
proof (induction ss d n arbitrary: ts n' t rule: convert_children.induct)
  case (1 d n)
  then show ?case by simp
next
  case (2 source rest d n)
  from 2(3) obtain f kids n1 ys where within: "\<not> d > MaxMenuDepth" "\<not> Suc n > MaxMenuNodes"
    and conv: "convertNode source = Inr f"
    and sub: "convert_children (children_of source) (Suc d) (Suc n) = Inr (kids, n1)"
    and others: "convert_children rest d n1 = Inr (ys, n')" and ts: "ts = MenuNode f kids # ys"
    by (auto simp: convert_children.simps(2) split: if_splits sum.splits)
  have "height k + Suc d \<le> Suc MaxMenuDepth" if "k \<in> set kids" for k
    using 2(1) [OF within conv sub that] .
  then have "height k \<le> MaxMenuDepth - d" if "k \<in> set kids" for k using that by fastforce
  then have "\<forall>x\<in>insert 0 (height ` set kids). x \<le> MaxMenuDepth - d" by auto
  then have "Max (insert 0 (height ` set kids)) \<le> MaxMenuDepth - d"
    by (intro Max.boundedI) auto
  moreover have "height (MenuNode f kids) = Suc (Max (insert 0 (height ` set kids)))"
    by (rule height.simps)
  ultimately have "height (MenuNode f kids) + d \<le> Suc MaxMenuDepth" using within(1) by linarith
  moreover have "height t + d \<le> Suc MaxMenuDepth" if "t \<in> set ys" for t
    using 2(2) [OF within conv sub refl others that] .
  ultimately show ?case using 2(4) ts by auto
qed

lemma read_tree_rep:
  shows "rep h c t \<Longrightarrow> height t \<le> fuel \<Longrightarrow> read_tree fuel h c = t"
    and "reps h a j ts \<Longrightarrow> \<forall>t\<in>set ts. height t \<le> fuel \<Longrightarrow> j + length ts \<le> length (hp_arrays h ! a) \<Longrightarrow>
      map (read_tree fuel h) (take (length ts) (drop j (hp_arrays h ! a))) = ts"
proof (induction h c t and h a j ts arbitrary: fuel and fuel rule: rep_reps.induct)
  case (1 h c f ts)
  from 1(3) obtain m where m: "fuel = Suc m" by (cases fuel) auto
  have "\<forall>t\<in>set ts. height t \<le> m"
    using 1(3) height_kid [of _ ts f] unfolding m by fastforce
  with 1 m show ?case by auto
next
  case (2 h a j)
  then show ?case by simp
next
  case (3 h a j t ts)
  then have "j < length (hp_arrays h ! a)" by simp
  then have "drop j (hp_arrays h ! a) = hp_arrays h ! a ! j # drop (Suc j) (hp_arrays h ! a)"
    by (rule Cons_nth_drop_Suc [symmetric])
  with 3 show ?case by simp
qed

text \<open>The worklist over the heap computes the recursive reading, whatever the runtime's growth.\<close>

lemma convertLayout_tree:
  assumes "growing grow"
  shows "convertLayout grow revision layout = convert_tree revision layout"
proof (cases "convertNode layout")
  case (Inl e)
  then show ?thesis by (simp add: convertLayout_def convert_tree_def)
next
  case (Inr root)
  then obtain sources where tup: "Tuple layout 3 = Some sources"
    by (auto simp: convertNode_def split: option.splits)
  let ?h = "\<lparr>hp_root = \<lparr>ce_node = root, ce_kids = nil_slice\<rparr>, hp_arrays = []\<rparr>"
  have kids: "(case Elements (Any (sources ! 2)) of None \<Rightarrow> [] | Some es \<Rightarrow> map Any es)
      = children_of layout"
    using tup by (simp add: children_of_def)
  have good: "good ?h RootRef []"
    by (simp add: good_def valid_ref_def kids_of_def nil_slice_def)
  note loop = convert_loop_children [OF assms good, where ss = "children_of layout" and d = 1 and n = 1 and st = "[]"]
  show ?thesis
  proof (cases "convert_children (children_of layout) 1 1")
    case (Inl e)
    with loop Inr tup kids show ?thesis
      by (simp add: convertLayout_def convert_tree_def Let_def)
  next
    case sub: (Inr p)
    obtain ts n where p: "p = (ts, n)" by (cases p)
    with loop sub obtain h' where
      run: "convert_loop grow (push_frames (children_of layout) RootRef 1 []) ?h 1 = Inr h'"
      and b: "built ?h h' RootRef [] ts" by auto
    from b have "rep h' (hp_root h') (MenuNode root ts)"
      by (auto simp: built_def good_def kids_of_def)
    moreover have "height (MenuNode root ts) \<le> Suc MaxMenuDepth"
    proof -
      have "\<forall>x\<in>insert 0 (height ` set ts). x \<le> MaxMenuDepth"
        using convert_children_height [OF sub [unfolded p]] by fastforce
      then show ?thesis by (simp add: Max.boundedI)
    qed
    ultimately have "read_tree (Suc MaxMenuDepth) h' (hp_root h') = MenuNode root ts"
      by (rule read_tree_rep(1))
    with run Inr tup kids sub p show ?thesis
      by (simp add: convertLayout_def convert_tree_def Let_def del: read_tree.simps)
  qed
qed

section \<open>A converted tree is within its bounds\<close>

lemma convert_children_bounds:
  "convert_children ss d n = Inr (ts, n') \<Longrightarrow> n \<le> MaxMenuNodes \<Longrightarrow>
    n' = n + sum_list (map node_count ts) \<and> n' \<le> MaxMenuNodes
    \<and> (\<forall>(e, f)\<in>set (concat (map (preorder d) ts)). e \<le> MaxMenuDepth \<and> node_ok f \<and> slice_sized f)"
proof (induction ss d n arbitrary: ts n' rule: convert_children.induct)
  case (1 d n)
  then show ?case by simp
next
  case (2 source rest d n)
  from 2(3) obtain f kids n1 ys where within: "\<not> d > MaxMenuDepth" "\<not> Suc n > MaxMenuNodes"
    and conv: "convertNode source = Inr f"
    and sub: "convert_children (children_of source) (Suc d) (Suc n) = Inr (kids, n1)"
    and others: "convert_children rest d n1 = Inr (ys, n')" and ts: "ts = MenuNode f kids # ys"
    by (auto simp: convert_children.simps(2) split: if_splits sum.splits)
  have ih1: "n1 = Suc n + sum_list (map node_count kids)" "n1 \<le> MaxMenuNodes"
    "\<forall>(e, f)\<in>set (concat (map (preorder (Suc d)) kids)). e \<le> MaxMenuDepth \<and> node_ok f \<and> slice_sized f"
    using 2(1) [OF within conv sub] within(2) by auto
  have ih2: "n' = n1 + sum_list (map node_count ys)" "n' \<le> MaxMenuNodes"
    "\<forall>(e, f)\<in>set (concat (map (preorder d) ys)). e \<le> MaxMenuDepth \<and> node_ok f \<and> slice_sized f"
    using 2(2) [OF within conv sub refl others ih1(2)] by auto
  have "node_ok f" "slice_sized f"
    using convertNode_ok [OF conv] by (simp_all add: slice_sized_def MaxMenuIconBytes_def)
  with ih1 ih2 within(1) ts show ?case by auto
qed

lemma preorder_length: "length (preorder d n) = node_count n"
  by (induction d n rule: preorder.induct) (simp add: length_concat comp_def cong: map_cong)

text \<open>
  What conversion leaves to validation: the root's identity, distinct identities and the icon total.
\<close>

lemma converted_menu:
  assumes "convert_tree revision layout = Inr m"
  shows "menu_sized m" and "me_Revision m = revision"
    and "menu_ok m \<longleftrightarrow> mn_ID (nd_fields (me_Root m)) = 0 \<and> distinct (ids (preorder 0 (me_Root m)))
      \<and> icon_bytes (preorder 0 (me_Root m)) \<le> MaxMenuIconBytes"
proof -
  from assms obtain root kids n where conv: "convertNode layout = Inr root"
    and sub: "convert_children (children_of layout) 1 1 = Inr (kids, n)"
    and m: "m = \<lparr>me_Revision = revision, me_Root = MenuNode root kids\<rparr>"
    by (auto simp: convert_tree_def split: sum.splits)
  have one: "1 \<le> MaxMenuNodes" by (simp add: MaxMenuNodes_def)
  note b = convert_children_bounds [OF sub one]
  have "node_ok root" "slice_sized root"
    using convertNode_ok [OF conv] by (simp_all add: slice_sized_def MaxMenuIconBytes_def)
  with b have all: "\<forall>(e, f)\<in>set (preorder 0 (me_Root m)). e \<le> MaxMenuDepth \<and> node_ok f \<and> slice_sized f"
    by (auto simp: m)
  then show "menu_sized m" by (auto simp: menu_sized_def)
  have "length (preorder 0 (me_Root m)) \<le> MaxMenuNodes"
    using b by (simp only: preorder_length m) simp
  with all show "menu_ok m \<longleftrightarrow> mn_ID (nd_fields (me_Root m)) = 0
      \<and> distinct (ids (preorder 0 (me_Root m))) \<and> icon_bytes (preorder 0 (me_Root m)) \<le> MaxMenuIconBytes"
    by (auto simp: menu_ok_def walk_ok_def)
  show "me_Revision m = revision" by (simp add: m)
qed

end
