(* ===== verification/Menu_Proxy.thy ===== *)
theory Menu_Proxy
  imports Menu_Convert
begin

text \<open>
  The proxy of one item's menu, \<open>internal/menu/proxy.go\<close>: its revision, the refresh that fetches,
  converts, validates and publishes a layout, the signals that ask for one, and the commands, each
  of which rechecks the item's generation and the revision. \<open>p.mu\<close> makes each operation one step;
  the D-Bus call of a command is the parameter \<open>bus\<close>, acting on a state of any type.
\<close>

section \<open>State\<close>

record menu_proxy =
  mp_key :: item_key
  mp_revision :: uint32
  mp_known :: bool
  mp_wake :: bool

definition NewProxy :: "item_key \<Rightarrow> menu_proxy" where
  "NewProxy key = \<lparr>mp_key = key, mp_revision = 0, mp_known = False, mp_wake = False\<rparr>"

datatype menu_fail = MOwnerLeft | MReadFailed bytes | MBodyLength nat | MRevisionType
  | MConvert menu_error | MInvalid walk_error

record menu_update =
  mu_Key :: item_key
  mu_Menu :: "menu_fail + menu"

definition Interface :: bytes where [const_defs]: "Interface = ''com.canonical.dbusmenu''"

definition trigger :: "menu_proxy \<Rightarrow> menu_proxy" where
  "trigger p = p\<lparr>mp_wake := True\<rparr>"

definition Revision :: "menu_proxy \<Rightarrow> uint32" where
  "Revision p = mp_revision p"

section \<open>Signals\<close>

definition menu_handle :: "dsignal \<Rightarrow> menu_proxy \<Rightarrow> menu_update option \<times> menu_proxy" where
  "menu_handle sg p =
    (if sg_Name sg = ''org.freedesktop.DBus.NameOwnerChanged'' then
       (if length (sg_Body sg) \<noteq> 3 then (None, p)
        else if as_string (sg_Body sg ! 0) = ik_Owner (mp_key p) \<and> as_string (sg_Body sg ! 2) = []
        then (Some \<lparr>mu_Key = mp_key p, mu_Menu = Inl MOwnerLeft\<rparr>, p)
        else (None, p))
     else if sg_Name sg = Interface @ ''.LayoutUpdated'' then
       (case sg_Body sg of
         DUint32 revision # rest \<Rightarrow>
           if mp_known p \<and> revision < mp_revision p then (None, p) else (None, trigger p)
       | _ \<Rightarrow> (None, p))
     else if sg_Name sg = Interface @ ''.ItemsPropertiesUpdated'' then (None, trigger p)
     else (None, p))"

section \<open>Refresh\<close>

definition getLayout :: "call_reply \<Rightarrow> menu_fail + uint32 \<times> dval" where
  "getLayout reply =
    (case reply of
      Body body \<Rightarrow>
        if length body \<noteq> 2 then Inl (MBodyLength (length body))
        else (case body ! 0 of
          DUint32 revision \<Rightarrow> Inr (revision, body ! 1)
        | _ \<Rightarrow> Inl MRevisionType)
    | _ \<Rightarrow> Inl (MReadFailed (the (call_error reply))))"

definition menu_refresh ::
  "growth \<Rightarrow> call_reply \<Rightarrow> menu_proxy \<Rightarrow> menu_update option \<times> menu_proxy" where
  "menu_refresh grow reply p =
    (let failed = (\<lambda>e. Some \<lparr>mu_Key = mp_key p, mu_Menu = Inl e\<rparr>) in
     case getLayout reply of
       Inl e \<Rightarrow> (if reply = CallCanceled then (None, p) else (failed e, p))
     | Inr (revision, layout) \<Rightarrow>
         (case convertLayout grow revision layout of
           Inl e \<Rightarrow> (failed (MConvert e), p)
         | Inr tree \<Rightarrow>
             (case Validate tree of
               Some e \<Rightarrow> (failed (MInvalid e), p)
             | None \<Rightarrow>
                 (Some \<lparr>mu_Key = mp_key p, mu_Menu = Inr tree\<rparr>,
                  p\<lparr>mp_revision := revision, mp_known := True\<rparr>))))"

section \<open>Commands\<close>

type_synonym 'b menu_bus = "bytes \<Rightarrow> method_arg list \<Rightarrow> 'b \<Rightarrow> call_reply \<times> 'b"

definition menu_check :: "(uint32 \<Rightarrow> bytes) \<Rightarrow> item_key \<Rightarrow> uint32 \<Rightarrow> menu_proxy \<Rightarrow> protocol_error goerror" where
  "menu_check revision_text key revision p =
    (if key \<noteq> mp_key p then
       Some \<lparr>pe_Code = ErrorStaleItem, pe_Message = ''item generation changed''\<rparr>
     else if Revision p \<noteq> revision then
       Some \<lparr>pe_Code = ErrorStaleRevision, pe_Message = revision_text (Revision p)\<rparr>
     else None)"

definition event ::
  "(uint32 \<Rightarrow> bytes) \<Rightarrow> 'b menu_bus \<Rightarrow> item_key \<Rightarrow> uint32 \<Rightarrow> int32 \<Rightarrow> bytes \<Rightarrow> uint32 \<Rightarrow> menu_proxy \<Rightarrow> 'b \<Rightarrow>
    protocol_error goerror \<times> 'b" where
  "event revision_text bus key revision ident name timestamp p b =
    (case menu_check revision_text key revision p of
      Some e \<Rightarrow> (Some e, b)
    | None \<Rightarrow>
        let (reply, b) = bus (Interface @ ''.Event'')
              [ArgInt ident, ArgText name, ArgVariant (DString []), ArgWord timestamp] b
        in (case call_error reply of
              Some t \<Rightarrow> (Some \<lparr>pe_Code = ErrorUnavailable, pe_Message = t\<rparr>, b)
            | None \<Rightarrow> (None, b)))"

definition Select where
  "Select revision_text bus key revision ident timestamp =
    event revision_text bus key revision ident ''clicked'' timestamp"

definition Opened where
  "Opened revision_text bus key revision ident = event revision_text bus key revision ident ''opened'' 0"

definition Closed where
  "Closed revision_text bus key revision ident = event revision_text bus key revision ident ''closed'' 0"

definition AboutToShow ::
  "(uint32 \<Rightarrow> bytes) \<Rightarrow> 'b menu_bus \<Rightarrow> item_key \<Rightarrow> uint32 \<Rightarrow> int32 \<Rightarrow> menu_proxy \<Rightarrow> 'b \<Rightarrow>
    (protocol_error + bool) \<times> menu_proxy \<times> 'b" where
  "AboutToShow revision_text bus key revision ident p b =
    (let malformed = \<lparr>pe_Code = ErrorInvalid, pe_Message = ''malformed AboutToShow reply''\<rparr> in
     case menu_check revision_text key revision p of
       Some e \<Rightarrow> (Inl e, p, b)
     | None \<Rightarrow>
         let (reply, b) = bus (Interface @ ''.AboutToShow'') [ArgInt ident] b in
         (case reply of
           Body body \<Rightarrow>
             if length body \<noteq> 1 then (Inl malformed, p, b)
             else (case body ! 0 of
               DBool needed \<Rightarrow> (Inr needed, if needed then trigger p else p, b)
             | _ \<Rightarrow> (Inl malformed, p, b))
         | _ \<Rightarrow> (Inl \<lparr>pe_Code = ErrorUnavailable, pe_Message = the (call_error reply)\<rparr>, p, b)))"

section \<open>Every state a proxy reaches\<close>

text \<open>
  The proxy with what it has published, oldest first. A refresh takes the pending wake.
\<close>

inductive proxy_run :: "growth \<Rightarrow> item_key \<Rightarrow> menu_proxy \<Rightarrow> menu_update list \<Rightarrow> bool"
  for grow key where
  starts: "proxy_run grow key (trigger (NewProxy key)) []"
| signals: "proxy_run grow key p us \<Longrightarrow> menu_handle sg p = (u, p') \<Longrightarrow>
    proxy_run grow key p' (us @ (case u of None \<Rightarrow> [] | Some x \<Rightarrow> [x]))"
| refreshes: "proxy_run grow key p us \<Longrightarrow> mp_wake p \<Longrightarrow>
    menu_refresh grow reply (p\<lparr>mp_wake := False\<rparr>) = (u, p') \<Longrightarrow>
    proxy_run grow key p' (us @ (case u of None \<Rightarrow> [] | Some x \<Rightarrow> [x]))"
| triggers: "proxy_run grow key p us \<Longrightarrow> proxy_run grow key (trigger p) us"

text \<open>The trees among the updates.\<close>

definition trees :: "menu_update list \<Rightarrow> menu list" where
  "trees us = List.map_filter (\<lambda>u. case mu_Menu u of Inl e \<Rightarrow> None | Inr m \<Rightarrow> Some m) us"

lemma trees_simps [simp]:
  "trees [] = []"
  "trees (us @ vs) = trees us @ trees vs"
  "trees [\<lparr>mu_Key = k, mu_Menu = Inl e\<rparr>] = []"
  "trees [\<lparr>mu_Key = k, mu_Menu = Inr m\<rparr>] = [m]"
  by (simp_all add: trees_def List.map_filter_def)

text \<open>
  The proxy knows a revision exactly if it has published a tree, and it is the last tree's. Every
  published tree passes both validators.
\<close>

definition proxy_inv :: "item_key \<Rightarrow> menu_proxy \<Rightarrow> menu_update list \<Rightarrow> bool" where
  "proxy_inv key p us \<longleftrightarrow> mp_key p = key \<and> (\<forall>u\<in>set us. mu_Key u = key)
     \<and> (mp_known p \<longleftrightarrow> trees us \<noteq> [])
     \<and> mp_revision p = (if trees us = [] then 0 else me_Revision (last (trees us)))
     \<and> (\<forall>m\<in>set (trees us). menu_ok m \<and> menu_sized m)"

lemma menu_handle_frame:
  "menu_handle sg p = (u, p') \<Longrightarrow> mp_key p' = mp_key p \<and> mp_known p' = mp_known p
    \<and> mp_revision p' = mp_revision p
    \<and> (u = None \<or> u = Some \<lparr>mu_Key = mp_key p, mu_Menu = Inl MOwnerLeft\<rparr>)"
  by (auto simp: menu_handle_def trigger_def split: if_splits list.splits dval.splits)

lemma menu_refresh_cases:
  assumes "growing grow" and "menu_refresh grow reply p = (u, p')"
  obtains (nothing) "u = None" "p' = p"
    | (failed) e where "u = Some \<lparr>mu_Key = mp_key p, mu_Menu = Inl e\<rparr>" "p' = p"
    | (tree) m where "u = Some \<lparr>mu_Key = mp_key p, mu_Menu = Inr m\<rparr>" "menu_ok m" "menu_sized m"
        "p' = p\<lparr>mp_revision := me_Revision m, mp_known := True\<rparr>"
proof (cases "getLayout reply")
  case (Inl e)
  show ?thesis
  proof (cases "reply = CallCanceled")
    case True
    show ?thesis by (rule nothing) (use True Inl assms(2) in \<open>auto simp: menu_refresh_def\<close>)
  next
    case False
    show ?thesis
      by (rule failed [of e]) (use False Inl assms(2) in \<open>auto simp: menu_refresh_def\<close>)
  qed
next
  case (Inr rl)
  obtain revision layout where rl: "rl = (revision, layout)" by (cases rl)
  show ?thesis
  proof (cases "convertLayout grow revision layout")
    case (Inl e)
    show ?thesis
      by (rule failed [of "MConvert e"])
        (use Inl Inr rl assms(2) in \<open>auto simp: menu_refresh_def\<close>)
  next
    case conv: (Inr m)
    then have "convert_tree revision layout = Inr m" using convertLayout_tree [OF assms(1)] by simp
    note m = converted_menu [OF this]
    show ?thesis
    proof (cases "Validate m")
      case None
      then have "menu_ok m" using Validate_ok [OF m(1)] by simp
      show ?thesis
        by (rule tree [of m])
          (use \<open>menu_ok m\<close> None Inr rl conv m(1,2) assms(2) in \<open>auto simp: menu_refresh_def\<close>)
    next
      case (Some e)
      show ?thesis
        by (rule failed [of "MInvalid e"])
          (use Some Inr rl conv assms(2) in \<open>auto simp: menu_refresh_def\<close>)
    qed
  qed
qed

lemma proxy_run_inv:
  assumes "growing grow" and "proxy_run grow key p us"
  shows "proxy_inv key p us"
  using assms(2)
proof (induction rule: proxy_run.induct)
  case (signals p us sg u p')
  with menu_handle_frame [OF signals(2)] show ?case by (auto simp: proxy_inv_def)
next
  case (refreshes p us reply u p')
  from menu_refresh_cases [OF assms(1) refreshes(3)] show ?case
    by cases (use refreshes(4) in \<open>auto simp: proxy_inv_def\<close>)
qed (auto simp: proxy_inv_def trigger_def NewProxy_def)

section \<open>What reaches the application\<close>

lemma menu_check_None:
  "menu_check text key revision p = None \<longleftrightarrow> key = mp_key p \<and> revision = mp_revision p"
  by (auto simp: menu_check_def Revision_def)

lemma event_bus:
  "snd (event text bus key revision ident name timestamp p b) =
    (if key = mp_key p \<and> revision = mp_revision p
     then snd (bus (Interface @ ''.Event'')
       [ArgInt ident, ArgText name, ArgVariant (DString []), ArgWord timestamp] b)
     else b)"
  by (auto simp: event_def menu_check_def Revision_def Let_def split: option.splits prod.splits)

lemma AboutToShow_bus:
  "snd (snd (AboutToShow text bus key revision ident p b)) =
    (if key = mp_key p \<and> revision = mp_revision p
     then snd (bus (Interface @ ''.AboutToShow'') [ArgInt ident] b) else b)"
  by (auto simp: AboutToShow_def menu_check_def Revision_def Let_def
    split: option.splits prod.splits call_reply.splits dval.splits)

end
