(* ===== verification/Item_Model.thy ===== *)
theory Item_Model
  imports Validation Dbusval
begin

text \<open>
  Reading a StatusNotifierItem: \<open>internal/item/pixmap.go\<close>, \<open>internal/item/model.go\<close> and the
  parts of \<open>internal/item/proxy.go\<close> that decide what is published. The map of properties holds the
  contents of its variants. \<open>dbus.ObjectPath.IsValid\<close> is the parameter \<open>path_valid\<close>; of it the
  lemmas use what the D-Bus specification says of a valid path (\<open>path_spec\<close>).
\<close>

section \<open>Pixmaps\<close>

definition pixmapFields :: "rvalue \<Rightarrow> (int \<times> int \<times> bytes) option" where
  "pixmapFields value =
    (if value = None \<or> \<not> CanInterface value then None
     else case Tuple (snd (the value)) 3 of
       None \<Rightarrow> None
     | Some fs \<Rightarrow>
         (case Int_value (fs ! 0) of
           None \<Rightarrow> None
         | Some width \<Rightarrow>
             (case Int_value (fs ! 1) of
               None \<Rightarrow> None
             | Some height \<Rightarrow>
                 (case Bytes (fs ! 2) of None \<Rightarrow> None | Some data \<Rightarrow> Some (width, height, data)))))"

text \<open>The loop keeps a candidate or skips it; skipping changes nothing.\<close>

fun decode_loop :: "nat \<Rightarrow> nat \<Rightarrow> rvalue list \<Rightarrow> pixmap list \<Rightarrow> pixmap list" where
  "decode_loop budget tot [] acc = acc"
| "decode_loop budget tot (el # els) acc =
    (case pixmapFields el of
      None \<Rightarrow> decode_loop budget tot els acc
    | Some (width, height, data) \<Rightarrow>
        if width \<le> 0 \<or> height \<le> 0 then decode_loop budget tot els acc
        else if width > uint MaxPixmapDimension \<or> height > uint MaxPixmapDimension
        then decode_loop budget tot els acc
        else if (of_int width * of_int height * 4 :: uint64) \<noteq> of_nat (length data)
        then decode_loop budget tot els acc
        else if tot + length data > budget then decode_loop budget tot els acc
        else decode_loop budget (tot + length data) els
          (acc @ [\<lparr>px_Width = of_int width, px_Height = of_int height, px_ARGB = data\<rparr>]))"

text \<open>The result slice starts nil and is nil unless something was appended.\<close>

definition decodePixmaps :: "dval \<Rightarrow> nat \<Rightarrow> pixmap slice" where
  "decodePixmaps v budget =
    (case Elements v of
      None \<Rightarrow> None
    | Some els \<Rightarrow> (case decode_loop budget 0 els [] of [] \<Rightarrow> None | ps \<Rightarrow> Some ps))"

section \<open>Fields\<close>

type_synonym props = "(bytes, dval) gomap"

definition text_of :: "props \<Rightarrow> bytes \<Rightarrow> nat \<Rightarrow> bytes" where
  "text_of ps name limit =
    (case gm_get ps name of Some (DString v) \<Rightarrow> clamp v limit | _ \<Rightarrow> [])"

definition boolean :: "props \<Rightarrow> bytes \<Rightarrow> bool" where
  "boolean ps name = (case gm_get ps name of Some (DBool b) \<Rightarrow> b | _ \<Rightarrow> False)"

definition objectPath :: "(bytes \<Rightarrow> bool) \<Rightarrow> props \<Rightarrow> bytes \<Rightarrow> bytes" where
  "objectPath path_valid ps name =
    (let check = (\<lambda>candidate. if \<not> path_valid candidate then [] else candidate) in
     case gm_get ps name of
       Some (DObjectPath v) \<Rightarrow> check v
     | Some (DString v) \<Rightarrow> check v
     | _ \<Rightarrow> [])"

definition category :: "props \<Rightarrow> bytes" where
  "category ps =
    (let v = text_of ps ''Category'' MaxTextBytes in
     if v \<in> set [CategoryApplicationStatus, CategoryCommunications, CategorySystemServices,
         CategoryHardware] then v
     else CategoryApplicationStatus)"

definition status :: "props \<Rightarrow> bytes" where
  "status ps =
    (let v = text_of ps ''Status'' MaxTextBytes in
     if v \<in> set [StatusPassive, StatusActive, StatusNeedsAttention] then v else StatusActive)"

text \<open>The pixmap budget is threaded through the three icons and the tooltip.\<close>

definition icon_of :: "props \<Rightarrow> bytes \<Rightarrow> bytes \<Rightarrow> bytes \<Rightarrow> nat \<Rightarrow> icon \<times> nat" where
  "icon_of ps nameKey pixmapKey themeKey budget =
    (let result = \<lparr>ic_Name = text_of ps nameKey MaxTextBytes,
           ic_ThemePath = text_of ps themeKey MaxTextBytes, ic_Pixmaps = None\<rparr> in
     case gm_get ps pixmapKey of
       None \<Rightarrow> (result, budget)
     | Some v \<Rightarrow>
         let pixmaps = decodePixmaps v budget in
         (result\<lparr>ic_Pixmaps := pixmaps\<rparr>, budget - (\<Sum>p\<leftarrow>elems pixmaps. length (px_ARGB p))))"

definition tooltip_of :: "props \<Rightarrow> nat \<Rightarrow> tooltip \<times> nat" where
  "tooltip_of ps budget =
    (case gm_get ps ''ToolTip'' of
      None \<Rightarrow> (zero_tooltip, budget)
    | Some v \<Rightarrow>
        (case Tuple v 4 of
          None \<Rightarrow> (zero_tooltip, budget)
        | Some fs \<Rightarrow>
            let result = \<lparr>tt_IconName = clamp (String (fs ! 0)) MaxTextBytes, tt_Pixmaps = None,
                  tt_Title = clamp (String (fs ! 2)) MaxTooltipBytes,
                  tt_Description = clamp (String (fs ! 3)) MaxTooltipBytes\<rparr>
            in if fs ! 1 \<noteq> None \<and> CanInterface (fs ! 1) then
                 let pixmaps = decodePixmaps (snd (the (fs ! 1))) budget in
                 (result\<lparr>tt_Pixmaps := pixmaps\<rparr>,
                  budget - (\<Sum>p\<leftarrow>elems pixmaps. length (px_ARGB p)))
               else (result, budget)))"

definition normalize :: "(bytes \<Rightarrow> bool) \<Rightarrow> item_key \<Rightarrow> props \<Rightarrow> item" where
  "normalize path_valid key ps =
    (let ident = text_of ps ''Id'' MaxTextBytes;
         (ic, b1) = icon_of ps ''IconName'' ''IconPixmap'' ''IconThemePath'' MaxPixmapBytesPerItem;
         (att, b2) = icon_of ps ''AttentionIconName'' ''AttentionIconPixmap'' ''IconThemePath'' b1;
         (ov, b3) = icon_of ps ''OverlayIconName'' ''OverlayIconPixmap'' ''IconThemePath'' b2;
         (tt, b4) = tooltip_of ps b3
     in \<lparr>it_Key = key,
         it_ID = (if ident = [] then ik_Owner key @ ik_ObjectPath key else ident),
         it_Title = text_of ps ''Title'' MaxTextBytes,
         it_Category = category ps, it_Status = status ps,
         it_Icon = ic, it_AttentionIcon = att, it_OverlayIcon = ov, it_Tooltip = tt,
         it_MenuPath = objectPath path_valid ps ''Menu'',
         it_ItemIsMenu = boolean ps ''ItemIsMenu'', it_CloseSupported = False\<rparr>)"

section \<open>What is published\<close>

datatype item_fail = OwnerLeft | ReadFailed | DecodeFailed | InvalidState fault

record item_result =
  ir_Key :: item_key
  ir_Item :: "item_fail + item"

text \<open>
  \<open>refresh\<close> on the reply of its \<open>GetAll\<close> call: what it publishes, and whether it marks the item
  dirty again. \<open>live\<close> says that the proxy's own context is not done; \<open>store\<close> is
  \<open>call.Store(&props)\<close>, the bus library's reading of a reply as a map of variants.
\<close>

definition refresh ::
  "(bytes \<Rightarrow> bool) \<Rightarrow> (dval list \<Rightarrow> props option) \<Rightarrow> item_key \<Rightarrow> bool \<Rightarrow> call_reply \<Rightarrow>
    item_result option \<times> bool" where
  "refresh path_valid store key live reply =
    (case reply of
      CallCanceled \<Rightarrow> (None, False)
    | CallTimedOut \<Rightarrow> (None, live)
    | CallFailed t \<Rightarrow> (Some \<lparr>ir_Key = key, ir_Item = Inl ReadFailed\<rparr>, False)
    | Body body \<Rightarrow>
        (case store body of
          None \<Rightarrow> (Some \<lparr>ir_Key = key, ir_Item = Inl DecodeFailed\<rparr>, False)
        | Some ps \<Rightarrow>
            let it = normalize path_valid key ps in
            (case Item_Validate it of
              Some e \<Rightarrow> (Some \<lparr>ir_Key = key, ir_Item = Inl (InvalidState e)\<rparr>, False)
            | None \<Rightarrow> (Some \<lparr>ir_Key = key, ir_Item = Inr it\<rparr>, False))))"

definition item_ownerLeft :: "item_key \<Rightarrow> dsignal \<Rightarrow> bool" where
  "item_ownerLeft key sg =
    (if sg_Name sg \<noteq> ''org.freedesktop.DBus.NameOwnerChanged'' \<or> length (sg_Body sg) \<noteq> 3 then False
     else as_string (sg_Body sg ! 0) = ik_Owner key \<and> as_string (sg_Body sg ! 2) = [])"

text \<open>One signal of \<open>pump\<close>: publish and stop, mark dirty, or ignore.\<close>

datatype pump_step = PumpStop item_result | PumpTrigger | PumpIgnore

definition item_pump :: "item_key \<Rightarrow> dsignal \<Rightarrow> pump_step" where
  "item_pump key sg =
    (if item_ownerLeft key sg then PumpStop \<lparr>ir_Key = key, ir_Item = Inl OwnerLeft\<rparr>
     else if sg_Path sg = ik_ObjectPath key then PumpTrigger
     else PumpIgnore)"

section \<open>Commands of an item\<close>

text \<open>A method call on the item's object: \<open>bus\<close> performs it and returns the reply.\<close>

type_synonym 'b item_bus = "item_key \<Rightarrow> bytes \<Rightarrow> method_arg list \<Rightarrow> 'b \<Rightarrow> call_reply \<times> 'b"

definition ItemInterface :: bytes where
  [const_defs]: "ItemInterface = ''org.kde.StatusNotifierItem''"

definition item_invoke ::
  "'b item_bus \<Rightarrow> item_key \<Rightarrow> item_key \<Rightarrow> bytes \<Rightarrow> method_arg list \<Rightarrow> 'b \<Rightarrow>
    protocol_error goerror \<times> 'b" where
  "item_invoke bus own key member args b =
    (if key \<noteq> own then
       (Some \<lparr>pe_Code = ErrorStaleItem, pe_Message = ''item generation changed''\<rparr>, b)
     else let (reply, b) = bus own (ItemInterface @ ''.'' @ member) args b in
       (case call_error reply of
         Some t \<Rightarrow> (Some \<lparr>pe_Code = ErrorUnavailable, pe_Message = t\<rparr>, b)
       | None \<Rightarrow> (None, b)))"

definition item_Activate ::
  "'b item_bus \<Rightarrow> item_key \<Rightarrow> item_key \<Rightarrow> int32 \<Rightarrow> int32 \<Rightarrow> 'b \<Rightarrow> protocol_error goerror \<times> 'b" where
  "item_Activate bus own key x y = item_invoke bus own key ''Activate'' [ArgInt x, ArgInt y]"

definition item_SecondaryActivate ::
  "'b item_bus \<Rightarrow> item_key \<Rightarrow> item_key \<Rightarrow> int32 \<Rightarrow> int32 \<Rightarrow> 'b \<Rightarrow> protocol_error goerror \<times> 'b" where
  "item_SecondaryActivate bus own key x y =
    item_invoke bus own key ''SecondaryActivate'' [ArgInt x, ArgInt y]"

definition item_Scroll ::
  "'b item_bus \<Rightarrow> item_key \<Rightarrow> item_key \<Rightarrow> int32 \<Rightarrow> bytes \<Rightarrow> 'b \<Rightarrow> protocol_error goerror \<times> 'b" where
  "item_Scroll bus own key delta orientation b =
    (if orientation \<notin> set [ScrollVertical, ScrollHorizontal] then
       (Some \<lparr>pe_Code = ErrorInvalid, pe_Message = ''unknown scroll orientation''\<rparr>, b)
     else item_invoke bus own key ''Scroll'' [ArgInt delta, ArgText orientation] b)"

section \<open>Pixmaps are valid and within their budget\<close>

lemma small_product:
  assumes "0 < width" "width \<le> 512" "0 < height" "height \<le> 512"
    and "(of_int width * of_int height * 4 :: uint64) = of_nat n" and "n < 18446744073709551616"
  shows "n = nat width * nat height * 4"
proof -
  have "nat width * nat height * 4 \<le> 512 * 512 * 4"
    using assms(1-4) by (intro mult_le_mono) auto
  then have "nat width * nat height * 4 < 18446744073709551616" by simp
  moreover have "(of_nat (nat width * nat height * 4) :: uint64) = of_nat n"
    using assms(1,3,5) by (simp add: of_nat_nat)
  ultimately show ?thesis using of_nat_eq_iff_64 assms(6) by blast
qed

lemma pixmap_of_ok:
  assumes "0 < width" "width \<le> 512" "0 < height" "height \<le> 512"
    and "length data = nat width * nat height * 4"
  shows "pixmap_ok \<lparr>px_Width = of_int width, px_Height = of_int height, px_ARGB = data\<rparr>"
proof -
  have "unat (of_int width :: uint32) = nat width" "unat (of_int height :: uint32) = nat height"
    using assms(1-4) by (simp_all add: unsigned_of_int take_bit_int_eq_self)
  with assms show ?thesis by (simp add: pixmap_ok_def nat_le_iff)
qed

text \<open>The pixmap a candidate becomes, if it is kept.\<close>

definition candidate :: "nat \<Rightarrow> rvalue \<Rightarrow> pixmap option" where
  "candidate room el =
    (case pixmapFields el of
      None \<Rightarrow> None
    | Some (w, h, data) \<Rightarrow>
        if w \<le> 0 \<or> h \<le> 0 \<or> w > 512 \<or> h > 512
          \<or> (of_int w * of_int h * 4 :: uint64) \<noteq> of_nat (length data) \<or> length data > room
        then None
        else Some \<lparr>px_Width = of_int w, px_Height = of_int h, px_ARGB = data\<rparr>)"

lemma decode_loop_step:
  assumes "tot \<le> budget"
  shows "decode_loop budget tot (el # els) acc =
    (case candidate (budget - tot) el of
      None \<Rightarrow> decode_loop budget tot els acc
    | Some p \<Rightarrow> decode_loop budget (tot + length (px_ARGB p)) els (acc @ [p]))"
proof (cases "pixmapFields el")
  case None
  then show ?thesis by (simp add: candidate_def)
next
  case (Some r)
  obtain w h data where r: "r = (w, h, data)" by (cases r)
  have room: "tot + length data > budget \<longleftrightarrow> length data > budget - tot" using assms by auto
  have max: "uint MaxPixmapDimension = 512" by (simp add: MaxPixmapDimension_def)
  show ?thesis
    unfolding decode_loop.simps Some r option.case prod.case room max candidate_def by simp
qed

lemma candidate_ok:
  assumes "candidate room el = Some p" and "room \<le> 2097152"
  shows "pixmap_ok p \<and> length (px_ARGB p) \<le> room"
proof -
  from assms(1) obtain w h data where bounds: "0 < w" "w \<le> 512" "0 < h" "h \<le> 512"
    and size: "(of_int w * of_int h * 4 :: uint64) = of_nat (length data)" "length data \<le> room"
    and p: "p = \<lparr>px_Width = of_int w, px_Height = of_int h, px_ARGB = data\<rparr>"
    by (auto simp: candidate_def not_le not_less split: option.splits prod.splits if_splits)
  from size(2) assms(2) have "length data < 18446744073709551616" by linarith
  from small_product [OF bounds size(1) this] pixmap_of_ok [OF bounds] size(2) p
  show ?thesis by simp
qed

lemma decode_loop_ok:
  assumes "tot \<le> budget" and "budget \<le> 2097152" and "\<forall>p\<in>set acc. pixmap_ok p"
    and "pixmap_bytes acc = tot"
  shows "(\<forall>p\<in>set (decode_loop budget tot els acc). pixmap_ok p)
    \<and> pixmap_bytes (decode_loop budget tot els acc) \<le> budget"
  using assms
proof (induction els arbitrary: tot acc)
  case Nil
  then show ?case by simp
next
  case (Cons el els)
  show ?case
  proof (cases "candidate (budget - tot) el")
    case None
    with Cons show ?thesis by (simp add: decode_loop_step del: decode_loop.simps)
  next
    case (Some p)
    from Cons.prems(2) have "budget - tot \<le> 2097152" by simp
    from candidate_ok [OF Some this] Cons.prems(1)
    have p: "pixmap_ok p" "tot + length (px_ARGB p) \<le> budget" by auto
    with Cons.IH [of "tot + length (px_ARGB p)" "acc @ [p]"] Cons.prems Some show ?thesis
      by (simp add: decode_loop_step del: decode_loop.simps)
  qed
qed

lemma decodePixmaps_ok:
  assumes "budget \<le> MaxPixmapBytesPerItem"
  shows "\<forall>p\<in>set (elems (decodePixmaps v budget)). pixmap_ok p"
    and "pixmap_bytes (elems (decodePixmaps v budget)) \<le> budget"
    and "decodePixmaps v budget \<noteq> Some []"
proof -
  have ok: "(\<forall>p\<in>set (decode_loop budget 0 els []). pixmap_ok p)
      \<and> pixmap_bytes (decode_loop budget 0 els []) \<le> budget" for els
    using assms by (intro decode_loop_ok) (simp_all add: MaxPixmapBytesPerItem_def)
  have "elems (decodePixmaps v budget) = [] \<or>
      (\<exists>els. elems (decodePixmaps v budget) = decode_loop budget 0 els [])"
    by (auto simp: decodePixmaps_def split: option.splits list.splits) metis
  with ok show "\<forall>p\<in>set (elems (decodePixmaps v budget)). pixmap_ok p"
    and "pixmap_bytes (elems (decodePixmaps v budget)) \<le> budget"
    by (metis list.set(1) empty_iff, metis pixmap_bytes_simps(1) zero_le)
  show "decodePixmaps v budget \<noteq> Some []"
    by (simp add: decodePixmaps_def split: option.splits list.splits)
qed

section \<open>A normalised item\<close>

text \<open>What the D-Bus specification says of a valid object path.\<close>

definition path_spec :: "(bytes \<Rightarrow> bool) \<Rightarrow> bool" where
  "path_spec path_valid \<longleftrightarrow> (\<forall>v. path_valid v \<longrightarrow> HasPrefix v ''/'' \<and> (\<forall>c\<in>set v. byte_val c < 128))"

lemma text_of_ok: "text_ok limit (text_of ps name limit)"
  by (simp add: text_of_def split: option.splits dval.splits)

lemma icon_of_ok:
  assumes "icon_of ps nk pk tk budget = (ic, left)" and "budget \<le> MaxPixmapBytesPerItem"
  shows "icon_ok ic" and "pixmap_bytes (elems (ic_Pixmaps ic)) + left = budget"
    and "ic_Pixmaps ic \<noteq> Some []"
  using assms decodePixmaps_ok [OF assms(2)]
  by (auto simp: icon_of_def Let_def icon_ok_def text_of_ok pixmap_bytes_def split: option.splits)

lemma tooltip_of_ok:
  assumes "tooltip_of ps budget = (tt, left)" and "budget \<le> MaxPixmapBytesPerItem"
  shows "tooltip_ok tt" and "pixmap_bytes (elems (tt_Pixmaps tt)) + left = budget"
    and "tt_Pixmaps tt \<noteq> Some []"
  using assms decodePixmaps_ok [OF assms(2)]
  by (auto simp: tooltip_of_def Let_def tooltip_ok_def zero_tooltip_def pixmap_bytes_def
    split: option.splits if_splits)

lemma category_valid: "Category_valid (category ps)"
  by (simp add: category_def Let_def Category_valid_def)

lemma status_valid: "Status_valid (status ps)"
  by (simp add: status_def Let_def Status_valid_def)

lemma objectPath_ok:
  assumes "path_spec path_valid"
  shows "objectPath path_valid ps name = [] \<or>
    ValidString (objectPath path_valid ps name) \<and> HasPrefix (objectPath path_valid ps name) ''/''"
proof -
  have "objectPath path_valid ps name = [] \<or> path_valid (objectPath path_valid ps name)"
    by (auto simp: objectPath_def Let_def split: option.splits dval.splits)
  with assms ValidString_ascii show ?thesis by (auto simp: path_spec_def)
qed

lemma normalize_simps:
  "it_Key (normalize pv key ps) = key"
  "it_MenuPath (normalize pv key ps) = objectPath pv ps ''Menu''"
  "it_Title (normalize pv key ps) = text_of ps ''Title'' MaxTextBytes"
  "it_Category (normalize pv key ps) = category ps"
  "it_Status (normalize pv key ps) = status ps"
  "it_ID (normalize pv key ps) = (if text_of ps ''Id'' MaxTextBytes = []
     then ik_Owner key @ ik_ObjectPath key else text_of ps ''Id'' MaxTextBytes)"
  by (simp_all add: normalize_def Let_def split: prod.split)

lemma normalize_pixmaps:
  fixes pv key ps
  defines "it \<equiv> normalize pv key ps"
  shows "icon_ok (it_Icon it) \<and> icon_ok (it_AttentionIcon it) \<and> icon_ok (it_OverlayIcon it)
    \<and> tooltip_ok (it_Tooltip it) \<and> pixmap_bytes (item_pixmaps it) \<le> MaxPixmapBytesPerItem"
    and "Some [] \<notin> set [ic_Pixmaps (it_Icon it), ic_Pixmaps (it_AttentionIcon it),
      ic_Pixmaps (it_OverlayIcon it), tt_Pixmaps (it_Tooltip it)]"
proof -
  obtain ic b1 att b2 ov b3 tt b4 where
    i: "icon_of ps ''IconName'' ''IconPixmap'' ''IconThemePath'' MaxPixmapBytesPerItem = (ic, b1)"
    and a: "icon_of ps ''AttentionIconName'' ''AttentionIconPixmap'' ''IconThemePath'' b1 = (att, b2)"
    and o: "icon_of ps ''OverlayIconName'' ''OverlayIconPixmap'' ''IconThemePath'' b2 = (ov, b3)"
    and t: "tooltip_of ps b3 = (tt, b4)"
    by fastforce
  have it: "it_Icon it = ic" "it_AttentionIcon it = att" "it_OverlayIcon it = ov" "it_Tooltip it = tt"
    unfolding it_def normalize_def Let_def by (simp_all add: i a o t)
  note i' = icon_of_ok [OF i order_refl]
  then have "b1 \<le> MaxPixmapBytesPerItem" by linarith
  note a' = icon_of_ok [OF a this]
  then have "b2 \<le> MaxPixmapBytesPerItem" using i' by linarith
  note o' = icon_of_ok [OF o this]
  then have "b3 \<le> MaxPixmapBytesPerItem" using a' i' by linarith
  note t' = tooltip_of_ok [OF t this]
  show "icon_ok (it_Icon it) \<and> icon_ok (it_AttentionIcon it) \<and> icon_ok (it_OverlayIcon it)
    \<and> tooltip_ok (it_Tooltip it) \<and> pixmap_bytes (item_pixmaps it) \<le> MaxPixmapBytesPerItem"
    using i' a' o' t' by (simp add: it item_pixmaps_def)
  show "Some [] \<notin> set [ic_Pixmaps (it_Icon it), ic_Pixmaps (it_AttentionIcon it),
      ic_Pixmaps (it_OverlayIcon it), tt_Pixmaps (it_Tooltip it)]"
    using i'(3) a'(3) o'(3) t'(3) by (auto simp: it)
qed

text \<open>
  Whatever the application answers, the item is valid, but for the two texts that nothing clamps:
  the fallback identity and the menu path.
\<close>

lemma normalize_valid:
  assumes "key_ok key" and "path_spec pv"
  shows "Item_Validate (normalize pv key ps) = None \<longleftrightarrow>
    (text_of ps ''Id'' MaxTextBytes = [] \<longrightarrow>
       length (ik_Owner key) + length (ik_ObjectPath key) \<le> MaxTextBytes)
    \<and> length (objectPath pv ps ''Menu'') \<le> MaxTextBytes"
proof -
  let ?it = "normalize pv key ps" and ?id = "text_of ps ''Id'' MaxTextBytes"
  have bytes: "pixmap_bytes (item_pixmaps ?it) \<le> MaxPixmapBytesPerItem"
    using normalize_pixmaps(1) by blast
  then have "item_bytes ?it \<le> MaxPixmapBytesPerItem"
    unfolding item_bytes_def by (metis mod_less_eq_dividend order_trans)
  moreover have "text_ok MaxTextBytes ?id" by (rule text_of_ok)
  moreover have "ValidString (ik_Owner key @ ik_ObjectPath key)"
    using assms(1) by (simp add: key_ok_def text_ok_def ValidString_append)
  moreover have "ik_Owner key \<noteq> []" using assms(1) by (auto simp: key_ok_def)
  moreover note objectPath_ok [OF assms(2), of ps "''Menu''"] normalize_pixmaps(1) [of pv key ps]
  ultimately show ?thesis
    using assms(1) text_of_ok category_valid status_valid
    by (auto simp: Item_Validate_None item_ok_def normalize_simps text_ok_def)
qed

section \<open>Results and commands\<close>

text \<open>Whatever is published names the proxy's own key, and a published item is valid.\<close>

lemma refresh_result:
  "fst (refresh pv store key live reply) = Some r \<Longrightarrow> ir_Key r = key \<and>
    (\<forall>it. ir_Item r = Inr it \<longrightarrow> it_Key it = key \<and> item_ok it
       \<and> (\<exists>body ps. reply = Body body \<and> store body = Some ps \<and> it = normalize pv key ps))"
  by (auto simp: refresh_def Let_def normalize_simps Item_Validate_None
    split: call_reply.splits option.splits list.splits dval.splits)

lemma refresh_retry:
  "snd (refresh pv store key live reply) \<longleftrightarrow> reply = CallTimedOut \<and> live"
  "fst (refresh pv store key live reply) = None \<longleftrightarrow> reply = CallTimedOut \<or> reply = CallCanceled"
  by (auto simp: refresh_def Let_def split: call_reply.splits option.splits)

lemma item_invoke_cases:
  "item_invoke bus own key member args b =
    (if key \<noteq> own then (Some \<lparr>pe_Code = ErrorStaleItem, pe_Message = ''item generation changed''\<rparr>, b)
     else (map_option (\<lambda>t. \<lparr>pe_Code = ErrorUnavailable, pe_Message = t\<rparr>)
         (call_error (fst (bus own (ItemInterface @ ''.'' @ member) args b))),
       snd (bus own (ItemInterface @ ''.'' @ member) args b)))"
  by (auto simp: item_invoke_def Let_def split: prod.splits option.splits)

end
