(* ===== verification/Dispatch.thy ===== *)
theory Dispatch
  imports Connection
begin

text \<open>
  The command side of a presenter connection: \<open>dispatch\<close>, \<open>failure\<close> and \<open>readLoop\<close> of
  \<open>internal/presenter/connection.go\<close>, and the handshake's \<open>readHello\<close> and \<open>hasCapability\<close> of
  \<open>internal/presenter/server.go\<close>. The interface \<open>Commands\<close> is the record \<open>commands\<close> of
  functions on a state of any type \<open>'s\<close>; a nil interface is \<open>None\<close>. Strict JSON decoding is a
  parameter per type, \<open>json.Valid\<close> the parameter \<open>json_valid\<close>, and \<open>fault_text\<close> the message of a
  validation fault.
\<close>

section \<open>The command handlers\<close>

text \<open>
  What a handler's error is to \<open>errors.As\<close>: one that carries a \<open>ProtocolError\<close>, or any other,
  with its message.
\<close>

datatype cmd_error = TypedError protocol_error | OtherError bytes

type_synonym 's call = "'s \<Rightarrow> cmd_error goerror \<times> 's"

record 's commands =
  do_Activate :: "item_key \<Rightarrow> int32 \<Rightarrow> int32 \<Rightarrow> 's call"
  do_SecondaryActivate :: "item_key \<Rightarrow> int32 \<Rightarrow> int32 \<Rightarrow> 's call"
  do_Scroll :: "item_key \<Rightarrow> int32 \<Rightarrow> bytes \<Rightarrow> 's call"
  do_MenuOpen :: "item_key \<Rightarrow> uint32 \<Rightarrow> int32 \<Rightarrow> 's call"
  do_MenuSelect :: "item_key \<Rightarrow> uint32 \<Rightarrow> int32 \<Rightarrow> uint32 \<Rightarrow> 's call"
  do_AboutToShow :: "item_key \<Rightarrow> uint32 \<Rightarrow> int32 \<Rightarrow> 's \<Rightarrow> bool \<times> cmd_error goerror \<times> 's"
  do_MenuClose :: "item_key \<Rightarrow> uint32 \<Rightarrow> int32 \<Rightarrow> 's call"
  do_Terminate :: "item_key \<Rightarrow> 's call"

definition failure :: "command \<Rightarrow> bytes \<Rightarrow> bytes \<Rightarrow> reply" where
  "failure c code message =
    \<lparr>re_OK = False, re_Item = cm_Item c, re_Output = cm_Output c,
     re_Error = Some \<lparr>pe_Code = code, pe_Message = message\<rparr>\<rparr>"

text \<open>The switch of \<open>dispatch\<close>: the call a kind names, none for an unknown kind.\<close>

definition routed :: "'s commands \<Rightarrow> command \<Rightarrow> 's call option" where
  "routed h c =
    (if cm_Kind c = CommandActivate then Some (do_Activate h (cm_Item c) (cm_X c) (cm_Y c))
     else if cm_Kind c = CommandSecondaryActivate then
       Some (do_SecondaryActivate h (cm_Item c) (cm_X c) (cm_Y c))
     else if cm_Kind c = CommandScroll then
       Some (do_Scroll h (cm_Item c) (cm_Delta c) (cm_Orientation c))
     else if cm_Kind c = CommandMenuOpen then
       Some (do_MenuOpen h (cm_Item c) (cm_MenuRevision c) (cm_MenuID c))
     else if cm_Kind c = CommandMenuSelect then
       Some (do_MenuSelect h (cm_Item c) (cm_MenuRevision c) (cm_MenuID c) (cm_Serial c))
     else if cm_Kind c = CommandAboutToShow then
       Some (\<lambda>s. snd (do_AboutToShow h (cm_Item c) (cm_MenuRevision c) (cm_MenuID c) s))
     else if cm_Kind c = CommandMenuClose then
       Some (do_MenuClose h (cm_Item c) (cm_MenuRevision c) (cm_MenuID c))
     else if cm_Kind c = CommandTerminate then Some (do_Terminate h (cm_Item c))
     else None)"

definition dispatch ::
  "(bytes \<Rightarrow> bool) \<Rightarrow> (fault \<Rightarrow> bytes) \<Rightarrow> 's commands option \<Rightarrow> command \<Rightarrow> 's \<Rightarrow> reply \<times> 's" where
  "dispatch json_valid fault_text commands c s =
    (case Command_Validate json_valid c of
      Some e \<Rightarrow> (failure c ErrorInvalid (fault_text e), s)
    | None \<Rightarrow>
        (case commands of
          None \<Rightarrow> (failure c ErrorUnavailable ''no command handler'', s)
        | Some h \<Rightarrow>
            (case routed h c of
              None \<Rightarrow> (failure c ErrorInvalid (fault_text (BadCommandKind (cm_Kind c))), s)
            | Some act \<Rightarrow>
                (case act s of
                  (Some (TypedError pe), s') \<Rightarrow>
                    (\<lparr>re_OK = False, re_Item = cm_Item c, re_Output = cm_Output c,
                      re_Error = Some pe\<rparr>, s')
                | (Some (OtherError text), s') \<Rightarrow> (failure c ErrorUnavailable text, s')
                | (None, s') \<Rightarrow>
                    (\<lparr>re_OK = True, re_Item = cm_Item c, re_Output = cm_Output c,
                      re_Error = None\<rparr>, s')))))"

section \<open>The reader\<close>

text \<open>
  One turn of \<open>readLoop\<close> on a frame that \<open>ReadFrame\<close> returned. The result says whether the loop
  goes on, and the command it ran, with its request ID and its reply.
\<close>

record 's reader =
  rd_conn :: connection
  rd_state :: 's
  rd_open :: bool
  rd_ran :: "(uint64 \<times> command \<times> reply) list"

record 's codecs =
  cd_envelope :: "bytes \<Rightarrow> envelope option"
  cd_command :: "bytes \<Rightarrow> command option"
  cd_json_valid :: "bytes \<Rightarrow> bool"
  cd_text :: "fault \<Rightarrow> bytes"
  cd_mar :: marshaller
  cd_frame :: framer
  cd_commands :: "'s commands option"

definition accept_command :: "'s codecs \<Rightarrow> bytes \<Rightarrow> connection \<Rightarrow> (envelope \<times> connection) option" where
  "accept_command cd d c =
    (case cd_envelope cd d of
      None \<Rightarrow> None
    | Some e \<Rightarrow>
        if Envelope_Validate (cd_json_valid cd) e \<noteq> None \<or> en_Kind e \<noteq> KindCommand then None
        else if en_RequestID e \<le> cn_lastRequestID c then None
        else Some (e, c\<lparr>cn_lastRequestID := en_RequestID e\<rparr>))"

text \<open>Every return of the loop runs the deferred \<open>c.fail()\<close>.\<close>

definition stop_reading :: "'s reader \<Rightarrow> 's reader" where
  "stop_reading r = r\<lparr>rd_conn := fail (rd_conn r), rd_open := False\<rparr>"

definition read_turn :: "'s codecs \<Rightarrow> bytes option \<Rightarrow> 's reader \<Rightarrow> 's reader" where
  "read_turn cd frame r =
    (case frame of
      None \<Rightarrow> stop_reading r
    | Some d \<Rightarrow>
        (case accept_command cd d (rd_conn r) of
          None \<Rightarrow> stop_reading r
        | Some (e, c) \<Rightarrow>
            let r = r\<lparr>rd_conn := c\<rparr> in
            (case cd_command cd (en_Payload e) of
              None \<Rightarrow> stop_reading r
            | Some cmd \<Rightarrow>
                let (rep, s) = dispatch (cd_json_valid cd) (cd_text cd) (cd_commands cd) cmd (rd_state r);
                    (err, c) = send_reply (cd_mar cd) (cd_frame cd) (en_RequestID e) rep (rd_conn r);
                    r = r\<lparr>rd_conn := c, rd_state := s,
                          rd_ran := rd_ran r @ [(en_RequestID e, cmd, rep)]\<rparr>
                in if err \<noteq> None then stop_reading r else r)))"

text \<open>
  The reader in the middle of everything else that happens to its connection. A run starts when
  the connection has been started, in any state of the handlers.
\<close>

inductive read_run ::
  "'s codecs \<Rightarrow> uint64 \<Rightarrow> bytes list \<Rightarrow> 's \<Rightarrow> 's reader \<Rightarrow> bool"
  for cd base pro s0 where
  begins: "conn_reach (cd_mar cd) (cd_frame cd) base pro c \<Longrightarrow> cn_started c \<Longrightarrow>
    cn_lastRequestID c = 0 \<Longrightarrow>
    read_run cd base pro s0 \<lparr>rd_conn = c, rd_state = s0, rd_open = True, rd_ran = []\<rparr>"
| turns: "read_run cd base pro s0 r \<Longrightarrow> rd_open r \<Longrightarrow> read_run cd base pro s0 (read_turn cd d r)"
| sends: "read_run cd base pro s0 r \<Longrightarrow> en_Sequence e \<noteq> 0 \<Longrightarrow>
    read_run cd base pro s0 (r\<lparr>rd_conn := snd (Send (cd_frame cd) e (rd_conn r))\<rparr>)"
| writer: "read_run cd base pro s0 r \<Longrightarrow>
    writer_take (rd_conn r) = Some c \<or> writer_done ok (rd_conn r) = Some c \<or> c = fail (rd_conn r) \<Longrightarrow>
    read_run cd base pro s0 (r\<lparr>rd_conn := c\<rparr>)"

section \<open>The handshake\<close>

datatype hello_error = HelloRead | HelloDecode | ExpectedHello | HelloInvalid fault

definition readHello ::
  "(bytes \<Rightarrow> envelope option) \<Rightarrow> (bytes \<Rightarrow> hello option) \<Rightarrow> (bytes \<Rightarrow> bool) \<Rightarrow> bytes option \<Rightarrow>
    hello_error + hello" where
  "readHello decode_envelope decode_hello json_valid frame =
    (case frame of
      None \<Rightarrow> Inl HelloRead
    | Some d \<Rightarrow>
        (case decode_envelope d of
          None \<Rightarrow> Inl HelloDecode
        | Some e \<Rightarrow>
            if Envelope_Validate json_valid e \<noteq> None \<or> en_Kind e \<noteq> KindHello then Inl ExpectedHello
            else (case decode_hello (en_Payload e) of
              None \<Rightarrow> Inl HelloDecode
            | Some h \<Rightarrow>
                (case Hello_Validate h RolePresenter of
                  Some f \<Rightarrow> Inl (HelloInvalid f)
                | None \<Rightarrow> Inr h))))"

fun hasCapability :: "bytes list \<Rightarrow> bytes \<Rightarrow> bool" where
  "hasCapability [] required = False"
| "hasCapability (c # cs) required = (if c = required then True else hasCapability cs required)"

lemma hasCapability_iff: "hasCapability cs required \<longleftrightarrow> required \<in> set cs"
  by (induction cs) auto

section \<open>What dispatch does\<close>

lemma routed_total: "Command_Validate json_valid c = None \<Longrightarrow> routed h c \<noteq> None"
  by (auto simp: Command_Validate_def routed_def check_then_None const_defs split: if_splits)

lemma dispatch_echo:
  "re_Item (fst (dispatch jv ft h c s)) = cm_Item c \<and> re_Output (fst (dispatch jv ft h c s)) = cm_Output c"
  by (auto simp: dispatch_def failure_def split: option.splits prod.splits cmd_error.splits)

lemma dispatch_state:
  "snd (dispatch jv ft h c s) =
    (if Command_Validate jv c = None \<and> h \<noteq> None then snd (the (routed (the h) c) s) else s)"
  using routed_total [of jv c "the h"]
  by (auto simp: dispatch_def split: option.splits prod.splits cmd_error.splits)

lemma dispatch_OK:
  "re_OK (fst (dispatch jv ft h c s)) \<longleftrightarrow>
    Command_Validate jv c = None \<and> h \<noteq> None \<and> fst (the (routed (the h) c) s) = None"
  using routed_total [of jv c "the h"]
  by (auto simp: dispatch_def failure_def split: option.splits prod.splits cmd_error.splits)

lemma dispatch_error:
  "re_Error (fst (dispatch jv ft h c s)) =
    (if Command_Validate jv c \<noteq> None
     then Some \<lparr>pe_Code = ErrorInvalid, pe_Message = ft (the (Command_Validate jv c))\<rparr>
     else if h = None then Some \<lparr>pe_Code = ErrorUnavailable, pe_Message = ''no command handler''\<rparr>
     else case fst (the (routed (the h) c) s) of
       None \<Rightarrow> None
     | Some (TypedError e) \<Rightarrow> Some e
     | Some (OtherError t) \<Rightarrow> Some \<lparr>pe_Code = ErrorUnavailable, pe_Message = t\<rparr>)"
  using routed_total [of jv c "the h"]
  by (auto simp: dispatch_def failure_def split: option.splits prod.splits cmd_error.splits)

section \<open>No command runs twice\<close>

lemma accept_command_Some:
  "accept_command cd d c = Some (e, c') \<Longrightarrow>
    cn_lastRequestID c < en_RequestID e \<and> c' = c\<lparr>cn_lastRequestID := en_RequestID e\<rparr>"
  by (auto simp: accept_command_def split: option.splits if_splits)

lemma Send_request: "cn_lastRequestID (snd (Send frame e c)) = cn_lastRequestID c"
  by (auto simp: Send_def Let_def fail_def release_def reserve_def channel_send_def
    split: option.splits)

lemma send_reply_request: "cn_lastRequestID (snd (send_reply mar frame rid r c)) = cn_lastRequestID c"
  by (auto simp: send_reply_def Let_def release_def reserve_def channel_send_def
    split: option.splits)

text \<open>A turn either stops without running a command or runs one with a fresh request ID.\<close>

lemma read_turn_cases:
  obtains (stopped) "rd_ran (read_turn cd d r) = rd_ran r" "rd_state (read_turn cd d r) = rd_state r"
      "cn_lastRequestID (rd_conn r) \<le> cn_lastRequestID (rd_conn (read_turn cd d r))"
    | (ran) rid cmd rep where
      "rd_ran (read_turn cd d r) = rd_ran r @ [(rid, cmd, rep)]"
      "dispatch (cd_json_valid cd) (cd_text cd) (cd_commands cd) cmd (rd_state r)
        = (rep, rd_state (read_turn cd d r))"
      "cn_lastRequestID (rd_conn r) < rid"
      "cn_lastRequestID (rd_conn (read_turn cd d r)) = rid"
proof (cases d)
  case None
  with stopped show ?thesis by (simp add: read_turn_def stop_reading_def fail_def)
next
  case (Some b)
  show ?thesis
  proof (cases "accept_command cd b (rd_conn r)")
    case None
    with Some stopped show ?thesis by (simp add: read_turn_def stop_reading_def fail_def)
  next
    case acc: (Some ec)
    obtain e c where ec: "ec = (e, c)" by (cases ec)
    note fresh = accept_command_Some [OF acc [unfolded ec]]
    show ?thesis
    proof (cases "cd_command cd (en_Payload e)")
      case None
      with Some acc ec fresh stopped show ?thesis
        by (simp add: read_turn_def stop_reading_def fail_def less_imp_le)
    next
      case cmd: (Some cmd)
      obtain rep s where dis: "dispatch (cd_json_valid cd) (cd_text cd) (cd_commands cd) cmd
          (rd_state r) = (rep, s)" by fastforce
      obtain err c2 where sr: "send_reply (cd_mar cd) (cd_frame cd) (en_RequestID e) rep c
          = (err, c2)" by fastforce
      with send_reply_request [of "cd_mar cd" "cd_frame cd" "en_RequestID e" rep c] fresh
      have "cn_lastRequestID c2 = en_RequestID e" by simp
      with Some acc ec cmd dis sr fresh show ?thesis
        by (intro ran [of "en_RequestID e" cmd rep])
          (simp_all add: read_turn_def stop_reading_def fail_def Let_def)
    qed
  qed
qed

definition ran_ids :: "'s reader \<Rightarrow> uint64 list" where
  "ran_ids r = map fst (rd_ran r)"

text \<open>The state of the handlers is what the commands that ran made of it, each once, in order.\<close>

fun run_commands :: "'s codecs \<Rightarrow> (uint64 \<times> command \<times> reply) list \<Rightarrow> 's \<Rightarrow> 's" where
  "run_commands cd [] s = s"
| "run_commands cd ((rid, cmd, rep) # rs) s =
    run_commands cd rs (snd (dispatch (cd_json_valid cd) (cd_text cd) (cd_commands cd) cmd s))"

lemma run_commands_append:
  "run_commands cd (xs @ ys) s = run_commands cd ys (run_commands cd xs s)"
  by (induction cd xs s rule: run_commands.induct) auto

definition reader_inv :: "'s codecs \<Rightarrow> 's \<Rightarrow> 's reader \<Rightarrow> bool" where
  "reader_inv cd s0 r \<longleftrightarrow> sorted_wrt (<) (ran_ids r)
     \<and> (\<forall>rid\<in>set (ran_ids r). 0 < rid \<and> rid \<le> cn_lastRequestID (rd_conn r))
     \<and> rd_state r = run_commands cd (rd_ran r) s0"

lemma reader_inv_turn:
  assumes "reader_inv cd s0 r"
  shows "reader_inv cd s0 (read_turn cd d r)"
proof (cases rule: read_turn_cases [of cd d r])
  case stopped
  with assms show ?thesis by (auto simp: reader_inv_def ran_ids_def)
next
  case (ran rid cmd rep)
  have ids: "ran_ids (read_turn cd d r) = ran_ids r @ [rid]" using ran by (simp add: ran_ids_def)
  have low: "x < rid" if "x \<in> set (ran_ids r)" for x
    using assms that ran(3) unfolding reader_inv_def by (meson le_less_trans)
  have "0 < rid" using ran(3) word_gt_0 by fastforce
  with assms ran ids low show ?thesis
    unfolding reader_inv_def
    by (auto simp: sorted_wrt_append run_commands_append less_imp_le)
qed

lemma read_run_inv: "read_run cd base pro s0 r \<Longrightarrow> reader_inv cd s0 r"
proof (induction rule: read_run.induct)
  case (begins c)
  then show ?case by (simp add: reader_inv_def ran_ids_def)
next
  case (turns r d)
  then show ?case by (simp add: reader_inv_turn)
next
  case (sends r e)
  then show ?case by (simp add: reader_inv_def ran_ids_def Send_request)
next
  case (writer r c ok)
  then have "cn_lastRequestID c = cn_lastRequestID (rd_conn r)"
    by (auto simp: writer_take_def writer_done_def fail_def release_def split: option.splits
      if_splits list.splits)
  with writer show ?case by (simp add: reader_inv_def ran_ids_def)
qed

end
