(* ===== verification/App.thy ===== *)
theory App
  imports Watcher_Run Ownership Menu_Proxy Item_Model Dispatch
begin

text \<open>
  The wiring of the service, \<open>internal/app/run.go\<close>: one worker per item generation with its item
  reader, its menu reader and its process identity. The handlers run on the goroutines of the
  watcher, of the item and menu proxies and of the presenter connections, and hold \<open>a.mu\<close> only for
  short sections; a \<open>task\<close> is a handler between two sections, and \<open>task_step\<close> its next one. Any
  task may take the next step. A proxy is a number; \<open>proxy_life\<close> is the part of its life cycle that
  \<open>Start\<close> and \<open>Close\<close> of both kinds of proxy share. What the handlers submit to the state owner is
  the log \<open>ap_log\<close> of \<open>owner_cmd\<close>s.
\<close>

section \<open>Proxies\<close>

record proxy_life =
  pl_started :: bool
  pl_closed :: bool
  pl_watching :: bool

definition fresh_life :: proxy_life where
  "fresh_life = \<lparr>pl_started = False, pl_closed = False, pl_watching = False\<rparr>"

text \<open>\<open>Start\<close>: \<open>ok\<close> says whether the dependencies, the path and the match rules allow it. True is an error.\<close>

definition life_Start :: "bool \<Rightarrow> proxy_life \<Rightarrow> bool \<times> proxy_life" where
  "life_Start ok p =
    (if \<not> ok \<or> pl_started p then (True, p)
     else (False, p\<lparr>pl_started := True, pl_watching := True\<rparr>))"

definition life_Close :: "proxy_life \<Rightarrow> proxy_life" where
  "life_Close p =
    (if pl_closed p then p
     else let p = p\<lparr>pl_closed := True\<rparr> in
     if \<not> pl_started p then p else p\<lparr>pl_watching := False\<rparr>)"

text \<open>Its goroutines run: they were started and \<open>stop\<close> is open.\<close>

definition running :: "proxy_life \<Rightarrow> bool" where
  "running p \<longleftrightarrow> pl_started p \<and> \<not> pl_closed p"

section \<open>State\<close>

record worker =
  wo_key :: item_key
  wo_item :: nat
  wo_menu :: "nat option"
  wo_menuPath :: bytes
  wo_own :: "own_record option"

record app =
  ap_up :: bool
  ap_closing :: bool
  ap_workers :: "(item_key, worker) gomap"
  ap_lives :: "nat \<Rightarrow> proxy_life"
  ap_next :: nat
  ap_log :: "owner_cmd list"

definition App_New :: app where
  "App_New = \<lparr>ap_up = False, ap_closing = False, ap_workers = [], ap_lives = (\<lambda>p. fresh_life),
     ap_next = 0, ap_log = []\<rparr>"

text \<open>\<open>Start\<close> up to the launch of the watcher; \<open>bus\<close> says whether the session bus answered.\<close>

datatype start_error = AlreadyStarted | NoSessionBus

definition app_Start :: "bool \<Rightarrow> app \<Rightarrow> start_error goerror \<times> app" where
  "app_Start bus a =
    (if ap_up a then (Some AlreadyStarted, a)
     else if \<not> bus then (Some NoSessionBus, a)
     else (None, a\<lparr>ap_up := True, ap_closing := False\<rparr>))"

definition closeable :: "uint32 \<Rightarrow> worker \<Rightarrow> bool" where
  "closeable uid w = (case wo_own w of None \<Rightarrow> False | Some r \<Rightarrow> SameUser uid r)"

definition new_proxy :: "app \<Rightarrow> nat \<times> app" where
  "new_proxy a = (ap_next a, a\<lparr>ap_next := Suc (ap_next a),
     ap_lives := (ap_lives a)(ap_next a := fresh_life)\<rparr>)"

definition start_proxy :: "bool \<Rightarrow> nat \<Rightarrow> app \<Rightarrow> bool \<times> app" where
  "start_proxy ok p a =
    (let (err, l) = life_Start ok (ap_lives a p) in (err, a\<lparr>ap_lives := (ap_lives a)(p := l)\<rparr>))"

definition close_proxy :: "nat \<Rightarrow> app \<Rightarrow> app" where
  "close_proxy p a = a\<lparr>ap_lives := (ap_lives a)(p := life_Close (ap_lives a p))\<rparr>"

definition submit_owner :: "owner_cmd \<Rightarrow> app \<Rightarrow> app" where
  "submit_owner c a = a\<lparr>ap_log := ap_log a @ [c]\<rparr>"

section \<open>Handlers, section by section\<close>

datatype task =
    TAdded item_key                         \<comment> \<open>\<open>ItemAdded\<close>, at its start\<close>
  | TAdmit item_key                         \<comment> \<open>\<dots> before \<open>owner.Add\<close> and \<open>NewProxy\<close>\<close>
  | TInsert item_key nat                    \<comment> \<open>\<dots> before the worker is entered\<close>
  | TStart item_key nat                     \<comment> \<open>\<dots> before \<open>proxy.Start\<close>\<close>
  | TInspect item_key nat                   \<comment> \<open>\<open>inspectOwnership\<close>\<close>
  | TDrop item_key                          \<comment> \<open>\<open>dropWorker\<close>, and \<open>ItemRemoved\<close>, which only calls it\<close>
  | TCloses "nat list" "item_key option"    \<comment> \<open>\<open>closeWorker\<close>, then \<open>owner.Remove\<close>\<close>
  | TItem item_key "item_fail + item"       \<comment> \<open>\<open>onItem\<close>\<close>
  | TUpdate item_key item                   \<comment> \<open>\<dots> before \<open>owner.Update\<close>\<close>
  | TBind item_key bytes                    \<comment> \<open>\<open>bindMenu\<close>\<close>
  | TUnbind item_key bytes "nat option" bool \<comment> \<open>\<dots> before \<open>previous.Close\<close>, with whether there is a bus\<close>
  | TBindStart item_key bytes nat           \<comment> \<open>\<dots> before \<open>proxy.Start\<close>\<close>
  | TBound item_key bytes nat               \<comment> \<open>\<dots> before the proxy is entered\<close>
  | TMenu item_key menu                     \<comment> \<open>\<open>onMenu\<close>, with a tree\<close>
  | TTree item_key menu                     \<comment> \<open>\<dots> before \<open>owner.UpdateMenu\<close>\<close>
  | TShut                                   \<comment> \<open>\<open>Close\<close>\<close>
  | TUnwind                                 \<comment> \<open>\<open>unwind\<close>\<close>
  | TStop                                   \<comment> \<open>\<open>stopWorkers\<close>\<close>

definition worker_proxies :: "worker \<Rightarrow> nat list" where
  "worker_proxies w = (case wo_menu w of None \<Rightarrow> [] | Some m \<Rightarrow> [m]) @ [wo_item w]"

text \<open>
  The answers of the world to one section: whether a \<open>Start\<close> can succeed, whether the connection is
  still there, and what \<open>Inspect\<close> found.
\<close>

record answer =
  an_start :: bool
  an_identity :: "own_error + own_record"

definition insert_worker :: "item_key \<Rightarrow> nat \<Rightarrow> app \<Rightarrow> task list \<times> app" where
  "insert_worker key p a =
    (if ap_closing a then ([], a)
     else let w = \<lparr>wo_key = key, wo_item = p, wo_menu = None, wo_menuPath = [], wo_own = None\<rparr>
     in ([TStart key p, TInspect key p], a\<lparr>ap_workers := gm_set key w (ap_workers a)\<rparr>))"

definition inspectOwnership :: "own_error + own_record \<Rightarrow> item_key \<Rightarrow> nat \<Rightarrow> app \<Rightarrow> app" where
  "inspectOwnership found key p a =
    (case gm_get (ap_workers a) key of
      None \<Rightarrow> a
    | Some w \<Rightarrow>
        if wo_item w \<noteq> p \<or> ap_closing a then a
        else a\<lparr>ap_workers := gm_set key
                 (w\<lparr>wo_own := (case found of Inl e \<Rightarrow> None | Inr r \<Rightarrow> Some r)\<rparr>) (ap_workers a)\<rparr>)"

definition dropWorker :: "item_key \<Rightarrow> app \<Rightarrow> task list \<times> app" where
  "dropWorker key a =
    (let w = gm_get (ap_workers a) key; a' = a\<lparr>ap_workers := gm_del key (ap_workers a)\<rparr>
     in ([TCloses (case w of None \<Rightarrow> [] | Some w \<Rightarrow> worker_proxies w) (if ap_up a then Some key else None)],
         a'))"

definition onItem :: "uint32 \<Rightarrow> item_key \<Rightarrow> item_fail + item \<Rightarrow> app \<Rightarrow> task list \<times> app" where
  "onItem uid key result a =
    (case result of
      Inl e \<Rightarrow> ([TDrop key], a)
    | Inr it \<Rightarrow>
        if \<not> ap_up a then ([], a)
        else let it = (case gm_get (ap_workers a) key of
                 None \<Rightarrow> it
               | Some w \<Rightarrow> if closeable uid w then it\<lparr>it_CloseSupported := True\<rparr> else it)
        in ([TUpdate key it], a))"

definition bindMenu :: "item_key \<Rightarrow> bytes \<Rightarrow> app \<Rightarrow> task list \<times> app" where
  "bindMenu key path a =
    (case gm_get (ap_workers a) key of
      None \<Rightarrow> ([], a)
    | Some w \<Rightarrow>
        if ap_closing a \<or> wo_menuPath w = path then ([], a)
        else ([TUnbind key path (wo_menu w) (ap_up a)],
              a\<lparr>ap_workers := gm_set key (w\<lparr>wo_menu := None, wo_menuPath := path\<rparr>) (ap_workers a)\<rparr>))"

definition bound :: "item_key \<Rightarrow> bytes \<Rightarrow> nat \<Rightarrow> app \<Rightarrow> task list \<times> app" where
  "bound key path p a =
    (case gm_get (ap_workers a) key of
      None \<Rightarrow> ([TCloses [p] None], a)
    | Some w \<Rightarrow>
        if ap_closing a \<or> wo_menuPath w \<noteq> path then ([TCloses [p] None], a)
        else ([], a\<lparr>ap_workers := gm_set key (w\<lparr>wo_menu := Some p\<rparr>) (ap_workers a)\<rparr>))"

definition stopWorkers :: "app \<Rightarrow> task list \<times> app" where
  "stopWorkers a =
    ([TCloses (concat (map (\<lambda>(k, w). worker_proxies w) (ap_workers a))) None], a\<lparr>ap_workers := []\<rparr>)"

text \<open>The first and the second section of \<open>ItemAdded\<close>, and the start of its reader.\<close>

definition app_ItemAdded :: "item_key \<Rightarrow> app \<Rightarrow> task list \<times> app" where
  "app_ItemAdded key a = (if ap_closing a \<or> \<not> ap_up a then ([], a) else ([TAdmit key], a))"

definition app_ItemAdded_admit :: "item_key \<Rightarrow> app \<Rightarrow> task list \<times> app" where
  "app_ItemAdded_admit key a =
    (let (p, a) = new_proxy (submit_owner (CAdd key) a) in ([TInsert key p], a))"

definition app_ItemAdded_start :: "bool \<Rightarrow> item_key \<Rightarrow> nat \<Rightarrow> app \<Rightarrow> task list \<times> app" where
  "app_ItemAdded_start ok key p a =
    (let (err, a) = start_proxy ok p a in (if err then [TDrop key] else [], a))"

fun closeWorker :: "nat list \<Rightarrow> item_key option \<Rightarrow> app \<Rightarrow> task list \<times> app" where
  "closeWorker [] rem a = ([], case rem of None \<Rightarrow> a | Some key \<Rightarrow> submit_owner (CRemove key) a)"
| "closeWorker (p # ps) rem a = ([TCloses ps rem], close_proxy p a)"

definition onItem_update :: "item_key \<Rightarrow> item \<Rightarrow> app \<Rightarrow> task list \<times> app" where
  "onItem_update key it a = ([TBind key (it_MenuPath it)], submit_owner (CUpdate key it) a)"

text \<open>Between the first and the last section of \<open>bindMenu\<close>.\<close>

definition bindMenu_unbind :: "item_key \<Rightarrow> bytes \<Rightarrow> nat option \<Rightarrow> bool \<Rightarrow> app \<Rightarrow> task list \<times> app" where
  "bindMenu_unbind key path prev conn a =
    (let a = (case prev of None \<Rightarrow> a | Some p \<Rightarrow> close_proxy p a) in
     if path = [] \<or> \<not> conn then ([], a)
     else let (p, a) = new_proxy a in ([TBindStart key path p], a))"

definition bindMenu_start :: "bool \<Rightarrow> item_key \<Rightarrow> bytes \<Rightarrow> nat \<Rightarrow> app \<Rightarrow> task list \<times> app" where
  "bindMenu_start ok key path p a =
    (let (err, a) = start_proxy ok p a in (if err then [] else [TBound key path p], a))"

definition onMenu :: "item_key \<Rightarrow> menu \<Rightarrow> app \<Rightarrow> task list \<times> app" where
  "onMenu key m a = (if ap_up a then [TTree key m] else [], a)"

definition onMenu_update :: "item_key \<Rightarrow> menu \<Rightarrow> app \<Rightarrow> task list \<times> app" where
  "onMenu_update key m a = ([], submit_owner (CUpdateMenu key m) a)"

definition app_Close :: "app \<Rightarrow> task list \<times> app" where
  "app_Close a =
    (if ap_closing a \<or> \<not> ap_up a then ([], a) else ([TUnwind], a\<lparr>ap_closing := True\<rparr>))"

definition unwind :: "app \<Rightarrow> task list \<times> app" where
  "unwind a = ([TStop], a\<lparr>ap_up := False, ap_closing := True\<rparr>)"

fun task_step :: "uint32 \<Rightarrow> answer \<Rightarrow> task \<Rightarrow> app \<Rightarrow> task list \<times> app" where
  "task_step uid an (TAdded key) a = app_ItemAdded key a"
| "task_step uid an (TAdmit key) a = app_ItemAdded_admit key a"
| "task_step uid an (TInsert key p) a = insert_worker key p a"
| "task_step uid an (TStart key p) a = app_ItemAdded_start (an_start an) key p a"
| "task_step uid an (TInspect key p) a = ([], inspectOwnership (an_identity an) key p a)"
| "task_step uid an (TDrop key) a = dropWorker key a"
| "task_step uid an (TCloses [] rem) a = closeWorker [] rem a"
| "task_step uid an (TCloses (p # ps) rem) a = closeWorker (p # ps) rem a"
| "task_step uid an (TItem key result) a = onItem uid key result a"
| "task_step uid an (TUpdate key it) a = onItem_update key it a"
| "task_step uid an (TBind key path) a = bindMenu key path a"
| "task_step uid an (TUnbind key path prev conn) a = bindMenu_unbind key path prev conn a"
| "task_step uid an (TBindStart key path p) a = bindMenu_start (an_start an) key path p a"
| "task_step uid an (TBound key path p) a = bound key path p a"
| "task_step uid an (TMenu key m) a = onMenu key m a"
| "task_step uid an (TTree key m) a = onMenu_update key m a"
| "task_step uid an TShut a = app_Close a"
| "task_step uid an TUnwind a = unwind a"
| "task_step uid an TStop a = stopWorkers a"

text \<open>The sections that only move a task on, unfolded with the step.\<close>

lemmas section_defs = app_ItemAdded_def app_ItemAdded_admit_def app_ItemAdded_start_def onItem_update_def
  bindMenu_unbind_def bindMenu_start_def onMenu_def onMenu_update_def app_Close_def unwind_def

declare section_defs [simp]

section \<open>Everything that can happen\<close>

text \<open>
  The tasks in flight, in any interleaving. \<open>seen\<close> are the generations the watcher has announced,
  each once; \<open>gone\<close> those it has withdrawn after the announcement was handled. An item reader
  delivers its results one after the other; its error may come from the other of its goroutines.
\<close>

definition adds :: "item_key \<Rightarrow> task \<Rightarrow> nat" where
  "adds k t = (case t of TAdded k' \<Rightarrow> if k' = k then 1 else 0 | TAdmit k' \<Rightarrow> if k' = k then 1 else 0
     | TInsert k' p \<Rightarrow> if k' = k then 1 else 0 | _ \<Rightarrow> 0)"

definition rebinds :: "item_key \<Rightarrow> task \<Rightarrow> nat" where
  "rebinds k t = (case t of TUnbind k' path prev conn \<Rightarrow> if k' = k then 1 else 0
     | TBindStart k' path p \<Rightarrow> if k' = k then 1 else 0
     | TBound k' path p \<Rightarrow> if k' = k then 1 else 0 | _ \<Rightarrow> 0)"

definition delivers :: "item_key \<Rightarrow> task \<Rightarrow> nat" where
  "delivers k t = (case t of TItem k' (Inr it) \<Rightarrow> if k' = k then 1 else 0
     | TUpdate k' it \<Rightarrow> if k' = k then 1 else 0 | TBind k' path \<Rightarrow> if k' = k then 1 else 0
     | _ \<Rightarrow> rebinds k t)"

definition sum_of :: "('t \<Rightarrow> nat) \<Rightarrow> 't list \<Rightarrow> nat" where
  "sum_of f ts = sum_list (map f ts)"

lemma sum_of_simps [simp]:
  "sum_of f [] = 0" "sum_of f (t # ts) = f t + sum_of f ts"
  "sum_of f (ts @ ts') = sum_of f ts + sum_of f ts'"
  by (simp_all add: sum_of_def)

inductive app_run :: "uint32 \<Rightarrow> item_key set \<Rightarrow> item_key set \<Rightarrow> app \<Rightarrow> task list \<Rightarrow> bool" for uid where
  starts: "app_Start True App_New = (None, a) \<Longrightarrow> app_run uid {} {} a []"
| steps: "app_run uid seen gone a (ts @ t # ts') \<Longrightarrow> task_step uid an t a = (new, a') \<Longrightarrow>
    app_run uid seen gone a' (ts @ new @ ts')"
| added: "app_run uid seen gone a ts \<Longrightarrow> key \<notin> seen \<Longrightarrow>
    app_run uid (insert key seen) gone a (TAdded key # ts)"
| removed: "app_run uid seen gone a ts \<Longrightarrow> key \<in> seen \<Longrightarrow> sum_of (adds key) ts = 0 \<Longrightarrow>
    app_run uid seen (insert key gone) a (TDrop key # ts)"
| overtaken: "app_run uid seen gone a ts \<Longrightarrow> app_run uid seen gone a (TDrop key # ts)"
| item: "app_run uid seen gone a ts \<Longrightarrow> sum_of (delivers key) ts = 0 \<Longrightarrow>
    app_run uid seen gone a (TItem key (Inr it) # ts)"
| failed: "app_run uid seen gone a ts \<Longrightarrow> app_run uid seen gone a (TItem key (Inl e) # ts)"
| menus: "app_run uid seen gone a ts \<Longrightarrow> app_run uid seen gone a (TMenu key m # ts)"
| shuts: "app_run uid seen gone a ts \<Longrightarrow> t = TShut \<or> t = TUnwind \<Longrightarrow>
    app_run uid seen gone a (t # ts)"

section \<open>No reader is lost\<close>

text \<open>The proxies a task will enter or close.\<close>

fun holds :: "task \<Rightarrow> nat set" where
  "holds (TInsert k p) = {p}"
| "holds (TCloses ps rem) = set ps"
| "holds (TUnbind k path prev conn) = set_option prev"
| "holds (TBindStart k path p) = {p}"
| "holds (TBound k path p) = {p}"
| "holds _ = {}"

text \<open>A proxy made and not yet entered or started, and one entered whose \<open>Start\<close> is due.\<close>

definition news :: "nat \<Rightarrow> task \<Rightarrow> nat" where
  "news p t = (case t of TInsert k q \<Rightarrow> if q = p then 1 else 0
     | TBindStart k path q \<Rightarrow> if q = p then 1 else 0 | _ \<Rightarrow> 0)"

definition starting :: "nat \<Rightarrow> task \<Rightarrow> nat" where
  "starting p t = (case t of TStart k q \<Rightarrow> if q = p then 1 else 0 | _ \<Rightarrow> 0)"

definition held :: "app \<Rightarrow> task list \<Rightarrow> nat \<Rightarrow> bool" where
  "held a ts p \<longleftrightarrow> (\<exists>k w. gm_get (ap_workers a) k = Some w \<and> p \<in> set (worker_proxies w))
     \<or> (\<exists>t\<in>set ts. p \<in> holds t)"

definition kept :: "app \<Rightarrow> task list \<Rightarrow> nat \<Rightarrow> bool" where
  "kept a ts p \<longleftrightarrow> pl_closed (ap_lives a p) \<or> held a ts p
     \<or> \<not> pl_started (ap_lives a p) \<and> sum_of (starting p) ts = 0"

definition ids_ok :: "app \<Rightarrow> task list \<Rightarrow> bool" where
  "ids_ok a ts \<longleftrightarrow> (\<forall>p. sum_of (news p) ts + sum_of (starting p) ts
     + (if pl_started (ap_lives a p) then 1 else 0) \<le> (if p < ap_next a then 1 else 0))"

definition adds_ok :: "item_key set \<Rightarrow> app \<Rightarrow> task list \<Rightarrow> bool" where
  "adds_ok seen a ts \<longleftrightarrow> (\<forall>k. sum_of (adds k) ts + (if gm_get (ap_workers a) k = None then 0 else 1)
     \<le> (if k \<in> seen then 1 else 0))"

definition binds_ok :: "app \<Rightarrow> task list \<Rightarrow> bool" where
  "binds_ok a ts \<longleftrightarrow> (\<forall>k. sum_of (delivers k) ts \<le> 1)
     \<and> (\<forall>k w. gm_get (ap_workers a) k = Some w \<longrightarrow> 0 < sum_of (rebinds k) ts \<longrightarrow> wo_menu w = None)"

definition shut_ok :: "app \<Rightarrow> task list \<Rightarrow> bool" where
  "shut_ok a ts \<longleftrightarrow> (ap_closing a \<longrightarrow> ap_workers a = [] \<or> TUnwind \<in> set ts \<or> TStop \<in> set ts)
     \<and> (\<not> ap_closing a \<longrightarrow> ap_up a)"

definition gone_ok :: "item_key set \<Rightarrow> item_key set \<Rightarrow> app \<Rightarrow> task list \<Rightarrow> bool" where
  "gone_ok seen gone a ts \<longleftrightarrow> (\<forall>k\<in>gone. k \<in> seen \<and> sum_of (adds k) ts = 0
     \<and> (gm_get (ap_workers a) k = None \<or> TDrop k \<in> set ts))"

definition app_inv :: "item_key set \<Rightarrow> item_key set \<Rightarrow> app \<Rightarrow> task list \<Rightarrow> bool" where
  "app_inv seen gone a ts \<longleftrightarrow> gm_ok (ap_workers a)
     \<and> (\<forall>k w. gm_get (ap_workers a) k = Some w \<longrightarrow> wo_key w = k)
     \<and> adds_ok seen a ts \<and> binds_ok a ts \<and> ids_ok a ts \<and> (\<forall>p. kept a ts p)
     \<and> shut_ok a ts \<and> gone_ok seen gone a ts"

named_theorems task_defs
lemmas [task_defs] = adds_def rebinds_def delivers_def news_def starting_def

lemma sum_of_mset: "mset ts = mset ts' \<Longrightarrow> sum_of f ts = sum_of f ts'"
  unfolding sum_of_def by (metis mset_map sum_mset_sum_list)

lemma app_inv_mset: "mset ts = mset ts' \<Longrightarrow> app_inv seen gone a ts = app_inv seen gone a ts'"
  using sum_of_mset [of ts ts'] mset_eq_setD [of ts ts']
  by (simp add: app_inv_def adds_ok_def binds_ok_def ids_ok_def kept_def held_def shut_ok_def gone_ok_def)

lemmas step_defs = new_proxy_def start_proxy_def close_proxy_def submit_owner_def insert_worker_def
  inspectOwnership_def dropWorker_def onItem_def bindMenu_def bound_def stopWorkers_def Let_def
  case_prod_beta

definition entered :: "app \<Rightarrow> item_key \<Rightarrow> nat" where
  "entered a k = (if gm_get (ap_workers a) k = None then 0 else 1)"

definition was_started :: "app \<Rightarrow> nat \<Rightarrow> nat" where
  "was_started a p = (if pl_started (ap_lives a p) then 1 else 0)"

lemma task_adds:
  "task_step uid an t a = (new, a') \<Longrightarrow>
    sum_of (adds k) new + entered a' k \<le> adds k t + entered a k"
  by (cases "(uid, an, t, a)" rule: task_step.cases)
    (auto simp: step_defs task_defs entered_def gm_get_set gm_get_del split: if_splits option.splits
      sum.splits)

lemma task_delivers:
  "task_step uid an t a = (new, a') \<Longrightarrow> sum_of (delivers k) new \<le> delivers k t"
  by (cases "(uid, an, t, a)" rule: task_step.cases)
    (auto simp: step_defs task_defs split: if_splits option.splits sum.splits)

lemma task_ids:
  "task_step uid an t a = (new, a') \<Longrightarrow>
    ap_next a \<le> ap_next a' \<and>
    sum_of (news p) new + sum_of (starting p) new + was_started a' p \<le> news p t + starting p t + was_started a p
      + (if ap_next a \<le> p \<and> p < ap_next a' then 1 else 0)"
  by (cases "(uid, an, t, a)" rule: task_step.cases)
    (auto simp: step_defs task_defs was_started_def fresh_life_def life_Start_def life_Close_def
      split: if_splits option.splits sum.splits)

lemma task_menu:
  assumes "task_step uid an t a = (new, a')" and "gm_get (ap_workers a') k = Some w'"
    and "wo_menu w' \<noteq> None"
  shows "(\<exists>path p. t = TBound k path p) \<or> sum_of (rebinds k) new \<le> rebinds k t
    \<and> (\<exists>w. gm_get (ap_workers a) k = Some w \<and> wo_menu w = wo_menu w')"
  using assms
  by (cases "(uid, an, t, a)" rule: task_step.cases)
    (auto simp: step_defs task_defs gm_get_set gm_get_del split: if_splits option.splits sum.splits)

text \<open>A proxy of some worker.\<close>

definition owned :: "(item_key, worker) gomap \<Rightarrow> nat \<Rightarrow> bool" where
  "owned ws p \<longleftrightarrow> (\<exists>k w. gm_get ws k = Some w \<and> p \<in> set (worker_proxies w))"

definition passed :: "task list \<Rightarrow> nat \<Rightarrow> bool" where
  "passed ts p \<longleftrightarrow> (\<exists>t\<in>set ts. p \<in> holds t)"

lemma held_split: "held a ts p \<longleftrightarrow> owned (ap_workers a) p \<or> passed ts p"
  by (auto simp: held_def owned_def passed_def)

lemma passed_simps [simp]:
  "\<not> passed [] p" "passed (t # ts) p \<longleftrightarrow> p \<in> holds t \<or> passed ts p"
  "passed (ts @ ts') p \<longleftrightarrow> passed ts p \<or> passed ts' p"
  by (auto simp: passed_def)

lemma owned_set:
  "owned (gm_set k w ws) p \<longleftrightarrow> p \<in> set (worker_proxies w) \<or> owned (gm_del k ws) p"
  by (auto simp: owned_def gm_get_set gm_get_del split: if_splits)

lemma owned_del:
  "owned ws p \<Longrightarrow> owned (gm_del k ws) p
    \<or> (\<exists>w. gm_get ws k = Some w \<and> p \<in> set (worker_proxies w))"
  by (auto simp: owned_def gm_get_del)

lemma owned_Nil [simp]: "\<not> owned [] p"
  by (simp add: owned_def)

lemma owned_all:
  "owned ws p \<Longrightarrow> p \<in> set (concat (map (\<lambda>(k, w). worker_proxies w) ws))"
  by (force simp: owned_def dest: map_of_SomeD)

lemma worker_proxies_simps [simp]:
  "set (worker_proxies w) = set_option (wo_menu w) \<union> {wo_item w}"
  by (auto simp: worker_proxies_def split: option.split)

text \<open>Who looks after a proxy that somebody looked after.\<close>

lemma task_owned:
  assumes "task_step uid an t a = (new, a')" and "owned (ap_workers a) p \<or> p \<in> holds t"
    and "\<And>k q. t = TInsert k q \<Longrightarrow> gm_get (ap_workers a) k = None"
    and "\<And>k path q w. t = TBound k path q \<Longrightarrow> gm_get (ap_workers a) k = Some w \<Longrightarrow> wo_menu w = None"
  shows "pl_closed (ap_lives a' p) \<or> owned (ap_workers a') p \<or> passed new p
    \<or> news p t = 1 \<and> sum_of (starting p) new = 0 \<and> ap_lives a' p = ap_lives a p"
proof (cases "(uid, an, t, a)" rule: task_step.cases)
  case (3 uid an key q a)
  then show ?thesis using assms owned_del [of "ap_workers a" p key]
    by (auto simp: insert_worker_def owned_set task_defs Let_def split: if_splits)
next
  case (5 uid an key q a)
  then show ?thesis using assms owned_del [of "ap_workers a" p key]
    by (auto simp: inspectOwnership_def owned_set split: if_splits option.splits)
next
  case (6 uid an key a)
  then show ?thesis using assms owned_del [of "ap_workers a" p key]
    by (auto simp: dropWorker_def Let_def split: option.splits)
next
  case (11 uid an key path a)
  then show ?thesis using assms owned_del [of "ap_workers a" p key]
    by (auto simp: bindMenu_def owned_set split: if_splits option.splits)
next
  case (14 uid an key path q a)
  then show ?thesis using assms owned_del [of "ap_workers a" p key]
    by (auto simp: bound_def owned_set split: if_splits option.splits)
next
  case (19 uid an a)
  then have "owned (ap_workers a) p" and new: "new = fst (stopWorkers a)" using assms(1,2) by auto
  from owned_all [OF this(1)] have "passed new p"
    by (simp add: new stopWorkers_def del: set_concat set_map)
  then show ?thesis by blast
qed (use assms in \<open>auto simp: step_defs task_defs life_Start_def life_Close_def
  split: if_splits option.splits sum.splits\<close>)

lemma task_unstarted:
  assumes "task_step uid an t a = (new, a')" and "\<not> pl_started (ap_lives a p)" and "starting p t = 0"
  shows "passed new p \<or> owned (ap_workers a') p
    \<or> \<not> pl_started (ap_lives a' p) \<and> sum_of (starting p) new = 0"
  using assms
  by (cases "(uid, an, t, a)" rule: task_step.cases)
    (auto simp: step_defs task_defs life_Start_def life_Close_def fresh_life_def owned_set
      split: if_splits option.splits sum.splits)

lemma task_closed:
  assumes "task_step uid an t a = (new, a')" and "pl_closed (ap_lives a p)"
  shows "passed new p \<or> pl_closed (ap_lives a' p)"
  using assms
  by (cases "(uid, an, t, a)" rule: task_step.cases)
    (auto simp: step_defs life_Start_def life_Close_def split: if_splits option.splits sum.splits)

lemma task_shut:
  assumes "task_step uid an t a = (new, a')" and "shut_ok a (t # r)"
  shows "shut_ok a' (new @ r)"
  using assms
  by (cases "(uid, an, t, a)" rule: task_step.cases)
    (auto simp: shut_ok_def step_defs split: if_splits option.splits sum.splits)

lemma task_gone:
  assumes "task_step uid an t a = (new, a')" and "gone_ok seen gone a (t # r)"
  shows "gone_ok seen gone a' (new @ r)"
  unfolding gone_ok_def
proof (intro ballI conjI)
  fix k assume k: "k \<in> gone"
  with assms(2) have old: "k \<in> seen" "adds k t + sum_of (adds k) r = 0"
    "gm_get (ap_workers a) k = None \<or> TDrop k \<in> set (t # r)"
    by (auto simp: gone_ok_def)
  show "k \<in> seen" by (rule old(1))
  show "sum_of (adds k) (new @ r) = 0"
    using task_adds [OF assms(1), of k] old(2)
    by (cases "(uid, an, t, a)" rule: task_step.cases)
      (use assms(1) in \<open>auto simp: step_defs task_defs split: if_splits option.splits sum.splits prod.splits\<close>)
  show "gm_get (ap_workers a') k = None \<or> TDrop k \<in> set (new @ r)"
    using old assms(1)
    by (cases "(uid, an, t, a)" rule: task_step.cases)
      (auto simp: step_defs task_defs gm_get_set gm_get_del split: if_splits option.splits sum.splits)
qed

lemma task_keys:
  assumes "task_step uid an t a = (new, a')"
    and "gm_ok (ap_workers a)" and "\<forall>k w. gm_get (ap_workers a) k = Some w \<longrightarrow> wo_key w = k"
  shows "gm_ok (ap_workers a') \<and> (\<forall>k w. gm_get (ap_workers a') k = Some w \<longrightarrow> wo_key w = k)"
  using assms
  by (cases "(uid, an, t, a)" rule: task_step.cases)
    (auto simp: step_defs gm_get_set gm_get_del split: if_splits option.splits sum.splits)

lemma rebinds_delivers: "rebinds k t \<le> delivers k t"
  by (cases t) (auto simp: rebinds_def delivers_def split: sum.split)

lemma sum_of_mono: "(\<And>t. f t \<le> g t) \<Longrightarrow> sum_of f ts \<le> sum_of g ts"
  by (induction ts) (auto intro: add_mono)

lemma task_inv:
  assumes inv: "app_inv seen gone a (t # r)" and step: "task_step uid an t a = (new, a')"
  shows "app_inv seen gone a' (new @ r)"
proof -
  from inv have adds: "adds_ok seen a (t # r)" and binds: "binds_ok a (t # r)"
    and ids: "ids_ok a (t # r)" and kept: "\<And>p. kept a (t # r) p"
    by (auto simp: app_inv_def)
  have "adds_ok seen a' (new @ r)"
    unfolding adds_ok_def
  proof
    fix k
    have "adds k t + sum_of (adds k) r + entered a k \<le> (if k \<in> seen then 1 else 0)"
      using adds by (simp add: adds_ok_def entered_def)
    with task_adds [OF step, of k]
    show "sum_of (adds k) (new @ r) + (if gm_get (ap_workers a') k = None then 0 else 1)
        \<le> (if k \<in> seen then 1 else 0)"
      unfolding entered_def [symmetric] sum_of_simps by linarith
  qed
  moreover have "ids_ok a' (new @ r)"
    unfolding ids_ok_def
  proof
    fix p
    have "news p t + starting p t + sum_of (news p) r + sum_of (starting p) r + was_started a p
        \<le> (if p < ap_next a then 1 else 0)"
      using ids by (simp add: ids_ok_def was_started_def algebra_simps)
    with task_ids [OF step, of p]
    show "sum_of (news p) (new @ r) + sum_of (starting p) (new @ r)
        + (if pl_started (ap_lives a' p) then 1 else 0) \<le> (if p < ap_next a' then 1 else 0)"
      unfolding was_started_def [symmetric] sum_of_simps by (auto split: if_splits)
  qed
  moreover have "binds_ok a' (new @ r)"
  proof -
    have one: "delivers k t + sum_of (delivers k) r \<le> 1" for k
      using binds by (simp add: binds_ok_def)
    have "sum_of (delivers k) (new @ r) \<le> 1" for k
      using task_delivers [OF step, of k] one [of k] unfolding sum_of_simps by linarith
    moreover have "wo_menu w = None"
      if w: "gm_get (ap_workers a') k = Some w" and busy: "0 < sum_of (rebinds k) (new @ r)" for k w
    proof (rule ccontr)
      assume some: "wo_menu w \<noteq> None"
      from task_menu [OF step w this] show False
      proof
        assume "\<exists>path p. t = TBound k path p"
        then have "new = [] \<or> (\<exists>ps. new = [TCloses ps None])" and t: "delivers k t = 1"
          using step by (auto simp: bound_def task_defs split: option.splits if_splits)
        then have "sum_of (rebinds k) new = 0" by (auto simp: task_defs)
        moreover have "sum_of (rebinds k) r \<le> sum_of (delivers k) r"
          by (intro sum_of_mono rebinds_delivers)
        ultimately show False using busy one [of k] t unfolding sum_of_simps by linarith
      next
        assume "sum_of (rebinds k) new \<le> rebinds k t
          \<and> (\<exists>v. gm_get (ap_workers a) k = Some v \<and> wo_menu v = wo_menu w)"
        with binds busy some show False
          unfolding binds_ok_def sum_of_simps by (auto simp: not_less)
      qed
    qed
    ultimately show ?thesis by (simp add: binds_ok_def del: sum_of_simps)
  qed
  moreover have "kept a' (new @ r) p" for p
  proof -
    have fresh: "gm_get (ap_workers a) k = None" if "t = TInsert k q" for k q
    proof (rule ccontr)
      assume "gm_get (ap_workers a) k \<noteq> None"
      moreover have "adds k t = 1" using that by (simp add: adds_def)
      ultimately show False using adds unfolding adds_ok_def
        by (auto dest!: spec [of _ k] split: if_splits)
    qed
    have free: "wo_menu w = None" if "t = TBound k path q" "gm_get (ap_workers a) k = Some w" for k path q w
      using binds that unfolding binds_ok_def by (auto simp: rebinds_def)
    have quiet: "\<not> pl_started (ap_lives a p) \<and> sum_of (starting p) r = 0" if "news p t = 1"
      using ids that unfolding ids_ok_def by (auto dest!: spec [of _ p] split: if_splits)
    from kept [of p] consider "pl_closed (ap_lives a p)"
      | "owned (ap_workers a) p \<or> p \<in> holds t" | "passed r p"
      | "\<not> pl_started (ap_lives a p)" "starting p t = 0" "sum_of (starting p) r = 0"
      unfolding kept_def held_split by auto
    then show ?thesis
    proof cases
      case 1
      with task_closed [OF step, of p] show ?thesis by (auto simp: kept_def held_split)
    next
      case 2
      from task_owned [OF step 2 fresh free] quiet show ?thesis
        by (auto simp: kept_def held_split)
    next
      case 3
      then show ?thesis by (simp add: kept_def held_split)
    next
      case 4
      with task_unstarted [OF step 4(1,2)] show ?thesis by (auto simp: kept_def held_split)
    qed
  qed
  ultimately show ?thesis
    using inv task_keys [OF step] task_shut [OF step] task_gone [OF step]
    unfolding app_inv_def by blast
qed

lemma app_inv_spawn:
  assumes "app_inv seen gone a ts" and "holds t = {}" and "\<And>p. news p t = 0 \<and> starting p t = 0"
    and "\<And>k. rebinds k t = 0" and "\<And>k. delivers k t + sum_of (delivers k) ts \<le> 1"
    and "\<And>k. adds k t \<le> (if k \<in> seen' \<and> k \<notin> seen then 1 else 0)" and "seen \<subseteq> seen'"
  shows "app_inv seen' gone a (t # ts)"
proof -
  have none: "adds k t = 0" if "k \<in> seen" for k using assms(6) [of k] that by simp
  have "adds_ok seen' a (t # ts)"
    unfolding adds_ok_def sum_of_simps
  proof
    fix k
    have "sum_of (adds k) ts + (if gm_get (ap_workers a) k = None then 0 else 1)
        \<le> (if k \<in> seen then 1 else 0)"
      using assms(1) by (simp add: app_inv_def adds_ok_def)
    with assms(6) [of k] assms(7)
    show "adds k t + sum_of (adds k) ts + (if gm_get (ap_workers a) k = None then 0 else 1)
        \<le> (if k \<in> seen' then 1 else 0)" by (auto split: if_splits)
  qed
  moreover have "binds_ok a (t # ts)"
    using assms(1,4,5) by (simp add: app_inv_def binds_ok_def)
  moreover have "ids_ok a (t # ts)" and "\<And>p. kept a (t # ts) p"
    using assms(1-3) by (simp_all add: app_inv_def ids_ok_def kept_def held_def)
  moreover have "shut_ok a (t # ts)" using assms(1) by (auto simp: app_inv_def shut_ok_def)
  moreover have "gone_ok seen' gone a (t # ts)"
    using assms(1,7) none by (auto simp: app_inv_def gone_ok_def)
  ultimately show ?thesis using assms(1) by (simp add: app_inv_def)
qed

lemma sum_of_le_1: "app_inv seen gone a ts \<Longrightarrow> sum_of (delivers k) ts \<le> 1"
  by (simp add: app_inv_def binds_ok_def)

lemma app_run_inv: "app_run uid seen gone a ts \<Longrightarrow> app_inv seen gone a ts"
proof (induction rule: app_run.induct)
  case (starts a)
  then show ?case
    by (auto simp: app_Start_def App_New_def app_inv_def adds_ok_def binds_ok_def ids_ok_def kept_def
      shut_ok_def gone_ok_def fresh_life_def)
next
  case (steps seen gone a ts t ts' an new a')
  then have "app_inv seen gone a (t # ts @ ts')"
    using app_inv_mset [of "ts @ t # ts'" "t # ts @ ts'"] by simp
  from task_inv [OF this steps(2)] show ?case
    using app_inv_mset [of "ts @ new @ ts'" "new @ ts @ ts'"] by (simp add: ac_simps)
next
  case (added seen gone a ts key)
  show ?case
    by (rule app_inv_spawn [OF added(3)]) (use added sum_of_le_1 in \<open>auto simp: task_defs\<close>)
next
  case (removed seen gone a ts key)
  have "app_inv seen gone a (TDrop key # ts)"
    by (rule app_inv_spawn [OF removed(4)]) (use removed sum_of_le_1 in \<open>auto simp: task_defs\<close>)
  with removed(2,3) show ?case by (auto simp: app_inv_def gone_ok_def task_defs)
next
  case (overtaken seen gone a ts key)
  show ?case
    by (rule app_inv_spawn [OF overtaken(2)]) (use overtaken sum_of_le_1 in \<open>auto simp: task_defs\<close>)
next
  case (item seen gone a ts key it)
  show ?case
    by (rule app_inv_spawn [OF item(3)]) (use item sum_of_le_1 in \<open>auto simp: task_defs\<close>)
next
  case (failed seen gone a ts key e)
  show ?case
    by (rule app_inv_spawn [OF failed(2)]) (use failed sum_of_le_1 in \<open>auto simp: task_defs\<close>)
next
  case (menus seen gone a ts key m)
  show ?case
    by (rule app_inv_spawn [OF menus(2)]) (use menus sum_of_le_1 in \<open>auto simp: task_defs\<close>)
next
  case (shuts seen gone a ts t)
  show ?case
    by (rule app_inv_spawn [OF shuts(3)]) (use shuts sum_of_le_1 in \<open>auto simp: task_defs\<close>)
qed

text \<open>When nothing is in flight, a running reader belongs to a worker; after \<open>Close\<close> none runs.\<close>

lemma quiet_running:
  assumes "app_run uid seen gone a []" and "running (ap_lives a p)"
  shows "owned (ap_workers a) p"
  using app_run_inv [OF assms(1)] assms(2)
  by (auto simp: app_inv_def kept_def held_split running_def)

lemma quiet_closed:
  assumes "app_run uid seen gone a []" and "ap_closing a"
  shows "\<not> running (ap_lives a p)"
  using quiet_running [OF assms(1)] app_run_inv [OF assms(1)] assms(2)
  by (auto simp: app_inv_def shut_ok_def)

end
