(* ===== verification/App_Owner.thy ===== *)
theory App_Owner
  imports App
begin

text \<open>
  What the handlers of \<open>internal/app/run.go\<close> leave behind in the state owner: a generation that has
  been withdrawn is not held by the owner once the handlers are done, whatever presenters did to
  the owner in between.
\<close>

section \<open>Admissions in a log\<close>

fun admits :: "item_key \<Rightarrow> owner_cmd \<Rightarrow> bool \<Rightarrow> bool" where
  "admits k (CAdd k') b = (b \<or> k' = k)"
| "admits k (CRemove k') b = (b \<and> k' \<noteq> k)"
| "admits k _ b = b"

definition admitted :: "item_key \<Rightarrow> owner_cmd list \<Rightarrow> bool" where
  "admitted k log = fold (admits k) log False"

lemma admitted_simps [simp]:
  "\<not> admitted k []" "admitted k (log @ [c]) = admits k c (admitted k log)"
  by (simp_all add: admitted_def)

text \<open>The owner holds only what was admitted and not removed since.\<close>

lemma current_step:
  assumes "current (fst (owner_step mar send c s)) k \<noteq> None" and "\<not> ow_stopped (fst s)"
  shows "admits k c (current (fst s) k \<noteq> None)"
proof -
  obtain ow w where s: "s = (ow, w)" by (cases s)
  from assms have step: "current (fst (owner_cmd_body mar send c s)) k \<noteq> None"
    by (simp add: owner_step_def submit_def)
  show ?thesis
  proof (cases c)
    case (CAdd k')
    with step show ?thesis
      by (auto simp: Owner_Add_def Let_def s current_def retire_frame gm_get_set gm_get_del new_entry_def case_prod_beta
        split: option.splits if_splits)
  next
    case (CUpdate k' i)
    with step show ?thesis
      by (auto simp: Owner_Update_def Let_def s current_def publish_frame gm_get_set
        split: option.splits if_splits)
  next
    case (CUpdateMenu k' m)
    with step show ?thesis
      by (auto simp: Owner_UpdateMenu_def Let_def s current_def publish_frame gm_get_set
        split: option.splits if_splits)
  next
    case (CRemove k')
    show ?thesis
    proof (cases "current ow k'")
      case None
      with CRemove step show ?thesis by (auto simp: Owner_Remove_def s)
    next
      case (Some r)
      with CRemove step have "current (fst (retire mar send (addr_of k') r (ow, w))) k \<noteq> None"
        by (simp add: Owner_Remove_def s)
      then have "addr_of k' \<noteq> addr_of k \<and> current ow k \<noteq> None"
        by (auto simp: current_def retire_frame gm_get_del split: option.splits if_splits)
      with CRemove show ?thesis by (auto simp: s)
    qed
  next
    case (CAttach n)
    with step show ?thesis by (simp add: s current_def Attach_frame)
  next
    case (CDetach n)
    with step show ?thesis by (simp add: s current_def Detach_frame)
  next
    case CClose
    with step show ?thesis by (simp add: s current_def Close_frame)
  qed
qed

lemma owner_run_append: "owner_run mar send (cs @ ds) s = owner_run mar send ds (owner_run mar send cs s)"
  by (induction cs arbitrary: s) simp_all

lemma admits_mono: "(b \<Longrightarrow> b') \<Longrightarrow> admits k c b \<Longrightarrow> admits k c b'"
  by (cases c) auto

lemma stopped_step:
  "ow_stopped (fst (owner_step mar send c s)) \<longleftrightarrow> ow_stopped (fst s) \<or> c = owner_cmd.CClose"
  by (cases s; cases c)
    (auto simp: owner_step_def submit_def Owner_Add_def Owner_Update_def Owner_UpdateMenu_def
      Owner_Remove_def Owner_Attach_def Owner_Detach_def Owner_Close_def Let_def publish_frame
      retire_frame case_prod_beta split: option.splits)

lemma stopped_run:
  "ow_stopped (fst (owner_run mar send cs s)) \<longleftrightarrow> ow_stopped (fst s) \<or> owner_cmd.CClose \<in> set cs"
  by (induction cs arbitrary: s) (auto simp: stopped_step)

lemma current_admitted:
  "owner_cmd.CClose \<notin> set cs \<Longrightarrow>
    current (fst (owner_run mar send cs (Owner_Start, w))) k \<noteq> None \<Longrightarrow> admitted k cs"
proof (induction cs rule: rev_induct)
  case Nil
  then show ?case by (simp add: current_def Owner_Start_def)
next
  case (snoc c cs)
  then have "admits k c (current (fst (owner_run mar send cs (Owner_Start, w))) k \<noteq> None)"
    by (intro current_step) (simp_all add: owner_run_append stopped_run Owner_Start_def)
  from admits_mono [OF _ this] snoc show ?case by simp
qed

text \<open>Presenters attach, detach and stop the owner; none of that is in the app's log.\<close>

definition from_app :: "owner_cmd \<Rightarrow> bool" where
  "from_app c = (case c of CAttach n \<Rightarrow> False | CDetach n \<Rightarrow> False | owner_cmd.CClose \<Rightarrow> False | _ \<Rightarrow> True)"

lemma admitted_filter: "admitted k (filter from_app cs) = admitted k cs"
proof -
  have "fold (admits k) (filter from_app cs) b = fold (admits k) cs b" for b
    by (induction cs arbitrary: b) (auto simp: from_app_def split: owner_cmd.splits)
  then show ?thesis by (simp add: admitted_def)
qed

section \<open>Who answers for an admission\<close>

fun will_remove :: "item_key \<Rightarrow> task \<Rightarrow> bool" where
  "will_remove k (TCloses ps rem) = (rem = Some k)"
| "will_remove k (TInsert k' p) = (k' = k)"
| "will_remove k _ = False"

definition log_ok :: "app \<Rightarrow> task list \<Rightarrow> bool" where
  "log_ok a ts \<longleftrightarrow> (\<forall>k. admitted k (ap_log a) \<longrightarrow>
     ap_closing a \<or> gm_get (ap_workers a) k \<noteq> None \<or> (\<exists>t\<in>set ts. will_remove k t))
     \<and> (TStop \<in> set ts \<longrightarrow> ap_closing a)"

lemma task_admitted:
  assumes "task_step uid an t a = (new, a')" and "admitted k (ap_log a')" and "\<not> ap_closing a'"
    and "\<not> ap_closing a \<longrightarrow> ap_up a \<and> t \<noteq> TStop" and "gm_get (ap_workers a') k = None"
    and "\<forall>t'\<in>set new. \<not> will_remove k t'"
  shows "admitted k (ap_log a) \<and> \<not> ap_closing a \<and> gm_get (ap_workers a) k = None \<and> \<not> will_remove k t"
  using assms
  by (cases "(uid, an, t, a)" rule: task_step.cases)
    (auto simp: step_defs gm_get_set gm_get_del split: if_splits option.splits sum.splits)

lemma task_stopping:
  assumes "task_step uid an t a = (new, a')" and "TStop \<in> set (t # ts) \<longrightarrow> ap_closing a"
  shows "TStop \<in> set (new @ ts) \<longrightarrow> ap_closing a'"
  using assms
  by (cases "(uid, an, t, a)" rule: task_step.cases)
    (auto simp: step_defs split: if_splits option.splits sum.splits)

lemma task_log:
  assumes "task_step uid an t a = (new, a')" and "log_ok a (t # r)" and "shut_ok a (t # r)"
  shows "log_ok a' (new @ r)"
proof -
  have "ap_closing a' \<or> gm_get (ap_workers a') k \<noteq> None \<or> (\<exists>t\<in>set (new @ r). will_remove k t)"
    if "admitted k (ap_log a')" for k
  proof (rule ccontr)
    assume none: "\<not> ?thesis"
    from task_admitted [OF assms(1) that] this assms(2,3) have "admitted k (ap_log a)" "\<not> ap_closing a"
      "gm_get (ap_workers a) k = None" "\<not> will_remove k t"
      unfolding log_ok_def shut_ok_def by auto
    with assms(2) none show False by (auto simp: log_ok_def)
  qed
  moreover have "TStop \<in> set (t # r) \<longrightarrow> ap_closing a" using assms(2) unfolding log_ok_def by blast
  from task_stopping [OF assms(1) this] have "TStop \<in> set (new @ r) \<longrightarrow> ap_closing a'" .
  ultimately show ?thesis unfolding log_ok_def by blast
qed

lemma log_ok_spawn: "log_ok a ts \<Longrightarrow> t \<noteq> TStop \<Longrightarrow> log_ok a (t # ts)"
  by (auto simp: log_ok_def)

lemma log_ok_mset: "set ts = set ts' \<Longrightarrow> log_ok a ts = log_ok a ts'"
  by (simp add: log_ok_def)

lemma app_run_log: "app_run uid seen gone a ts \<Longrightarrow> log_ok a ts"
proof (induction rule: app_run.induct)
  case (starts a)
  then show ?case by (auto simp: app_Start_def App_New_def log_ok_def)
next
  case (steps seen gone a ts t ts' an new a')
  have "app_inv seen gone a (t # ts @ ts')"
    using app_run_inv [OF steps(1)] app_inv_mset [of "ts @ t # ts'" "t # ts @ ts'"] by simp
  then have "shut_ok a (t # ts @ ts')" by (simp add: app_inv_def)
  moreover have "log_ok a (t # ts @ ts')"
    using steps(3) log_ok_mset [of "ts @ t # ts'" "t # ts @ ts'"] by simp
  ultimately have "log_ok a' (new @ ts @ ts')" using task_log [OF steps(2)] by blast
  then show ?case using log_ok_mset [of "ts @ new @ ts'" "new @ ts @ ts'"] by (simp add: ac_simps Un_left_commute)
qed (auto intro: log_ok_spawn)

text \<open>A withdrawn generation leaves no trace.\<close>

lemma gone_forgotten:
  assumes "app_run uid seen gone a []" and "k \<in> gone" and "\<not> ap_closing a"
  shows "gm_get (ap_workers a) k = None \<and> \<not> admitted k (ap_log a)"
  using app_run_inv [OF assms(1)] app_run_log [OF assms(1)] assms(2,3)
  by (auto simp: app_inv_def gone_ok_def log_ok_def)

end
