(* ===== verification/App_Commands.thy ===== *)
theory App_Commands
  imports App
begin

text \<open>
  The commands a presenter sends, as \<open>internal/app/run.go\<close> carries them out: \<open>itemProxy\<close> and
  \<open>menuProxy\<close> find the worker of the exact generation, the proxy rechecks, and \<open>Terminate\<close> rechecks
  the process identity. Together with \<open>dispatch\<close> this is the whole way of a command from its frame to
  the session bus. The bus is the parameter \<open>wires\<close>, acting on a state of any type \<open>'b\<close>; the
  operating system is the record \<open>os\<close>, which answers the n-th reading of a clock or of \<open>/proc\<close>.
\<close>

section \<open>State\<close>

record 'b service =
  se_app :: app
  se_menus :: "nat \<Rightarrow> menu_proxy"
  se_bus :: 'b
  se_signals :: "own_record list"

record 'b wires =
  wi_item :: "'b item_bus"
  wi_menu :: "nat \<Rightarrow> 'b menu_bus"
  wi_text :: "uint32 \<Rightarrow> bytes"

record os =
  os_uid :: uint32
  os_user :: "bytes \<Rightarrow> uint32 option"
  os_process :: "bytes \<Rightarrow> uint32 option"
  os_stat :: "int \<Rightarrow> bytes option"
  os_signal :: "own_record \<Rightarrow> bool"
  os_begun :: int
  os_now :: "nat \<Rightarrow> int"
  os_later :: "nat \<Rightarrow> int \<Rightarrow> bytes option"
  os_error :: "own_error \<Rightarrow> bytes"

section \<open>Finding the proxies\<close>

definition no_generation :: protocol_error where
  "no_generation = \<lparr>pe_Code = ErrorStaleItem, pe_Message = ''no such item generation''\<rparr>"

definition itemProxy :: "item_key \<Rightarrow> app \<Rightarrow> protocol_error + worker" where
  "itemProxy key a =
    (case gm_get (ap_workers a) key of None \<Rightarrow> Inl no_generation | Some w \<Rightarrow> Inr w)"

definition menuProxy :: "item_key \<Rightarrow> app \<Rightarrow> protocol_error + nat" where
  "menuProxy key a =
    (case gm_get (ap_workers a) key of
      None \<Rightarrow> Inl no_generation
    | Some w \<Rightarrow>
        (case wo_menu w of
          None \<Rightarrow> Inl \<lparr>pe_Code = ErrorUnavailable, pe_Message = ''item has no menu''\<rparr>
        | Some p \<Rightarrow> Inr p))"

definition with_item ::
  "(worker \<Rightarrow> 'b \<Rightarrow> protocol_error goerror \<times> 'b) \<Rightarrow> item_key \<Rightarrow> 'b service call" where
  "with_item act key s =
    (case itemProxy key (se_app s) of
      Inl e \<Rightarrow> (Some (TypedError e), s)
    | Inr w \<Rightarrow>
        (case act w (se_bus s) of (err, b) \<Rightarrow> (map_option TypedError err, s\<lparr>se_bus := b\<rparr>)))"

definition with_menu ::
  "(nat \<Rightarrow> menu_proxy \<Rightarrow> 'b \<Rightarrow> protocol_error goerror \<times> 'b) \<Rightarrow> item_key \<Rightarrow> 'b service call" where
  "with_menu act key s =
    (case menuProxy key (se_app s) of
      Inl e \<Rightarrow> (Some (TypedError e), s)
    | Inr p \<Rightarrow>
        (case act p (se_menus s p) (se_bus s) of
          (err, b) \<Rightarrow> (map_option TypedError err, s\<lparr>se_bus := b\<rparr>)))"

definition app_AboutToShow ::
  "'b wires \<Rightarrow> item_key \<Rightarrow> uint32 \<Rightarrow> int32 \<Rightarrow> 'b service \<Rightarrow> bool \<times> cmd_error goerror \<times> 'b service" where
  "app_AboutToShow wi key revision ident s =
    (case menuProxy key (se_app s) of
      Inl e \<Rightarrow> (False, Some (TypedError e), s)
    | Inr p \<Rightarrow>
        (case AboutToShow (wi_text wi) (wi_menu wi p) key revision ident (se_menus s p) (se_bus s) of
          (res, mp, b) \<Rightarrow>
            let s = s\<lparr>se_menus := (se_menus s)(p := mp), se_bus := b\<rparr>
            in (case res of Inl e \<Rightarrow> (False, Some (TypedError e), s) | Inr needed \<Rightarrow> (needed, None, s))))"

section \<open>Ending a process\<close>

definition TerminateWait :: int where [const_defs]: "TerminateWait = 3000000000"
definition TerminatePoll :: int where [const_defs]: "TerminatePoll = 100000000"

definition reown :: "os \<Rightarrow> worker \<Rightarrow> own_error + own_record" where
  "reown os w =
    (case wo_own w of
      None \<Rightarrow> Inl ErrUnavailable
    | Some recorded \<Rightarrow>
        (case Inspect (os_user os) (os_process os) (os_stat os) (ik_Owner (wo_key w)) of
          Inl e \<Rightarrow> Inl e
        | Inr found \<Rightarrow>
            (case Verify recorded found of Some e \<Rightarrow> Inl e | None \<Rightarrow> Inr recorded)))"

text \<open>The wait after the signal. \<open>None\<close> is a wait that has not ended within the fuel.\<close>

fun await_exit :: "nat \<Rightarrow> os \<Rightarrow> own_record \<Rightarrow> int \<Rightarrow> nat \<Rightarrow> protocol_error goerror option" where
  "await_exit 0 os r deadline i = None"
| "await_exit (Suc fuel) os r deadline i =
    (if \<not> Alive (os_later os i) r then Some None
     else if os_now os i > deadline then
       Some (Some \<lparr>pe_Code = ErrorBusy, pe_Message = ''process did not exit in time''\<rparr>)
     else await_exit fuel os r deadline (Suc i))"

definition Terminate ::
  "nat \<Rightarrow> os \<Rightarrow> item_key \<Rightarrow> 'b service \<Rightarrow> protocol_error goerror option \<times> 'b service" where
  "Terminate fuel os key s =
    (let a = se_app s in
     if ap_closing a \<or> \<not> ap_up a then
       (Some (Some \<lparr>pe_Code = ErrorUnavailable, pe_Message = ''service is closing''\<rparr>), s)
     else case gm_get (ap_workers a) key of
       None \<Rightarrow> (Some (Some no_generation), s)
     | Some w \<Rightarrow>
         (case reown os w of
           Inl e \<Rightarrow> (Some (Some \<lparr>pe_Code = ErrorInvalid, pe_Message = os_error os e\<rparr>), s)
         | Inr r \<Rightarrow>
             if \<not> SameUser (os_uid os) r then
               (Some (Some \<lparr>pe_Code = ErrorInvalid, pe_Message = ''item owner is not the service user''\<rparr>), s)
             else let s = s\<lparr>se_signals := se_signals s @ [r]\<rparr> in
             if \<not> os_signal os r then
               (Some (Some \<lparr>pe_Code = ErrorUnavailable, pe_Message = ''termination request failed''\<rparr>), s)
             else (await_exit fuel os r (os_begun os + TerminateWait) 0, s)))"

text \<open>
  Fuel for a clock that advances by at least \<open>TerminatePoll\<close> per turn: the deadline is thirty
  polls after the start, so turn 31 at the latest finds it passed.
\<close>

definition terminate_fuel :: nat where "terminate_fuel = 32"

definition ticking :: "os \<Rightarrow> bool" where
  "ticking os \<longleftrightarrow> os_begun os \<le> os_now os 0 \<and> (\<forall>i. os_now os i + TerminatePoll \<le> os_now os (Suc i))"

definition app_Terminate :: "os \<Rightarrow> item_key \<Rightarrow> 'b service call" where
  "app_Terminate os key s =
    (case Terminate terminate_fuel os key s of
      (None, s') \<Rightarrow> (Some (OtherError ''''), s')
    | (Some err, s') \<Rightarrow> (map_option TypedError err, s'))"

section \<open>The command handler of the presenter\<close>

definition app_Activate :: "'b wires \<Rightarrow> item_key \<Rightarrow> int32 \<Rightarrow> int32 \<Rightarrow> 'b service call" where
  "app_Activate wi key x y = with_item (\<lambda>w. item_Activate (wi_item wi) (wo_key w) key x y) key"

definition app_SecondaryActivate :: "'b wires \<Rightarrow> item_key \<Rightarrow> int32 \<Rightarrow> int32 \<Rightarrow> 'b service call" where
  "app_SecondaryActivate wi key x y =
    with_item (\<lambda>w. item_SecondaryActivate (wi_item wi) (wo_key w) key x y) key"

definition app_Scroll :: "'b wires \<Rightarrow> item_key \<Rightarrow> int32 \<Rightarrow> bytes \<Rightarrow> 'b service call" where
  "app_Scroll wi key delta orientation =
    with_item (\<lambda>w. item_Scroll (wi_item wi) (wo_key w) key delta orientation) key"

definition app_MenuOpen :: "'b wires \<Rightarrow> item_key \<Rightarrow> uint32 \<Rightarrow> int32 \<Rightarrow> 'b service call" where
  "app_MenuOpen wi key revision ident =
    with_menu (\<lambda>p. Opened (wi_text wi) (wi_menu wi p) key revision ident) key"

definition app_MenuSelect :: "'b wires \<Rightarrow> item_key \<Rightarrow> uint32 \<Rightarrow> int32 \<Rightarrow> uint32 \<Rightarrow> 'b service call" where
  "app_MenuSelect wi key revision ident timestamp =
    with_menu (\<lambda>p. Select (wi_text wi) (wi_menu wi p) key revision ident timestamp) key"

definition app_MenuClose :: "'b wires \<Rightarrow> item_key \<Rightarrow> uint32 \<Rightarrow> int32 \<Rightarrow> 'b service call" where
  "app_MenuClose wi key revision ident =
    with_menu (\<lambda>p. Closed (wi_text wi) (wi_menu wi p) key revision ident) key"

lemmas app_call_defs = app_Activate_def app_SecondaryActivate_def app_Scroll_def app_MenuOpen_def
  app_MenuSelect_def app_MenuClose_def

definition service_commands :: "'b wires \<Rightarrow> os \<Rightarrow> 'b service commands" where
  "service_commands wi os =
    \<lparr>do_Activate = app_Activate wi, do_SecondaryActivate = app_SecondaryActivate wi,
     do_Scroll = app_Scroll wi, do_MenuOpen = app_MenuOpen wi, do_MenuSelect = app_MenuSelect wi,
     do_AboutToShow = app_AboutToShow wi, do_MenuClose = app_MenuClose wi,
     do_Terminate = app_Terminate os\<rparr>"

section \<open>A wait ends\<close>

lemma os_now_after: "ticking os \<Longrightarrow> os_begun os + int i * TerminatePoll \<le> os_now os i"
proof (induction i)
  case 0
  then show ?case by (simp add: ticking_def)
next
  case (Suc i)
  then have "os_begun os + int i * TerminatePoll \<le> os_now os i"
    and "os_now os i + TerminatePoll \<le> os_now os (Suc i)" by (simp_all add: ticking_def)
  then show ?case by (simp add: algebra_simps)
qed

lemma await_exit_ends:
  assumes "ticking os" and "31 < i + fuel"
  shows "await_exit fuel os r (os_begun os + TerminateWait) i \<noteq> None \<or> 31 < i"
  using assms(2)
proof (induction fuel arbitrary: i)
  case 0
  then show ?case by simp
next
  case (Suc fuel)
  show ?case
  proof (cases "i = 31")
    case True
    have "os_begun os + TerminateWait < os_now os i"
      using os_now_after [OF assms(1), of i] by (simp add: True const_defs)
    then show ?thesis by simp
  next
    case False
    with Suc.IH [of "Suc i"] Suc.prems show ?thesis by auto
  qed
qed

lemma Terminate_ends: "ticking os \<Longrightarrow> fst (Terminate terminate_fuel os key s) \<noteq> None"
  using await_exit_ends [of os 0 terminate_fuel]
  by (auto simp: Terminate_def Let_def terminate_fuel_def split: option.splits sum.splits)

text \<open>What the wait reports: an exit that was seen, or a process seen alive past the deadline.\<close>

lemma await_exit_cases:
  "await_exit fuel os r deadline i = Some res \<Longrightarrow>
    \<exists>j\<ge>i. (\<forall>l. i \<le> l \<longrightarrow> l < j \<longrightarrow> Alive (os_later os l) r \<and> os_now os l \<le> deadline)
      \<and> (if res = None then \<not> Alive (os_later os j) r
         else Alive (os_later os j) r \<and> deadline < os_now os j
           \<and> pe_Code (the res) = ErrorBusy)"
proof (induction fuel arbitrary: i)
  case 0
  then show ?case by simp
next
  case (Suc fuel)
  show ?case
  proof (cases "Alive (os_later os i) r \<and> os_now os i \<le> deadline")
    case True
    with Suc.prems have "await_exit fuel os r deadline (Suc i) = Some res" by simp
    from Suc.IH [OF this] obtain j where j: "Suc i \<le> j"
      "\<forall>l. Suc i \<le> l \<longrightarrow> l < j \<longrightarrow> Alive (os_later os l) r \<and> os_now os l \<le> deadline"
      "if res = None then \<not> Alive (os_later os j) r
       else Alive (os_later os j) r \<and> deadline < os_now os j \<and> pe_Code (the res) = ErrorBusy"
      by blast
    have "\<forall>l. i \<le> l \<longrightarrow> l < j \<longrightarrow> Alive (os_later os l) r \<and> os_now os l \<le> deadline"
      using True j(2) by (metis Suc_leI le_neq_implies_less)
    with j(1,3) show ?thesis by (meson Suc_leD)
  next
    case False
    with Suc.prems show ?thesis
      by (intro exI [of _ i]) (auto split: if_splits)
  qed
qed

section \<open>Who receives a signal\<close>

lemma Terminate_signals:
  "snd (Terminate fuel os key s) = s
   \<or> (\<exists>w r. gm_get (ap_workers (se_app s)) key = Some w \<and> wo_own w = Some r \<and> ap_up (se_app s)
       \<and> \<not> ap_closing (se_app s)
       \<and> Inspect (os_user os) (os_process os) (os_stat os) (ik_Owner (wo_key w)) = Inr r
       \<and> own_UID r = os_uid os \<and> snd (Terminate fuel os key s) = s\<lparr>se_signals := se_signals s @ [r]\<rparr>)"
  by (auto simp: Terminate_def Let_def reown_def Verify_None SameUser_def
    split: option.splits sum.splits)

section \<open>What reaches the bus\<close>

definition menu_kind :: "bytes \<Rightarrow> bool" where
  "menu_kind k \<longleftrightarrow> k \<in> {CommandMenuOpen, CommandMenuSelect, CommandAboutToShow, CommandMenuClose}"

text \<open>A command that may have touched the bus named a worker's generation, and a menu's revision.\<close>

definition fresh_command :: "command \<Rightarrow> 'b service \<Rightarrow> bool" where
  "fresh_command c s \<longleftrightarrow> (\<exists>w. gm_get (ap_workers (se_app s)) (cm_Item c) = Some w
     \<and> (menu_kind (cm_Kind c) \<longrightarrow> (\<exists>p. wo_menu w = Some p \<and> mp_key (se_menus s p) = cm_Item c
          \<and> mp_revision (se_menus s p) = cm_MenuRevision c)))"

lemma with_item_bus:
  "se_bus (snd (with_item act key s)) \<noteq> se_bus s \<Longrightarrow> gm_get (ap_workers (se_app s)) key \<noteq> None"
  by (auto simp: with_item_def itemProxy_def split: option.splits)

lemma menuProxy_Inr:
  "menuProxy key a = Inr p \<longleftrightarrow> (\<exists>w. gm_get (ap_workers a) key = Some w \<and> wo_menu w = Some p)"
  by (auto simp: menuProxy_def split: option.splits)

lemma with_menu_bus:
  assumes "se_bus (snd (with_menu act key s)) \<noteq> se_bus s"
    and "\<And>p mp b. snd (act p mp b) \<noteq> b \<Longrightarrow> mp_key mp = key \<and> mp_revision mp = revision"
  shows "\<exists>w p. gm_get (ap_workers (se_app s)) key = Some w \<and> wo_menu w = Some p
    \<and> mp_key (se_menus s p) = key \<and> mp_revision (se_menus s p) = revision"
proof (cases "menuProxy key (se_app s)")
  case (Inl e)
  with assms(1) show ?thesis by (simp add: with_menu_def)
next
  case (Inr p)
  with assms(1) have "snd (act p (se_menus s p) (se_bus s)) \<noteq> se_bus s"
    by (simp add: with_menu_def case_prod_beta)
  from assms(2) [OF this] Inr show ?thesis by (auto simp: menuProxy_Inr)
qed

lemma app_AboutToShow_bus:
  assumes "se_bus (snd (snd (app_AboutToShow wi key revision ident s))) \<noteq> se_bus s"
  shows "\<exists>w p. gm_get (ap_workers (se_app s)) key = Some w \<and> wo_menu w = Some p
      \<and> mp_key (se_menus s p) = key \<and> mp_revision (se_menus s p) = revision"
proof (cases "menuProxy key (se_app s)")
  case (Inl e)
  with assms show ?thesis by (simp add: app_AboutToShow_def)
next
  case (Inr p)
  then have "se_bus (snd (snd (app_AboutToShow wi key revision ident s))) =
      snd (snd (AboutToShow (wi_text wi) (wi_menu wi p) key revision ident (se_menus s p) (se_bus s)))"
    by (simp add: app_AboutToShow_def case_prod_beta Let_def split: sum.split)
  with assms have "key = mp_key (se_menus s p) \<and> revision = mp_revision (se_menus s p)"
    unfolding AboutToShow_bus by (auto split: if_splits)
  with Inr show ?thesis by (auto simp: menuProxy_Inr)
qed

lemma app_Terminate_bus: "se_bus (snd (app_Terminate os key s)) = se_bus s"
  using Terminate_signals [of terminate_fuel os key s]
  by (auto simp: app_Terminate_def split: prod.splits option.splits)

lemma event_touches:
  "snd (event text bus key revision ident name timestamp mp b) \<noteq> b \<Longrightarrow>
    mp_key mp = key \<and> mp_revision mp = revision"
  unfolding event_bus by (auto split: if_splits)

lemmas menu_event_defs = Opened_def Closed_def Select_def

lemma routed_fresh:
  assumes "routed (service_commands wi os) c = Some act" and "se_bus (snd (act s)) \<noteq> se_bus s"
  shows "fresh_command c s"
proof -
  have distinct: "distinct [CommandActivate, CommandSecondaryActivate, CommandScroll, CommandMenuOpen,
      CommandMenuSelect, CommandAboutToShow, CommandMenuClose, CommandTerminate]"
    by (simp add: const_defs)
  have menus: ?thesis if "\<exists>w p. gm_get (ap_workers (se_app s)) (cm_Item c) = Some w \<and> wo_menu w = Some p
      \<and> mp_key (se_menus s p) = cm_Item c \<and> mp_revision (se_menus s p) = cm_MenuRevision c"
    using that by (auto simp: fresh_command_def)
  have plain: ?thesis if "gm_get (ap_workers (se_app s)) (cm_Item c) \<noteq> None" "\<not> menu_kind (cm_Kind c)"
    using that by (auto simp: fresh_command_def)
  from assms(1) consider
      (item) f where "act = with_item f (cm_Item c)" "\<not> menu_kind (cm_Kind c)"
    | (event) name t where "act = with_menu (\<lambda>p. event (wi_text wi) (wi_menu wi p) (cm_Item c)
        (cm_MenuRevision c) (cm_MenuID c) name t) (cm_Item c)"
    | (about) "act = (\<lambda>s. snd (app_AboutToShow wi (cm_Item c) (cm_MenuRevision c) (cm_MenuID c) s))"
    | (ends) "act = app_Terminate os (cm_Item c)"
    using distinct
    by (auto simp: routed_def service_commands_def app_call_defs menu_event_defs menu_kind_def split: if_splits)
  then show ?thesis
  proof cases
    case item
    with assms(2) with_item_bus plain show ?thesis by blast
  next
    case event
    with assms(2) have "se_bus (snd (with_menu (\<lambda>p. event (wi_text wi) (wi_menu wi p) (cm_Item c)
        (cm_MenuRevision c) (cm_MenuID c) name t) (cm_Item c) s)) \<noteq> se_bus s" by simp
    from with_menu_bus [OF this event_touches] show ?thesis by (rule menus)
  next
    case about
    with assms(2) show ?thesis by (intro menus app_AboutToShow_bus) simp
  next
    case ends
    with assms(2) show ?thesis by (simp add: app_Terminate_bus)
  qed
qed

lemma dispatch_fresh:
  assumes "dispatch jv ft (Some (service_commands wi os)) c s = (rp, s')"
    and "se_bus s' \<noteq> se_bus s"
  shows "Command_Validate jv c = None \<and> fresh_command c s"
proof -
  from assms dispatch_state [of jv ft "Some (service_commands wi os)" c s]
  have valid: "Command_Validate jv c = None"
    and s': "s' = snd (the (routed (service_commands wi os) c) s)"
    by (auto split: if_splits)
  from routed_total [OF valid] obtain act where "routed (service_commands wi os) c = Some act" by blast
  with routed_fresh [OF this] s' assms(2) valid show ?thesis by simp
qed

text \<open>A command for a generation that has no worker.\<close>

lemma stale_worker:
  assumes "gm_get (ap_workers (se_app s)) (cm_Item c) = None" and "Command_Validate jv c = None"
    and "cm_Kind c \<noteq> CommandTerminate"
  shows "dispatch jv ft (Some (service_commands wi os)) c s =
    (\<lparr>re_OK = False, re_Item = cm_Item c, re_Output = cm_Output c, re_Error = Some no_generation\<rparr>, s)"
proof -
  from routed_total [OF assms(2)] obtain act where act: "routed (service_commands wi os) c = Some act" by blast
  then have "act s = (Some (TypedError no_generation), s)"
    using assms(1,3)
    by (auto simp: routed_def service_commands_def app_call_defs with_item_def with_menu_def itemProxy_def menuProxy_def
      app_AboutToShow_def split: if_splits)
  with act assms(2) show ?thesis by (simp add: dispatch_def)
qed

end
