(* ===== verification/App_Faults.thy ===== *)
theory App_Faults
  imports App
begin

text \<open>
  Two ways in which the wiring of \<open>internal/app/run.go\<close> loses something, outside the assumptions
  under which theory \<open>App\<close> shows that no reader is lost. A generation announced twice, as a watcher
  server that starts over announces it, replaces a worker without closing its readers. And a reader
  that is closed before its \<open>Start\<close> runs subscribes to its signals for good.
\<close>

section \<open>A repeated generation\<close>

lemma repeated_key_orphans:
  assumes "gm_get (ap_workers a) k = Some w" and "\<not> ap_closing a" and "p \<noteq> wo_item w"
    and "\<forall>k' w'. k' \<noteq> k \<longrightarrow> gm_get (ap_workers a) k' = Some w' \<longrightarrow> wo_item w \<notin> set (worker_proxies w')"
    and "task_step uid an (TInsert k p) a = (new, a')"
  shows "ap_lives a' = ap_lives a \<and> \<not> held a' new (wo_item w)"
proof -
  from assms(2,5) have a': "new = [TStart k p, TInspect k p]" "ap_lives a' = ap_lives a"
    "ap_workers a' = gm_set k \<lparr>wo_key = k, wo_item = p, wo_menu = None, wo_menuPath = [], wo_own = None\<rparr>
       (ap_workers a)"
    by (auto simp: insert_worker_def Let_def)
  have "\<not> owned (gm_del k (ap_workers a)) (wo_item w)"
    using assms(4) by (auto simp: owned_def gm_get_del split: if_splits)
  then show ?thesis using a' assms(3) by (simp add: held_split owned_set)
qed

text \<open>A server that is closed withdraws nothing.\<close>

lemma Close_silent: "fst (snd (Server_Close parts s)) = []"
  by (simp add: Server_Close_def Let_def)

section \<open>A start after the close\<close>

lemma late_start:
  "life_Start True (life_Close fresh_life) = (False, \<lparr>pl_started = True, pl_closed = True, pl_watching = True\<rparr>)"
  by (simp add: life_Start_def life_Close_def fresh_life_def Let_def)

lemma closed_keeps_watching: "pl_closed l \<Longrightarrow> life_Close l = l"
  by (simp add: life_Close_def)

definition raced_app :: "item_key \<Rightarrow> app" where
  "raced_app k = \<lparr>ap_up = True, ap_closing = False, ap_workers = [],
     ap_lives = (\<lambda>p. fresh_life)(0 := \<lparr>pl_started = True, pl_closed = True, pl_watching = True\<rparr>),
     ap_next = 1, ap_log = [CAdd k, CRemove k]\<rparr>"

lemma app_run_step:
  "app_run uid seen gone a (t # r) \<Longrightarrow> task_step uid an t a = (new, a') \<Longrightarrow>
    app_run uid seen gone a' (new @ r)"
  using app_run.steps [of uid seen gone a "[]" t r an new a'] by simp

lemma app_run_second:
  "app_run uid seen gone a (u # t # r) \<Longrightarrow> task_step uid an t a = (new, a') \<Longrightarrow>
    app_run uid seen gone a' (u # new @ r)"
  using app_run.steps [of uid seen gone a "[u]" t r an new a'] by simp

lemma late_start_reached:
  "app_run uid {k} {} (raced_app k) [] \<and> pl_watching (ap_lives (raced_app k) 0)
    \<and> ap_workers (raced_app k) = []"
proof -
  let ?an = "\<lparr>an_start = True, an_identity = Inl ErrUnavailable\<rparr>"
  let ?up = "App_New\<lparr>ap_up := True\<rparr>"
  let ?w = "\<lparr>wo_key = k, wo_item = 0, wo_menu = None, wo_menuPath = [], wo_own = None\<rparr>"
  let ?in = "?up\<lparr>ap_next := 1, ap_lives := \<lambda>p. fresh_life, ap_log := [CAdd k], ap_workers := [(k, ?w)]\<rparr>"
  have "app_run uid {k} {} ?up [TAdded k]"
    using app_run.added [OF app_run.starts, of ?up k uid] by (simp add: app_Start_def App_New_def)
  from app_run_step [OF this, of ?an "[TAdmit k]"] have "app_run uid {k} {} ?up [TAdmit k]"
    by (simp add: App_New_def)
  from app_run_step [OF this, of ?an "[TInsert k 0]"
      "?up\<lparr>ap_next := 1, ap_lives := \<lambda>p. fresh_life, ap_log := [CAdd k]\<rparr>"]
  have "app_run uid {k} {} (?up\<lparr>ap_next := 1, ap_lives := \<lambda>p. fresh_life, ap_log := [CAdd k]\<rparr>) [TInsert k 0]"
    by (simp add: App_New_def step_defs fun_upd_idem)
  from app_run_step [OF this, of ?an "[TStart k 0, TInspect k 0]" ?in]
  have "app_run uid {k} {} ?in [TStart k 0, TInspect k 0]"
    by (simp add: App_New_def insert_worker_def Let_def)
  from app_run.overtaken [OF this, of k]
  have "app_run uid {k} {} ?in [TDrop k, TStart k 0, TInspect k 0]" .
  from app_run_step [OF this, of ?an "[TCloses [0] (Some k)]" "?in\<lparr>ap_workers := []\<rparr>"]
  have "app_run uid {k} {} (?in\<lparr>ap_workers := []\<rparr>) [TCloses [0] (Some k), TStart k 0, TInspect k 0]"
    by (simp add: App_New_def dropWorker_def worker_proxies_def)
  from app_run_step [OF this, of ?an "[TCloses [] (Some k)]"
      "?in\<lparr>ap_workers := [], ap_lives := (\<lambda>p. fresh_life)(0 := life_Close fresh_life)\<rparr>"]
  have "app_run uid {k} {} (?in\<lparr>ap_workers := [], ap_lives := (\<lambda>p. fresh_life)(0 := life_Close fresh_life)\<rparr>)
      [TCloses [] (Some k), TStart k 0, TInspect k 0]"
    by (simp add: App_New_def close_proxy_def)
  from app_run_step [OF this, of ?an "[]" "?in\<lparr>ap_workers := [],
      ap_lives := (\<lambda>p. fresh_life)(0 := life_Close fresh_life), ap_log := [CAdd k, CRemove k]\<rparr>"]
  have "app_run uid {k} {} (?in\<lparr>ap_workers := [], ap_lives := (\<lambda>p. fresh_life)(0 := life_Close fresh_life),
      ap_log := [CAdd k, CRemove k]\<rparr>) [TStart k 0, TInspect k 0]"
    by (simp add: App_New_def submit_owner_def)
  from app_run_step [OF this, of ?an "[]" "raced_app k"]
  have "app_run uid {k} {} (raced_app k) [TInspect k 0]"
    by (simp add: App_New_def start_proxy_def late_start raced_app_def Let_def)
  from app_run_step [OF this, of ?an "[]" "raced_app k"]
  have "app_run uid {k} {} (raced_app k) []"
    by (simp add: inspectOwnership_def raced_app_def)
  then show ?thesis by (simp add: raced_app_def)
qed

end
