(* ===== verification/Presenter.thy ===== *)
theory Presenter
  imports Session Dispatch
begin

text \<open>
  The presenter server, \<open>internal/presenter/server.go\<close>: the handler of one socket from its
  acceptance to its end, the replacement of one presenter by the next, and \<open>Close\<close>. A handler runs
  on its own goroutine; \<open>phase\<close> is how far it has come, and every section under \<open>s.mu\<close>, every
  command to the state owner and every operation of the connection is a step. The sockets and the
  clock are parameters.
\<close>

section \<open>The handshake\<close>

text \<open>
  \<open>handshake\<close> returns how many frames it has read and whether the handler goes on: the peer's
  user, the deadline, the hello, its capability, the deadline's removal.
\<close>

definition handshake ::
  "uint32 \<Rightarrow> uint32 option \<Rightarrow> bool \<Rightarrow> hello_error + hello \<Rightarrow> bool \<Rightarrow> nat \<times> bool" where
  "handshake uid peer deadline hello undeadline =
    (if peer = None \<or> the peer \<noteq> uid then (0, False)
     else if \<not> deadline then (0, False)
     else case hello of
       Inl e \<Rightarrow> (1, False)
     | Inr h \<Rightarrow>
         if \<not> hasCapability (he_Capabilities h) CapabilityTray then (1, False)
         else (1, undeadline))"

definition service_hello :: hello where
  "service_hello = \<lparr>he_Major = ProtocolMajor, he_Minor = ProtocolMinor, he_Role = RolePresenter,
     he_Capabilities = [CapabilityTray, ''menus'', ''commands'']\<rparr>"

definition marshalEnvelope :: "framer \<Rightarrow> envelope \<Rightarrow> bytes option \<Rightarrow> bytes option" where
  "marshalEnvelope frame e encoded =
    (case encoded of None \<Rightarrow> None | Some p \<Rightarrow> frame (e\<lparr>en_Payload := p\<rparr>))"

definition bare_envelope :: "bytes \<Rightarrow> uint64 \<Rightarrow> envelope" where
  "bare_envelope kind sequence =
    \<lparr>en_Kind = kind, en_RequestID = 0, en_Sequence = sequence, en_Payload = []\<rparr>"

text \<open>The two frames a connection starts with, if both can be marshalled.\<close>

definition prologue :: "framer \<Rightarrow> marshaller \<Rightarrow> snapshot \<Rightarrow> bytes list option" where
  "prologue frame mar snap =
    (case marshalEnvelope frame (bare_envelope KindHello 0) (mar (PHello service_hello)) of
      None \<Rightarrow> None
    | Some h \<Rightarrow>
        (case marshalEnvelope frame (bare_envelope KindSnapshot (sn_Sequence snap)) (mar (PSnapshot snap)) of
          None \<Rightarrow> None
        | Some f \<Rightarrow> Some [h, f]))"

section \<open>State\<close>

datatype phase =
    Absent
  | Handshaking
  | Joined                     \<comment> \<open>numbered, before \<open>owner.Attach\<close>\<close>
  | Attached snapshot
  | Ready                      \<comment> \<open>started, before it becomes current\<close>
  | Replacing "nat option"     \<comment> \<open>current, before \<open>old.fail()\<close>\<close>
  | Serving
  | Leaving                    \<comment> \<open>at the deferred \<open>c.fail()\<close> and \<open>connectionDone\<close>\<close>
  | Detaching                  \<comment> \<open>before the last \<open>owner.Detach\<close>\<close>
  | Finished

datatype closing = Open | Shutting "nat option" | Waiting | Closed_down

record pserver =
  ps_owner :: owner
  ps_conns :: hub
  ps_phase :: "nat \<Rightarrow> phase"
  ps_current :: "nat option"
  ps_nextGen :: uint64
  ps_closing :: closing

definition started_server :: "owner \<Rightarrow> pserver" where
  "started_server ow = \<lparr>ps_owner = ow, ps_conns = (\<lambda>i. newConnection), ps_phase = (\<lambda>i. Absent),
     ps_current = None, ps_nextGen = 0, ps_closing = Open\<rparr>"

definition set_phase :: "nat \<Rightarrow> phase \<Rightarrow> pserver \<Rightarrow> pserver" where
  "set_phase i ph s = s\<lparr>ps_phase := (ps_phase s)(i := ph)\<rparr>"

definition set_conn :: "nat \<Rightarrow> connection \<Rightarrow> pserver \<Rightarrow> pserver" where
  "set_conn i c s = s\<lparr>ps_conns := (ps_conns s)(i := c)\<rparr>"

definition fail_conn :: "nat \<Rightarrow> pserver \<Rightarrow> pserver" where
  "fail_conn i s = set_conn i (fail (ps_conns s i)) s"

section \<open>The handler's steps\<close>

definition join :: "nat \<Rightarrow> pserver \<Rightarrow> pserver" where
  "join i s = set_phase i Joined (s\<lparr>ps_nextGen := ps_nextGen s + 1\<rparr>)"

definition attach :: "nat \<Rightarrow> pserver \<Rightarrow> pserver" where
  "attach i s =
    (case Owner_Attach (Some i) (ps_owner s) of
      (Inl e, ow) \<Rightarrow> set_phase i Leaving (s\<lparr>ps_owner := ow\<rparr>)
    | (Inr snap, ow) \<Rightarrow>
        let s = s\<lparr>ps_owner := ow\<rparr> in
        if Snapshot_Validate snap \<noteq> None then set_phase i Leaving s
        else set_phase i (Attached snap) s)"

definition begin_stream :: "bytes list option \<Rightarrow> nat \<Rightarrow> snapshot \<Rightarrow> pserver \<Rightarrow> pserver" where
  "begin_stream pro i snap s =
    (let gone = (\<lambda>s. set_phase i Leaving (s\<lparr>ps_owner := Owner_Detach i (ps_owner s)\<rparr>)) in
     case pro of
       None \<Rightarrow> gone s
     | Some fs \<Rightarrow>
         (case start (sn_Sequence snap) fs (ps_conns s i) of
           (Started, c) \<Rightarrow> set_phase i Ready (set_conn i c s)
         | (_, c) \<Rightarrow> gone (set_conn i c s)))"

definition install :: "nat \<Rightarrow> pserver \<Rightarrow> pserver" where
  "install i s = set_phase i (Replacing (ps_current s)) (s\<lparr>ps_current := Some i\<rparr>)"

definition replace :: "nat \<Rightarrow> nat option \<Rightarrow> pserver \<Rightarrow> pserver" where
  "replace i old s =
    set_phase i Serving (case old of None \<Rightarrow> s | Some j \<Rightarrow> if j = i then s else fail_conn j s)"

definition leave :: "nat \<Rightarrow> pserver \<Rightarrow> pserver" where
  "leave i s =
    (let s = fail_conn i s;
         s = (if ps_current s = Some i then s\<lparr>ps_current := None\<rparr> else s)
     in set_phase i Detaching s)"

definition detach :: "nat \<Rightarrow> pserver \<Rightarrow> pserver" where
  "detach i s = set_phase i Finished (s\<lparr>ps_owner := Owner_Detach i (ps_owner s)\<rparr>)"

section \<open>Everything that can happen\<close>

text \<open>
  \<open>mar\<close> and \<open>frame\<close> are \<open>json.Marshal\<close> of payloads and of envelopes. A reader may end at any time, when its peer closes or misbehaves; its loop ends for certain when
  the connection has failed. \<open>Close\<close> reads the current connection before it closes the listener.
\<close>

datatype pstep =
    PAccept nat | PRefuse nat | PJoin nat | PAttach nat | PStart nat | PInstall nat | PReplace nat
  | PConn nat connection | PEnd nat | PLeave nat | PDetach nat
  | POwner owner_cmd | PClose | PShut | PClosed

inductive pres_step ::
  "marshaller \<Rightarrow> framer \<Rightarrow> pstep \<Rightarrow> pserver \<Rightarrow> pserver \<Rightarrow> bool"
  for mar frame where
  accept: "ps_phase s i = Absent \<Longrightarrow> ps_closing s \<noteq> Waiting \<and> ps_closing s \<noteq> Closed_down \<Longrightarrow>
    pres_step mar frame (PAccept i) s (set_phase i Handshaking (set_conn i newConnection s))"
| refuse: "ps_phase s i = Handshaking \<Longrightarrow> \<not> snd (handshake uid peer dl hello undl) \<Longrightarrow>
    pres_step mar frame (PRefuse i) s (set_phase i Leaving s)"
| joins: "ps_phase s i = Handshaking \<Longrightarrow> snd (handshake uid peer dl hello undl) \<Longrightarrow>
    pres_step mar frame (PJoin i) s (join i s)"
| attaches: "ps_phase s i = Joined \<Longrightarrow> pres_step mar frame (PAttach i) s (attach i s)"
| begins: "ps_phase s i = Attached snap \<Longrightarrow>
    pres_step mar frame (PStart i) s (begin_stream (prologue frame mar snap) i snap s)"
| installs: "ps_phase s i = Ready \<Longrightarrow> pres_step mar frame (PInstall i) s (install i s)"
| replaces: "ps_phase s i = Replacing old \<Longrightarrow> pres_step mar frame (PReplace i) s (replace i old s)"
| works: "ps_phase s i = Serving \<Longrightarrow>
    writer_take (ps_conns s i) = Some c \<or> writer_done ok (ps_conns s i) = Some c
      \<or> c = snd (send_reply mar frame rid r (ps_conns s i)) \<Longrightarrow>
    pres_step mar frame (PConn i c) s (set_conn i c s)"
| ends: "ps_phase s i = Serving \<Longrightarrow> pres_step mar frame (PEnd i) s (set_phase i Leaving s)"
| leaves: "ps_phase s i = Leaving \<Longrightarrow> pres_step mar frame (PLeave i) s (leave i s)"
| detaches: "ps_phase s i = Detaching \<Longrightarrow> pres_step mar frame (PDetach i) s (detach i s)"
| owner: "(\<forall>n. c \<noteq> CAttach n \<and> c \<noteq> CDetach n) \<Longrightarrow>
    owner_step mar (hub_send frame) c (ps_owner s, ps_conns s) = (ow, w) \<Longrightarrow>
    pres_step mar frame (POwner c) s (s\<lparr>ps_owner := ow, ps_conns := w\<rparr>)"
| closes: "ps_closing s = Open \<Longrightarrow>
    pres_step mar frame PClose s (s\<lparr>ps_closing := Shutting (ps_current s)\<rparr>)"
| shuts: "ps_closing s = Shutting old \<Longrightarrow>
    pres_step mar frame PShut s
      ((case old of None \<Rightarrow> s | Some j \<Rightarrow> fail_conn j s)\<lparr>ps_closing := Waiting\<rparr>)"
| closed: "ps_closing s = Waiting \<Longrightarrow> \<forall>i. ps_phase s i = Absent \<or> ps_phase s i = Finished \<Longrightarrow>
    pres_step mar frame PClosed s (s\<lparr>ps_closing := Closed_down\<rparr>)"

inductive pres_run ::
  "marshaller \<Rightarrow> framer \<Rightarrow> pserver \<Rightarrow> bool"
  for mar frame where
  opens: "ow_sink ow = None \<Longrightarrow> pres_run mar frame (started_server ow)"
| steps: "pres_run mar frame s \<Longrightarrow> pres_step mar frame x s s' \<Longrightarrow> pres_run mar frame s'"

inductive_cases pres_step_cases: "pres_step mar frame x s s'"

section \<open>One presenter at a time\<close>

text \<open>The phases in which a connection may be the sink, and may be current.\<close>

definition attached_phase :: "phase \<Rightarrow> bool" where
  "attached_phase ph \<longleftrightarrow> ph \<notin> {Absent, Handshaking, Joined, Finished}"

definition may_be_current :: "phase \<Rightarrow> bool" where
  "may_be_current ph \<longleftrightarrow> (\<exists>old. ph = Replacing old) \<or> ph = Serving \<or> ph = Leaving"

definition on_stage :: "phase \<Rightarrow> bool" where
  "on_stage ph \<longleftrightarrow> (\<exists>old. ph = Replacing old) \<or> ph = Serving"

definition pres_inv :: "pserver \<Rightarrow> bool" where
  "pres_inv s \<longleftrightarrow> (\<forall>i. ow_sink (ps_owner s) = Some i \<longrightarrow> attached_phase (ps_phase s i))
     \<and> (\<forall>i. ps_current s = Some i \<longrightarrow> may_be_current (ps_phase s i))
     \<and> (\<forall>i. on_stage (ps_phase s i) \<longrightarrow> ps_current s \<noteq> Some i \<longrightarrow>
          cn_failed (ps_conns s i) \<or> (\<exists>j. ps_phase s j = Replacing (Some i) \<and> j \<noteq> i))"

text \<open>Nothing revives a failed connection.\<close>

lemma fail_failed [simp]: "cn_failed (fail c)"
  by (simp add: fail_def)

lemma Send_stays_failed: "cn_failed c \<Longrightarrow> cn_failed (snd (Send frame e c))"
  by (auto simp: Send_def Let_def split: option.splits)

lemma send_reply_failed: "cn_failed c \<Longrightarrow> cn_failed (snd (send_reply mar frame rid r c))"
  by (auto simp: send_reply_def Let_def split: option.splits)

lemma writer_failed:
  "cn_failed c \<Longrightarrow> writer_take c = Some c' \<or> writer_done ok c = Some c' \<Longrightarrow> cn_failed c'"
  by (auto simp: writer_take_def writer_done_def release_def fail_def split: option.splits if_splits list.splits)

lemma hub_send_failed: "cn_failed (w i) \<Longrightarrow> cn_failed (snd (hub_send frame j e w) i)"
  by (auto simp: hub_send_def case_prod_beta intro: Send_stays_failed)

lemma publish_hub_failed:
  "cn_failed (snd s i) \<Longrightarrow> cn_failed (snd (publish mar (hub_send frame) kind p s) i)"
  by (cases s) (simp add: publish_def Let_def case_prod_beta hub_send_failed split: option.split)

lemma retire_hub_failed:
  "cn_failed (snd s i) \<Longrightarrow> cn_failed (snd (retire mar (hub_send frame) spot r s) i)"
  by (cases s) (simp add: retire_def Let_def publish_hub_failed)

lemma owner_step_failed:
  "cn_failed (snd s i) \<Longrightarrow> cn_failed (snd (owner_step mar (hub_send frame) c s) i)"
proof (cases s)
  case (Pair ow w)
  assume "cn_failed (snd s i)"
  then show ?thesis
    by (cases c)
      (auto simp: owner_step_def submit_def Pair Owner_Add_def Owner_Update_def Owner_UpdateMenu_def
        Owner_Remove_def Let_def case_prod_beta
        intro!: publish_hub_failed retire_hub_failed split: option.split)
qed

lemma retire_sink:
  "ow_sink (fst (retire mar send spot r s)) = ow_sink (fst s) \<or> ow_sink (fst (retire mar send spot r s)) = None"
proof (cases s)
  case (Pair ow w)
  then show ?thesis
    using publish_sink [of mar send KindItemRemoved "PRemoved (rc_key r)"
        "(ow\<lparr>ow_items := gm_del spot (ow_items ow), ow_order := remove1 spot (ow_order ow)\<rparr>, w)"]
    by (auto simp: retire_def Let_def)
qed

lemma owner_step_sink:
  assumes "\<forall>n. c \<noteq> CAttach n \<and> c \<noteq> CDetach n"
  shows "ow_sink (fst (owner_step mar send c s)) = ow_sink (fst s)
    \<or> ow_sink (fst (owner_step mar send c s)) = None"
proof (cases s)
  case (Pair ow w)
  have pub: "ow_sink (fst (publish mar send kind p (ow\<lparr>ow_items := m\<rparr>, w))) = ow_sink ow
      \<or> ow_sink (fst (publish mar send kind p (ow\<lparr>ow_items := m\<rparr>, w))) = None" for kind p m
    using publish_sink [of mar send kind p "(ow\<lparr>ow_items := m\<rparr>, w)"] by simp
  show ?thesis
    using assms pub retire_sink [of mar send _ _ s]
    by (cases c)
      (auto simp: owner_step_def submit_def Pair Owner_Add_def Owner_Update_def Owner_UpdateMenu_def
        Owner_Remove_def Owner_Close_def Let_def case_prod_beta split: option.split)
qed

lemmas pres_defs = set_phase_def set_conn_def fail_conn_def join_def install_def replace_def leave_def
  detach_def attached_phase_def may_be_current_def on_stage_def

lemma start_ready:
  "start baseline fs c = (Started, c') \<Longrightarrow> \<not> cn_failed c"
  by (auto simp: start_def split: if_splits)

definition staged :: "pserver \<Rightarrow> nat \<Rightarrow> bool" where
  "staged s i \<longleftrightarrow> (on_stage (ps_phase s i) \<longrightarrow> ps_current s \<noteq> Some i \<longrightarrow>
     cn_failed (ps_conns s i) \<or> (\<exists>j. ps_phase s j = Replacing (Some i) \<and> j \<noteq> i))"

lemma pres_inv_split:
  "pres_inv s \<longleftrightarrow> (\<forall>i. ow_sink (ps_owner s) = Some i \<longrightarrow> attached_phase (ps_phase s i))
     \<and> (\<forall>i. ps_current s = Some i \<longrightarrow> may_be_current (ps_phase s i)) \<and> (\<forall>i. staged s i)"
  by (simp add: pres_inv_def staged_def)

lemma staged_move:
  assumes "staged s k"
    and "on_stage (ps_phase s' k) \<Longrightarrow> ps_current s' \<noteq> Some k \<Longrightarrow>
      on_stage (ps_phase s k) \<and> ps_current s \<noteq> Some k"
    and "cn_failed (ps_conns s k) \<Longrightarrow> cn_failed (ps_conns s' k)"
    and "\<And>j. ps_phase s j = Replacing (Some k) \<Longrightarrow> j \<noteq> k \<Longrightarrow>
      ps_phase s' j = Replacing (Some k) \<or> cn_failed (ps_conns s' k)"
  shows "staged s' k"
  using assms unfolding staged_def by blast

text \<open>A handler's move from one phase to another that replaces nobody.\<close>

lemma pres_inv_phase:
  assumes "pres_inv s" and "attached_phase (ps_phase s i) \<longrightarrow> attached_phase ph"
    and "may_be_current (ps_phase s i) \<longrightarrow> may_be_current ph"
    and "on_stage ph \<longrightarrow> on_stage (ps_phase s i)" and "\<forall>j. ps_phase s i \<noteq> Replacing (Some j)"
  shows "pres_inv (set_phase i ph s)"
proof -
  have "staged (set_phase i ph s) k" for k
  proof -
    from assms(1) have "staged s k" by (simp add: pres_inv_split)
    with assms(4,5) show ?thesis
      by (cases "k = i") (auto simp: staged_def set_phase_def)
  qed
  with assms(1-3) show ?thesis by (auto simp: pres_inv_split set_phase_def)
qed

lemma pres_inv_conns:
  assumes "pres_inv s"
    and "\<And>i. cn_failed (ps_conns s i) \<Longrightarrow> cn_failed (w i) \<or> \<not> on_stage (ps_phase s i)"
  shows "pres_inv (s\<lparr>ps_conns := w\<rparr>)"
  using assms by (fastforce simp: pres_inv_split staged_def)

lemma pres_inv_conn:
  assumes "pres_inv s" and "cn_failed (ps_conns s i) \<longrightarrow> cn_failed c \<or> \<not> on_stage (ps_phase s i)"
  shows "pres_inv (set_conn i c s)"
  unfolding set_conn_def by (rule pres_inv_conns [OF assms(1)]) (use assms(2) in auto)

lemma pres_inv_owner:
  assumes "pres_inv s" and "\<And>i. ow_sink ow = Some i \<Longrightarrow> attached_phase (ps_phase s i)"
  shows "pres_inv (s\<lparr>ps_owner := ow\<rparr>)"
  using assms by (simp add: pres_inv_split staged_def)

lemma pres_inv_frame:
  "pres_inv (s\<lparr>ps_nextGen := n\<rparr>) = pres_inv s" "pres_inv (s\<lparr>ps_closing := c\<rparr>) = pres_inv s"
  by (simp_all add: pres_inv_split staged_def)

lemma staged_all: "pres_inv s \<Longrightarrow> staged s k"
  by (simp add: pres_inv_split)

lemma pres_inv_install:
  assumes "pres_inv s" and "ps_phase s i = Ready"
  shows "pres_inv (install i s)"
proof -
  have "staged (install i s) k" for k
  proof (cases "k = i \<or> ps_current s = Some k")
    case True
    then show ?thesis by (auto simp: staged_def install_def set_phase_def)
  next
    case False
    show ?thesis
      by (rule staged_move [OF staged_all [OF assms(1)]])
        (use False assms(2) in \<open>auto simp: install_def set_phase_def\<close>)
  qed
  with assms show ?thesis
    by (auto simp: pres_inv_split install_def set_phase_def attached_phase_def may_be_current_def)
qed

lemma replace_frame:
  "ps_owner (replace i old s) = ps_owner s" "ps_current (replace i old s) = ps_current s"
  "ps_phase (replace i old s) = (ps_phase s)(i := Serving)"
  "cn_failed (ps_conns s k) \<Longrightarrow> cn_failed (ps_conns (replace i old s) k)"
  "old = Some k \<Longrightarrow> i \<noteq> k \<Longrightarrow> cn_failed (ps_conns (replace i old s) k)"
  by (cases old; auto simp: replace_def set_phase_def fail_conn_def set_conn_def)+

lemma pres_inv_replace:
  assumes "pres_inv s" and "ps_phase s i = Replacing old"
  shows "pres_inv (replace i old s)"
proof -
  have "staged (replace i old s) k" for k
    by (rule staged_move [OF staged_all [OF assms(1)]])
      (use assms(2) in \<open>auto simp: replace_frame on_stage_def split: if_splits\<close>)
  with assms show ?thesis
    by (auto simp: pres_inv_split replace_frame attached_phase_def may_be_current_def)
qed

lemma leave_frame:
  "ps_owner (leave i s) = ps_owner s"
  "ps_current (leave i s) = (if ps_current s = Some i then None else ps_current s)"
  "ps_phase (leave i s) = (ps_phase s)(i := Detaching)"
  "cn_failed (ps_conns s k) \<Longrightarrow> cn_failed (ps_conns (leave i s) k)"
  by (auto simp: leave_def Let_def set_phase_def fail_conn_def set_conn_def)

lemma pres_inv_leave:
  assumes "pres_inv s" and "ps_phase s i = Leaving"
  shows "pres_inv (leave i s)"
proof -
  have "staged (leave i s) k" for k
    by (rule staged_move [OF staged_all [OF assms(1)]])
      (use assms(2) in \<open>auto simp: leave_frame on_stage_def split: if_splits\<close>)
  with assms show ?thesis
    by (auto simp: pres_inv_split leave_frame attached_phase_def split: if_splits)
qed

lemma pres_inv_detach:
  assumes "pres_inv s" and "ps_phase s i = Detaching"
  shows "pres_inv (detach i s)"
proof -
  have "staged (detach i s) k" for k
    by (rule staged_move [OF staged_all [OF assms(1)]])
      (use assms(2) in \<open>auto simp: detach_def set_phase_def on_stage_def split: if_splits\<close>)
  with assms show ?thesis
    by (auto simp: pres_inv_split detach_def set_phase_def may_be_current_def Owner_Detach_def split: if_splits)
qed

lemma pres_inv_attach:
  assumes "pres_inv s" and "ps_phase s i = Joined"
  shows "pres_inv (attach i s)"
proof -
  have move: "pres_inv (set_phase i ph (s\<lparr>ps_owner := ow\<rparr>))"
    if "attached_phase ph" "\<not> on_stage ph" "\<And>k. ow_sink ow = Some k \<Longrightarrow> k = i \<or> ow_sink (ps_owner s) = Some k"
    for ph ow
  proof -
    have "staged (set_phase i ph (s\<lparr>ps_owner := ow\<rparr>)) k" for k
      by (rule staged_move [OF staged_all [OF assms(1)]])
        (use assms(2) that(2) in \<open>auto simp: set_phase_def split: if_splits\<close>)
    with assms that show ?thesis
      by (auto simp: pres_inv_split set_phase_def may_be_current_def)
  qed
  have phases: "attached_phase Leaving" "\<not> on_stage Leaving" "attached_phase (Attached snap)"
    "\<not> on_stage (Attached snap)" for snap by (simp_all add: attached_phase_def on_stage_def)
  have "pres_inv (set_phase i Leaving s)" using move [of Leaving "ps_owner s"] phases by simp
  then show ?thesis
    by (auto simp: attach_def Owner_Attach_def Let_def phases intro!: move)
qed

lemma pres_inv_begin:
  assumes "pres_inv s" and "ps_phase s i = Attached snap"
  shows "pres_inv (begin_stream pro i snap s)"
proof -
  have stage: "\<not> on_stage (ps_phase s i)" "\<not> may_be_current (ps_phase s i)"
    using assms(2) by (simp_all add: pres_defs)
  have sets: "pres_inv (set_phase i ph (set_conn i c s))" if "attached_phase ph" "\<not> on_stage ph" for ph c
    using pres_inv_conn [OF assms(1), of i c] stage that assms(2)
    by (intro pres_inv_phase) (simp_all add: set_conn_def)
  have gone: "pres_inv (set_phase i Leaving (t\<lparr>ps_owner := Owner_Detach i (ps_owner t)\<rparr>))"
    if "pres_inv t" "ps_phase t = ps_phase s" for t
  proof -
    have "pres_inv (t\<lparr>ps_owner := Owner_Detach i (ps_owner t)\<rparr>)"
      by (rule pres_inv_owner [OF that(1)])
        (use that in \<open>auto simp: pres_inv_split Owner_Detach_def split: if_splits\<close>)
    then show ?thesis
      by (rule pres_inv_phase) (use that assms(2) in \<open>simp_all add: pres_defs\<close>)
  qed
  have conn: "pres_inv (set_conn i c s)" for c using pres_inv_conn [OF assms(1)] stage by blast
  show ?thesis
    using sets [of Ready] gone [OF assms(1) refl] gone [OF conn] 
    by (auto simp: begin_stream_def Let_def set_conn_def pres_defs split: option.split prod.split start_result.split)
qed

lemma pres_inv_step:
  assumes "pres_step mar frame x s s'" and "pres_inv s"
  shows "pres_inv s'"
  using assms(1)
proof cases
  case (accept i)
  have "pres_inv (set_conn i newConnection s)"
    by (rule pres_inv_conn [OF assms(2)]) (use accept in \<open>simp add: pres_defs\<close>)
  then show ?thesis
    unfolding accept by (rule pres_inv_phase) (use accept in \<open>simp_all add: pres_defs\<close>)
next
  case (refuse i uid peer dl hello undl)
  show ?thesis
    unfolding refuse by (rule pres_inv_phase [OF assms(2)])
      (use refuse in \<open>simp_all add: attached_phase_def may_be_current_def on_stage_def\<close>)
next
  case (joins i uid peer dl hello undl)
  have "pres_inv (s\<lparr>ps_nextGen := ps_nextGen s + 1\<rparr>)" using assms(2) by (simp add: pres_inv_frame)
  then show ?thesis
    unfolding joins join_def by (rule pres_inv_phase)
      (use joins in \<open>simp_all add: attached_phase_def may_be_current_def on_stage_def\<close>)
next
  case (works i c ok rid r)
  show ?thesis
    unfolding works(2)
    by (rule pres_inv_conn [OF assms(2)]) (use works writer_failed send_reply_failed in blast)
next
  case (ends i)
  show ?thesis
    unfolding ends by (rule pres_inv_phase [OF assms(2)])
      (use ends in \<open>simp_all add: attached_phase_def may_be_current_def on_stage_def\<close>)
next
  case (owner c ow w)
  have w: "cn_failed (w i)" if "cn_failed (ps_conns s i)" for i
    using owner_step_failed [of "(ps_owner s, ps_conns s)" i mar frame c] that owner(4) by simp
  have "pres_inv (s\<lparr>ps_owner := ow\<rparr>)"
  proof (rule pres_inv_owner [OF assms(2)])
    fix i assume "ow_sink ow = Some i"
    with owner_step_sink [OF owner(3), of mar "hub_send frame" "(ps_owner s, ps_conns s)"] owner(4)
    have "ow_sink (ps_owner s) = Some i" by auto
    with assms(2) show "attached_phase (ps_phase s i)" by (simp add: pres_inv_split)
  qed
  then have "pres_inv ((s\<lparr>ps_owner := ow\<rparr>)\<lparr>ps_conns := w\<rparr>)"
    by (rule pres_inv_conns) (simp add: w)
  with owner(2) show ?thesis by simp
next
  case (shuts old)
  then show ?thesis
    using assms(2) by (cases old) (auto simp: pres_inv_frame fail_conn_def intro!: pres_inv_conn)
qed (use assms(2) in \<open>simp_all add: pres_inv_attach pres_inv_begin pres_inv_install pres_inv_replace
  pres_inv_leave pres_inv_detach pres_inv_frame\<close>)

lemma pres_run_inv: "pres_run mar frame s \<Longrightarrow> pres_inv s"
proof (induction rule: pres_run.induct)
  case (opens ow)
  then show ?case by (simp add: pres_inv_split staged_def started_server_def on_stage_def)
next
  case (steps s x s')
  then show ?case by (blast intro: pres_inv_step)
qed

lemma one_presenter:
  assumes "pres_run mar frame s" and "\<forall>k old. ps_phase s k \<noteq> Replacing old"
    and "ps_phase s i = Serving" "\<not> cn_failed (ps_conns s i)"
    and "ps_phase s j = Serving" "\<not> cn_failed (ps_conns s j)"
  shows "i = j"
proof -
  have "ps_current s = Some k" if "ps_phase s k = Serving" "\<not> cn_failed (ps_conns s k)" for k
    using pres_run_inv [OF assms(1)] assms(2) that by (auto simp: pres_inv_split staged_def on_stage_def)
  with assms show ?thesis by (metis option.inject)
qed

end
