(* ===== verification/Presenter_Faults.thy ===== *)
theory Presenter_Faults
  imports Presenter
begin

text \<open>
  Two interleavings of \<open>internal/presenter/server.go\<close> that end badly. Handlers attach to the state
  owner and become current in two separate steps, so that two presenters that connect at once can do
  so in opposite orders: the one that ends up current is then no longer the owner's sink. And
  \<open>Close\<close> fails only the connection that was current when it looked, so that a handler that becomes
  current afterwards is waited for, for as long as its peer keeps the socket open.
\<close>

section \<open>Two sockets\<close>

definition two :: "phase \<Rightarrow> phase \<Rightarrow> connection \<Rightarrow> connection \<Rightarrow> nat option \<Rightarrow> nat option \<Rightarrow> uint64 \<Rightarrow>
    closing \<Rightarrow> pserver" where
  "two a b c d cur sk gen cl =
    \<lparr>ps_owner = Owner_Start\<lparr>ow_sink := sk\<rparr>, ps_conns = (\<lambda>i. newConnection)(0 := c, 1 := d),
     ps_phase = (\<lambda>i. Absent)(0 := a, 1 := b), ps_current = cur, ps_nextGen = gen, ps_closing = cl\<rparr>"

lemma two_select [simp]:
  "ps_phase (two a b c d cur sk g cl) i = (if i = 0 then a else if i = 1 then b else Absent)"
  "ps_conns (two a b c d cur sk g cl) i = (if i = 0 then c else if i = 1 then d else newConnection)"
  "ps_current (two a b c d cur sk g cl) = cur"
  "ps_owner (two a b c d cur sk g cl) = Owner_Start\<lparr>ow_sink := sk\<rparr>"
  "ps_closing (two a b c d cur sk g cl) = cl"
  "ps_nextGen (two a b c d cur sk g cl) = g"
  by (simp_all add: two_def)

lemma two_update [simp]:
  "set_phase 0 x (two a b c d cur sk g cl) = two x b c d cur sk g cl"
  "set_phase (Suc 0) x (two a b c d cur sk g cl) = two a x c d cur sk g cl"
  "set_conn 0 e (two a b c d cur sk g cl) = two a b e d cur sk g cl"
  "set_conn (Suc 0) e (two a b c d cur sk g cl) = two a b c e cur sk g cl"
  "(two a b c d cur sk g cl)\<lparr>ps_current := k\<rparr> = two a b c d k sk g cl"
  "(two a b c d cur sk g cl)\<lparr>ps_nextGen := h\<rparr> = two a b c d cur sk h cl"
  "(two a b c d cur sk g cl)\<lparr>ps_closing := ml\<rparr> = two a b c d cur sk g ml"
  "(two a b c d cur sk g cl)\<lparr>ps_owner := Owner_Start\<lparr>ow_sink := t\<rparr>\<rparr> = two a b c d cur t g cl"
  by (simp_all add: two_def set_phase_def set_conn_def fun_eq_iff)

definition empty_snapshot :: snapshot where
  "empty_snapshot = \<lparr>sn_Sequence = 0, sn_Items = []\<rparr>"

lemma attach_two [simp]:
  "attach 0 (two a b c d cur sk g cl) = two (Attached empty_snapshot) b c d cur (Some 0) g cl"
  "attach (Suc 0) (two a b c d cur sk g cl) = two a (Attached empty_snapshot) c d cur (Some 1) g cl"
proof -
  have snap: "snapshotLocked (Owner_Start\<lparr>ow_sink := t\<rparr>) = empty_snapshot" for t
    by (simp add: snapshotLocked_def Owner_Start_def empty_snapshot_def)
  have "Snapshot_Validate empty_snapshot = None"
    by (simp add: Snapshot_Validate_def empty_snapshot_def const_defs)
  moreover have "\<not> ow_stopped (Owner_Start\<lparr>ow_sink := t\<rparr>)" for t by (simp add: Owner_Start_def)
  ultimately show "attach 0 (two a b c d cur sk g cl) = two (Attached empty_snapshot) b c d cur (Some 0) g cl"
    and "attach (Suc 0) (two a b c d cur sk g cl) = two a (Attached empty_snapshot) c d cur (Some 1) g cl"
    by (simp_all add: attach_def Owner_Attach_def Let_def snap)
qed

lemma detach_two:
  "detach (Suc 0) (two a b c d cur sk g cl) = two a Finished c d cur (if sk = Some 1 then None else sk) g cl"
  by (simp add: detach_def Owner_Detach_def)

lemma accepted: "snd (handshake uid (Some uid) True (Inr service_hello) True)"
  by (simp add: handshake_def service_hello_def)

definition startable :: "marshaller \<Rightarrow> framer \<Rightarrow> bytes list \<Rightarrow> connection \<Rightarrow> bool" where
  "startable mar frame fs c \<longleftrightarrow> prologue frame mar empty_snapshot = Some fs
     \<and> start 0 fs newConnection = (Started, c)"

lemma begin_Started: "start base fs c = (Started, c') \<Longrightarrow> \<not> cn_failed c"
  by (auto simp: start_def split: if_splits)

lemma begin_two:
  assumes "startable mar frame fs c"
  shows "begin_stream (prologue frame mar empty_snapshot) 0 empty_snapshot (two a b newConnection d cur sk g cl)
      = two Ready b c d cur sk g cl"
    and "begin_stream (prologue frame mar empty_snapshot) (Suc 0) empty_snapshot
        (two a b e newConnection cur sk g cl) = two a Ready e c cur sk g cl"
  using assms by (simp_all add: startable_def begin_stream_def empty_snapshot_def)

lemma run_start: "pres_run mar frame (two Absent Absent newConnection newConnection None None 0 Open)"
proof -
  have "two Absent Absent newConnection newConnection None None 0 Open = started_server Owner_Start"
    by (simp add: two_def started_server_def fun_eq_iff Owner_Start_def)
  then show ?thesis using pres_run.opens [of Owner_Start mar frame] by (simp add: Owner_Start_def)
qed

text \<open>Both sockets accepted, the first attached before the second, both ready.\<close>

lemma both_ready:
  assumes "startable mar frame fs c"
  shows "pres_run mar frame (two Ready Ready c c None (Some 1) 2 Open)"
proof -
  note step = pres_run.steps [where mar = mar and frame = frame]
  note A = assms
  have "pres_run mar frame (two Handshaking Absent newConnection newConnection None None 0 Open)"
    using step [OF run_start accept [of _ 0]] by simp
  from step [OF this accept [of _ "Suc 0"]]
  have "pres_run mar frame (two Handshaking Handshaking newConnection newConnection None None 0 Open)" by simp
  from step [OF this joins [of _ 0, OF _ accepted]]
  have "pres_run mar frame (two Joined Handshaking newConnection newConnection None None 1 Open)"
    by (simp add: join_def)
  from step [OF this joins [of _ "Suc 0", OF _ accepted]]
  have "pres_run mar frame (two Joined Joined newConnection newConnection None None 2 Open)"
    by (simp add: join_def)
  from step [OF this attaches [of _ 0]]
  have "pres_run mar frame (two (Attached empty_snapshot) Joined newConnection newConnection None (Some 0) 2 Open)"
    by simp
  from step [OF this attaches [of _ "Suc 0"]]
  have "pres_run mar frame (two (Attached empty_snapshot) (Attached empty_snapshot) newConnection newConnection
      None (Some 1) 2 Open)" by simp
  from step [OF this begins [of _ 0 empty_snapshot]]
  have "pres_run mar frame (two Ready (Attached empty_snapshot) c newConnection None (Some 1) 2 Open)"
    by (simp add: begin_two [OF A])
  from step [OF this begins [of _ "Suc 0" empty_snapshot]]
  show ?thesis by (simp add: begin_two [OF A])
qed

text \<open>The second becomes current first; the first replaces it, and its handler detaches the sink.\<close>

lemma deaf_reached:
  assumes "startable mar frame fs c"
  shows "pres_run mar frame (two Serving Finished c (fail (fail c)) (Some 0) None 2 Open)"
proof -
  note step = pres_run.steps [where mar = mar and frame = frame]
  from step [OF both_ready [OF assms] installs [of _ "Suc 0"]]
  have "pres_run mar frame (two Ready (Replacing None) c c (Some 1) (Some 1) 2 Open)"
    by (simp add: install_def)
  from step [OF this replaces [of _ "Suc 0"]]
  have "pres_run mar frame (two Ready Serving c c (Some 1) (Some 1) 2 Open)"
    by (simp add: replace_def)
  from step [OF this installs [of _ 0]]
  have "pres_run mar frame (two (Replacing (Some 1)) Serving c c (Some 0) (Some 1) 2 Open)"
    by (simp add: install_def)
  from step [OF this replaces [of _ 0]]
  have "pres_run mar frame (two Serving Serving c (fail c) (Some 0) (Some 1) 2 Open)"
    by (simp add: replace_def fail_conn_def)
  from step [OF this ends [of _ "Suc 0"]]
  have "pres_run mar frame (two Serving Leaving c (fail c) (Some 0) (Some 1) 2 Open)" by simp
  from step [OF this leaves [of _ "Suc 0"]]
  have "pres_run mar frame (two Serving Detaching c (fail (fail c)) (Some 0) (Some 1) 2 Open)"
    by (simp add: leave_def fail_conn_def Let_def)
  from step [OF this detaches [of _ "Suc 0"]]
  show ?thesis by (simp add: detach_two)
qed

section \<open>Nobody tells a presenter without a sink\<close>

lemma publish_silent: "ow_sink (fst s) = None \<Longrightarrow> snd (publish mar send kind p s) = snd s"
  by (simp add: publish_no_sink)

lemma retire_silent: "ow_sink (fst s) = None \<Longrightarrow> snd (retire mar send spot r s) = snd s"
  by (cases s) (simp add: retire_def Let_def publish_silent)

lemma owner_step_silent: "ow_sink (fst s) = None \<Longrightarrow> snd (owner_step mar send c s) = snd s"
  by (cases s; cases c)
    (auto simp: owner_step_def submit_def Owner_Add_def Owner_Update_def Owner_UpdateMenu_def
      Owner_Remove_def Let_def case_prod_beta publish_silent retire_silent split: option.split)

lemma deaf_stays:
  assumes "pres_step mar frame x s s'" and "ow_sink (ps_owner s) = None" and "\<forall>i. x \<noteq> PAttach i"
  shows "ow_sink (ps_owner s') = None"
  using assms(1)
proof cases
  case (owner c ow w)
  with owner_step_sink [OF owner(3), of mar "hub_send frame" "(ps_owner s, ps_conns s)"] assms(2)
  show ?thesis by simp
next
  case (begins i snap)
  then show ?thesis
    using assms(2)
    by (auto simp: begin_stream_def Let_def set_phase_def set_conn_def Owner_Detach_def
      split: option.split prod.split start_result.split)
next
  case (shuts old)
  then show ?thesis using assms(2) by (cases old) (auto simp: fail_conn_def set_conn_def)
next
  case (replaces i old)
  then show ?thesis using assms(2) by (simp add: replace_frame)
next
  case (leaves i)
  then show ?thesis using assms(2) by (simp add: leave_frame)
qed (use assms(2,3) in \<open>auto simp: set_phase_def set_conn_def join_def install_def detach_def Owner_Detach_def\<close>)

section \<open>A close that waits for the peer\<close>

lemma close_waits:
  assumes "startable mar frame fs c"
  shows "pres_run mar frame (two Serving Absent c newConnection (Some 0) (Some 0) 1 Waiting)"
proof -
  note step = pres_run.steps [where mar = mar and frame = frame]
  have "pres_run mar frame (two Handshaking Absent newConnection newConnection None None 0 Open)"
    using step [OF run_start accept [of _ 0]] by simp
  from step [OF this joins [of _ 0, OF _ accepted]]
  have "pres_run mar frame (two Joined Absent newConnection newConnection None None 1 Open)"
    by (simp add: join_def)
  from step [OF this attaches [of _ 0]]
  have "pres_run mar frame (two (Attached empty_snapshot) Absent newConnection newConnection None (Some 0) 1 Open)"
    by simp
  from step [OF this begins [of _ 0 empty_snapshot]]
  have "pres_run mar frame (two Ready Absent c newConnection None (Some 0) 1 Open)"
    by (simp add: begin_two [OF assms])
  from step [OF this closes]
  have "pres_run mar frame (two Ready Absent c newConnection None (Some 0) 1 (Shutting None))" by simp
  from step [OF this shuts [of _ None]]
  have "pres_run mar frame (two Ready Absent c newConnection None (Some 0) 1 Waiting)" by simp
  from step [OF this installs [of _ 0]]
  have "pres_run mar frame (two (Replacing None) Absent c newConnection (Some 0) (Some 0) 1 Waiting)"
    by (simp add: install_def)
  from step [OF this replaces [of _ 0]] show ?thesis by (simp add: replace_def)
qed

lemma serving_blocks_close:
  assumes "pres_step mar frame x s s'" and "ps_phase s i = Serving" and "x \<noteq> PEnd i"
  shows "x \<noteq> PClosed \<and> ps_phase s' i = Serving"
  using assms(1)
proof cases
  case (begins j snap)
  then show ?thesis
    using assms(2)
    by (auto simp: begin_stream_def Let_def set_phase_def set_conn_def
      split: option.split prod.split start_result.split)
next
  case (attaches j)
  then show ?thesis
    using assms(2) by (auto simp: attach_def Owner_Attach_def Let_def set_phase_def)
next
  case (shuts old)
  then show ?thesis using assms(2) by (cases old) (auto simp: fail_conn_def set_conn_def)
next
  case (replaces j old)
  then show ?thesis using assms(2) by (auto simp: replace_frame)
next
  case (leaves j)
  then show ?thesis using assms(2) by (auto simp: leave_frame)
next
  case closed
  then show ?thesis using assms(2) by (auto dest!: spec [of _ i])
qed (use assms(2,3) in \<open>auto simp: set_phase_def set_conn_def join_def install_def detach_def\<close>)

end
