(* ===== verification/Frame.thy ===== *)
theory Frame
  imports Utf8
begin

text \<open>
  Frames and strict JSON, \<open>protocol/frame.go\<close>: a length-prefixed frame on a byte stream, read whole
  or not at all and written in as many pieces as the writer takes, and the scan that refuses an
  object with a repeated key before the decoder sees it. A reader is the list of bytes still to
  come. A writer acts on a state of any type and says how many bytes it took. \<open>json.Decoder\<close> is the
  list of tokens it will return, with \<open>TBad\<close> where it returns an error; decoding into a value is a
  parameter.
\<close>

section \<open>Lengths\<close>

definition MaxFrameSize :: nat where "MaxFrameSize = 16777216"

definition put_be32 :: "nat \<Rightarrow> bytes" where
  "put_be32 n = [char_of (n div 16777216), char_of (n div 65536), char_of (n div 256), char_of n]"

fun be32 :: "bytes \<Rightarrow> nat" where
  "be32 [a, b, c, d] = byte_val a * 16777216 + byte_val b * 65536 + byte_val c * 256 + byte_val d"
| "be32 _ = 0"

lemma be32_put: "n < 4294967296 \<Longrightarrow> be32 (put_be32 n) = n"
proof -
  assume n: "n < 4294967296"
  define a b c where "a = n div 256" and "b = a div 256" and "c = b div 256"
  then have parts: "n = a * 256 + n mod 256" "a = b * 256 + a mod 256" "b = c * 256 + b mod 256"
    by simp_all
  have "n div 65536 = b" "n div 16777216 = c"
    by (simp_all add: a_def b_def c_def div_mult2_eq [symmetric])
  moreover have "c < 256" using n by (simp add: a_def b_def c_def div_mult2_eq [symmetric])
  ultimately have "be32 (put_be32 n) = c * 16777216 + b mod 256 * 65536 + a mod 256 * 256 + n mod 256"
    by (simp add: put_be32_def byte_val_def a_def)
  with parts show ?thesis by linarith
qed

lemma length_put_be32 [simp]: "length (put_be32 n) = 4"
  by (simp add: put_be32_def)

section \<open>Reading\<close>

datatype frame_error = ShortHeader | BadLength nat | ShortPayload | ShortWrite | WriteFailed bytes

text \<open>\<open>io.ReadFull\<close>: all the bytes asked for, or an error that consumes what there was.\<close>

definition ReadFull :: "nat \<Rightarrow> bytes \<Rightarrow> bytes option \<times> bytes" where
  "ReadFull n r = (if length r < n then (None, []) else (Some (take n r), drop n r))"

definition ReadFrame :: "bytes \<Rightarrow> (frame_error + bytes) \<times> bytes" where
  "ReadFrame r =
    (case ReadFull 4 r of
      (None, r) \<Rightarrow> (Inl ShortHeader, r)
    | (Some header, r) \<Rightarrow>
        let n = be32 header in
        if n = 0 \<or> n > MaxFrameSize then (Inl (BadLength n), r)
        else (case ReadFull n r of
          (None, r) \<Rightarrow> (Inl ShortPayload, r)
        | (Some payload, r) \<Rightarrow> (Inr payload, r)))"

section \<open>Writing\<close>

text \<open>\<open>w.Write(p)\<close>: the bytes taken and the error.\<close>

type_synonym 's writer = "bytes \<Rightarrow> 's \<Rightarrow> (nat \<times> bytes option) \<times> 's"

function writeAll :: "'s writer \<Rightarrow> bytes \<Rightarrow> 's \<Rightarrow> frame_error goerror \<times> 's" where
  "writeAll put p s =
    (if p = [] then (None, s)
     else case put p s of
       ((n, Some e), s) \<Rightarrow> (Some (WriteFailed e), s)
     | ((n, None), s) \<Rightarrow>
         if n = 0 then (Some ShortWrite, s) else writeAll put (drop n p) s)"
  by pat_completeness auto
termination
  by (relation "measure (\<lambda>(put, p, s). length p)") auto

declare writeAll.simps [simp del]

lemma writeAll_steps:
  "writeAll put [] s = (None, s)"
  "p \<noteq> [] \<Longrightarrow> put p s = ((n, None), s') \<Longrightarrow> 0 < n \<Longrightarrow> writeAll put p s = writeAll put (drop n p) s'"
  "p \<noteq> [] \<Longrightarrow> put p s = ((n, e), s') \<Longrightarrow> e \<noteq> None \<or> n = 0 \<Longrightarrow>
    writeAll put p s = (Some (case e of None \<Rightarrow> ShortWrite | Some t \<Rightarrow> WriteFailed t), s')"
  by (subst writeAll.simps; auto split: option.split)+

definition WriteFrame :: "'s writer \<Rightarrow> bytes \<Rightarrow> 's \<Rightarrow> frame_error goerror \<times> 's" where
  "WriteFrame put payload s =
    (if payload = [] \<or> length payload > MaxFrameSize then (Some (BadLength (length payload)), s)
     else case writeAll put (put_be32 (length payload)) s of
       (Some e, s) \<Rightarrow> (Some e, s)
     | (None, s) \<Rightarrow> writeAll put payload s)"

text \<open>What \<open>io.Writer\<close> promises: it takes a prefix, and \<open>sent\<close> is what it has taken.\<close>

definition honest :: "'s writer \<Rightarrow> ('s \<Rightarrow> bytes) \<Rightarrow> bool" where
  "honest put sent \<longleftrightarrow> (\<forall>p s n e s'. put p s = ((n, e), s') \<longrightarrow>
     n \<le> length p \<and> sent s' = sent s @ take n p)"

definition frame_bytes :: "bytes \<Rightarrow> bytes" where
  "frame_bytes payload = put_be32 (length payload) @ payload"

definition frameable :: "bytes \<Rightarrow> bool" where
  "frameable payload \<longleftrightarrow> payload \<noteq> [] \<and> length payload \<le> MaxFrameSize"

lemma writeAll_sent:
  assumes "honest put sent"
  shows "\<exists>k\<le>length p. sent (snd (writeAll put p s)) = sent s @ take k p
    \<and> (fst (writeAll put p s) = None \<longrightarrow> k = length p)"
proof (induction "length p" arbitrary: p s rule: less_induct)
  case less
  show ?case
  proof (cases "p = []")
    case True
    then show ?thesis by (simp add: writeAll_steps)
  next
    case False
    obtain n e s' where w: "put p s = ((n, e), s')" by (metis prod.exhaust)
    then have n: "n \<le> length p" "sent s' = sent s @ take n p"
      using assms by (auto simp: honest_def)
    show ?thesis
    proof (cases "e = None \<and> 0 < n")
      case True
      then have "length (drop n p) < length p" using False by simp
      from less [OF this, of s'] obtain k where k: "k \<le> length (drop n p)"
        "sent (snd (writeAll put (drop n p) s')) = sent s' @ take k (drop n p)"
        "fst (writeAll put (drop n p) s') = None \<longrightarrow> k = length (drop n p)" by (elim exE conjE)
      have step: "writeAll put p s = writeAll put (drop n p) s'"
        by (rule writeAll_steps(2)) (use True False w in simp_all)
      have "sent (snd (writeAll put p s)) = sent s @ take n p @ take k (drop n p)"
        unfolding step k(2) n(2) by (simp only: append_assoc)
      then have "sent (snd (writeAll put p s)) = sent s @ take (n + k) p"
        by (simp only: take_add)
      moreover have "fst (writeAll put p s) = None \<longrightarrow> n + k = length p"
        unfolding step using k(3) n(1) by simp
      moreover have "n + k \<le> length p" using k(1) n(1) by simp
      ultimately have "\<exists>k\<le>length p. sent (snd (writeAll put p s)) = sent s @ take k p
        \<and> (fst (writeAll put p s) = None \<longrightarrow> k = length p)"
        by (intro exI [of _ "n + k"] conjI)
      then show ?thesis .
    next
      case stop: False
      then have "writeAll put p s = (Some (case e of None \<Rightarrow> ShortWrite | Some t \<Rightarrow> WriteFailed t), s')"
        using False w stop writeAll_steps(3) [of p put s n e s'] by blast
      with n show ?thesis by (intro exI [of _ n]) simp
    qed
  qed
qed

text \<open>A frame is written whole, or what has been sent is a prefix of it and an error is reported.\<close>

lemma WriteFrame_sent:
  assumes "honest put sent"
  shows "\<exists>k\<le>length (frame_bytes p). sent (snd (WriteFrame put p s)) = sent s @ take k (frame_bytes p)
    \<and> (fst (WriteFrame put p s) = None \<longrightarrow> k = length (frame_bytes p) \<and> frameable p)"
proof (cases "frameable p")
  case False
  then show ?thesis by (intro exI [of _ 0]) (auto simp: WriteFrame_def frameable_def)
next
  case True
  let ?h = "put_be32 (length p)"
  obtain r1 s1 where h: "writeAll put ?h s = (r1, s1)" by fastforce
  from writeAll_sent [OF assms, of ?h s] h obtain k1 where
    k1: "k1 \<le> 4" "sent s1 = sent s @ take k1 ?h" "r1 = None \<longrightarrow> k1 = 4" by auto
  show ?thesis
  proof (cases r1)
    case (Some e)
    then have "WriteFrame put p s = (Some e, s1)" using h True by (auto simp: WriteFrame_def frameable_def)
    with k1 show ?thesis by (intro exI [of _ k1]) (simp add: frame_bytes_def)
  next
    case None
    then have step: "WriteFrame put p s = writeAll put p s1"
      using h True by (auto simp: WriteFrame_def frameable_def)
    from writeAll_sent [OF assms, of p s1] obtain k2 where
      k2: "k2 \<le> length p" "sent (snd (writeAll put p s1)) = sent s1 @ take k2 p"
      "fst (writeAll put p s1) = None \<longrightarrow> k2 = length p" by (elim exE conjE)
    have h1: "sent s1 = sent s @ ?h" using k1 None by simp
    have "take (length xs + k2) (xs @ ys) = xs @ take k2 ys" for xs ys :: bytes by simp
    from this [of ?h p] have h2: "take (4 + k2) (frame_bytes p) = ?h @ take k2 p"
      unfolding frame_bytes_def length_put_be32 .
    have "sent (snd (WriteFrame put p s)) = sent s @ take (4 + k2) (frame_bytes p)"
      unfolding step k2(2) h1 h2 by (simp only: append_assoc)
    moreover have "4 + k2 \<le> length (frame_bytes p)" using k2(1) by (simp add: frame_bytes_def)
    moreover have "fst (WriteFrame put p s) = None \<longrightarrow> 4 + k2 = length (frame_bytes p)"
      unfolding step using k2(3) by (simp add: frame_bytes_def)
    ultimately show ?thesis using True by (intro exI [of _ "4 + k2"] conjI) simp_all
  qed
qed

text \<open>A writer that takes something whenever it is asked gets the frame through.\<close>

definition willing :: "'s writer \<Rightarrow> bool" where
  "willing put \<longleftrightarrow> (\<forall>p s. p \<noteq> [] \<longrightarrow> 0 < fst (fst (put p s)) \<and> snd (fst (put p s)) = None)"

lemma writeAll_willing: "willing put \<Longrightarrow> fst (writeAll put p s) = None"
proof (induction "length p" arbitrary: p s rule: less_induct)
  case less
  show ?case
  proof (cases "p = []")
    case True
    then show ?thesis by (simp add: writeAll_steps)
  next
    case False
    obtain n e s' where w: "put p s = ((n, e), s')" by (metis prod.exhaust)
    from less.prems False have "0 < fst (fst (put p s)) \<and> snd (fst (put p s)) = None"
      by (simp add: willing_def)
    with w have "put p s = ((n, None), s')" "0 < n" by auto
    with writeAll_steps(2) [of p put s n s'] False less.hyps [of "drop n p" s'] less.prems
    show ?thesis by simp
  qed
qed

lemma WriteFrame_willing: "willing put \<Longrightarrow> frameable p \<Longrightarrow> fst (WriteFrame put p s) = None"
  using writeAll_willing [of put "put_be32 (length p)" s] writeAll_willing [of put p]
  by (auto simp: WriteFrame_def frameable_def split: prod.splits)

section \<open>Reading back\<close>

lemma ReadFrame_frame:
  assumes "frameable p"
  shows "ReadFrame (frame_bytes p @ rest) = (Inr p, rest)"
proof -
  have "length p < 4294967296" using assms by (simp add: frameable_def MaxFrameSize_def)
  note be32_put [OF this]
  moreover have "ReadFull 4 (frame_bytes p @ rest) = (Some (put_be32 (length p)), p @ rest)"
    by (simp add: ReadFull_def frame_bytes_def)
  ultimately show ?thesis
    using assms by (auto simp: ReadFrame_def frameable_def ReadFull_def)
qed

text \<open>A frame that is read has a legal length, whatever the stream holds.\<close>

lemma ReadFrame_bounds: "fst (ReadFrame r) = Inr p \<Longrightarrow> frameable p"
  by (auto simp: ReadFrame_def ReadFull_def Let_def frameable_def split: if_splits option.splits)

text \<open>A cut frame yields an error and never a shorter payload.\<close>

lemma ReadFrame_cut:
  assumes "frameable p" and "k < length (frame_bytes p)"
  shows "\<exists>e. fst (ReadFrame (take k (frame_bytes p))) = Inl e"
proof (cases "k < 4")
  case True
  then show ?thesis by (simp add: ReadFrame_def ReadFull_def frame_bytes_def)
next
  case False
  then obtain j where k: "k = 4 + j" using le_Suc_ex not_less by blast
  have "length p < 4294967296" using assms(1) by (simp add: frameable_def MaxFrameSize_def)
  note be32_put [OF this]
  moreover have "take k (frame_bytes p) = put_be32 (length p) @ take j p"
    by (simp add: frame_bytes_def k)
  moreover have "j < length p" using assms(2) k by (simp add: frame_bytes_def)
  ultimately show ?thesis by (simp add: ReadFrame_def ReadFull_def Let_def)
qed

fun read_frames :: "nat \<Rightarrow> bytes \<Rightarrow> bytes list" where
  "read_frames 0 r = []"
| "read_frames (Suc n) r =
    (case ReadFrame r of (Inl e, r) \<Rightarrow> [] | (Inr p, r) \<Rightarrow> p # read_frames n r)"

lemma read_frames_stream:
  "\<forall>p\<in>set ps. frameable p \<Longrightarrow> n = length ps \<Longrightarrow> read_frames n (concat (map frame_bytes ps) @ rest) = ps"
  by (induction ps arbitrary: n) (simp_all add: ReadFrame_frame)

section \<open>Duplicate keys\<close>

datatype token = TOpenObject | TCloseObject | TOpenArray | TCloseArray | TText bytes | TScalar | TBad

datatype scan_error = TokenError | KeyNotText | DuplicateKey bytes | StrayClose | OutOfFuel

text \<open>\<open>dec.More()\<close>: something other than a closing bracket follows.\<close>

definition More :: "token list \<Rightarrow> bool" where
  "More ts \<longleftrightarrow> ts \<noteq> [] \<and> hd ts \<noteq> TCloseObject \<and> hd ts \<noteq> TCloseArray"

fun scanJSONValue :: "nat \<Rightarrow> token list \<Rightarrow> scan_error + token list"
  and scan_members :: "nat \<Rightarrow> bytes list \<Rightarrow> token list \<Rightarrow> scan_error + token list"
  and scan_elements :: "nat \<Rightarrow> token list \<Rightarrow> scan_error + token list" where
  "scanJSONValue 0 ts = Inl OutOfFuel"
| "scanJSONValue (Suc fuel) ts =
    (case ts of
      [] \<Rightarrow> Inl TokenError
    | TBad # ts \<Rightarrow> Inl TokenError
    | TOpenObject # ts \<Rightarrow> scan_members fuel [] ts
    | TOpenArray # ts \<Rightarrow> scan_elements fuel ts
    | TCloseObject # ts \<Rightarrow> Inl StrayClose
    | TCloseArray # ts \<Rightarrow> Inl StrayClose
    | _ # ts \<Rightarrow> Inr ts)"
| "scan_members 0 seen ts = Inl OutOfFuel"
| "scan_members (Suc fuel) seen ts =
    (if More ts then
       (case ts of
         TText key # ts \<Rightarrow>
           if key \<in> set seen then Inl (DuplicateKey key)
           else (case scanJSONValue fuel ts of
             Inl e \<Rightarrow> Inl e
           | Inr ts \<Rightarrow> scan_members fuel (key # seen) ts)
       | TBad # ts \<Rightarrow> Inl TokenError
       | _ \<Rightarrow> Inl KeyNotText)
     else (case ts of TCloseObject # ts \<Rightarrow> Inr ts | _ \<Rightarrow> Inl TokenError))"
| "scan_elements 0 ts = Inl OutOfFuel"
| "scan_elements (Suc fuel) ts =
    (if More ts then
       (case scanJSONValue fuel ts of Inl e \<Rightarrow> Inl e | Inr ts \<Rightarrow> scan_elements fuel ts)
     else (case ts of TCloseArray # ts \<Rightarrow> Inr ts | _ \<Rightarrow> Inl TokenError))"

definition requireEOF :: "token list \<Rightarrow> bool" where
  "requireEOF ts \<longleftrightarrow> ts = []"

definition rejectDuplicateKeys :: "token list \<Rightarrow> bool" where
  "rejectDuplicateKeys ts \<longleftrightarrow>
    (case scanJSONValue (Suc (length ts)) ts of Inl e \<Rightarrow> False | Inr ts \<Rightarrow> requireEOF ts)"

definition DecodeStrict ::
  "(bytes \<Rightarrow> token list) \<Rightarrow> (bytes \<Rightarrow> ('a \<times> token list) option) \<Rightarrow> bytes \<Rightarrow> 'a option" where
  "DecodeStrict tokenise decode data =
    (if \<not> ValidString data then None
     else if \<not> rejectDuplicateKeys (tokenise data) then None
     else case decode data of
       None \<Rightarrow> None
     | Some (x, ts) \<Rightarrow> if requireEOF ts then Some x else None)"

section \<open>What the scan accepts\<close>

datatype json = JObject "(bytes \<times> json) list" | JArray "json list" | JText bytes | JScalar

fun tokens :: "json \<Rightarrow> token list" where
  "tokens (JObject ms) = TOpenObject # concat (map (\<lambda>(k, v). TText k # tokens v) ms) @ [TCloseObject]"
| "tokens (JArray vs) = TOpenArray # concat (map tokens vs) @ [TCloseArray]"
| "tokens (JText s) = [TText s]"
| "tokens JScalar = [TScalar]"

fun unique_keys :: "json \<Rightarrow> bool" where
  "unique_keys (JObject ms) \<longleftrightarrow> distinct (map fst ms) \<and> (\<forall>(k, v)\<in>set ms. unique_keys v)"
| "unique_keys (JArray vs) \<longleftrightarrow> (\<forall>v\<in>set vs. unique_keys v)"
| "unique_keys _ \<longleftrightarrow> True"

lemma tokens_Cons: "\<exists>t ts. tokens v = t # ts \<and> t \<noteq> TCloseObject \<and> t \<noteq> TCloseArray"
  by (cases v) auto

lemma More_tokens [simp]: "More (tokens v @ rest)"
  using tokens_Cons [of v] by (auto simp: More_def)

lemma More_simps [simp]:
  "\<not> More []" "More (TText k # ts)" "\<not> More (TCloseObject # ts)" "\<not> More (TCloseArray # ts)"
  by (simp_all add: More_def)

definition scans :: "json \<Rightarrow> bool" where
  "scans v \<longleftrightarrow> (\<forall>fuel rest. length (tokens v) \<le> fuel \<longrightarrow>
     (if unique_keys v then scanJSONValue fuel (tokens v @ rest) = Inr rest
      else \<exists>k. scanJSONValue fuel (tokens v @ rest) = Inl (DuplicateKey k)))"

lemma scan_members_tokens:
  assumes "\<forall>(k, v)\<in>set ms. scans v"
    and "length (concat (map (\<lambda>(k, v). TText k # tokens v) ms)) < fuel"
  shows "if distinct (map fst ms) \<and> set (map fst ms) \<inter> set seen = {} \<and> (\<forall>(k, v)\<in>set ms. unique_keys v)
     then scan_members fuel seen (concat (map (\<lambda>(k, v). TText k # tokens v) ms) @ TCloseObject # rest) = Inr rest
     else \<exists>k. scan_members fuel seen (concat (map (\<lambda>(k, v). TText k # tokens v) ms) @ TCloseObject # rest)
       = Inl (DuplicateKey k)"
  using assms
proof (induction ms arbitrary: fuel seen)
  case Nil
  then obtain f where "fuel = Suc f" by (cases fuel) auto
  then show ?case by simp
next
  case (Cons kv ms)
  obtain k v where kv: "kv = (k, v)" by (cases kv)
  let ?ms = "concat (map (\<lambda>(k, v). TText k # tokens v) ms)"
  from Cons.prems(2) kv obtain f where fuel: "fuel = Suc f" and f: "length (tokens v) + length ?ms < f"
    by (cases fuel) auto
  have v: "if unique_keys v then scanJSONValue f (tokens v @ ?ms @ TCloseObject # rest) = Inr (?ms @ TCloseObject # rest)
      else \<exists>k. scanJSONValue f (tokens v @ ?ms @ TCloseObject # rest) = Inl (DuplicateKey k)"
    using Cons.prems(1) kv f by (simp add: scans_def)
  have "length ?ms < f" using f by simp
  note ih = Cons.IH [OF _ this, of "k # seen"]
  show ?case
    using ih v Cons.prems(1) by (auto simp: kv fuel split: if_splits)
qed

lemma scan_elements_tokens:
  assumes "\<forall>v\<in>set vs. scans v" and "length (concat (map tokens vs)) < fuel"
  shows "if \<forall>v\<in>set vs. unique_keys v
     then scan_elements fuel (concat (map tokens vs) @ TCloseArray # rest) = Inr rest
     else \<exists>k. scan_elements fuel (concat (map tokens vs) @ TCloseArray # rest) = Inl (DuplicateKey k)"
  using assms
proof (induction vs arbitrary: fuel)
  case Nil
  then obtain f where "fuel = Suc f" by (cases fuel) auto
  then show ?case by simp
next
  case (Cons v vs)
  let ?vs = "concat (map tokens vs)"
  have "0 < length (tokens v)" using tokens_Cons [of v] by auto
  with Cons.prems(2) obtain f where fuel: "fuel = Suc f" and f: "length (tokens v) + length ?vs \<le> f"
    "length ?vs < f"
    by (cases fuel) auto
  have v: "if unique_keys v then scanJSONValue f (tokens v @ ?vs @ TCloseArray # rest) = Inr (?vs @ TCloseArray # rest)
      else \<exists>k. scanJSONValue f (tokens v @ ?vs @ TCloseArray # rest) = Inl (DuplicateKey k)"
    using Cons.prems(1) f by (simp add: scans_def)
  from Cons.IH [OF _ f(2)] v Cons.prems(1) show ?case
    by (auto simp: fuel split: if_splits)
qed

lemma scan_tokens: "scans v"
proof (induction v)
  case (JObject ms)
  have all: "\<forall>(k, v)\<in>set ms. scans v" using JObject by auto
  show ?case
    unfolding scans_def
  proof (intro allI impI)
    fix fuel rest assume le: "length (tokens (JObject ms)) \<le> fuel"
    then obtain f where fuel: "fuel = Suc f" by (cases fuel) auto
    with le have "length (concat (map (\<lambda>(k, v). TText k # tokens v) ms)) < f" by simp
    from scan_members_tokens [OF all this, of "[]" rest]
    show "if unique_keys (JObject ms) then scanJSONValue fuel (tokens (JObject ms) @ rest) = Inr rest
        else \<exists>k. scanJSONValue fuel (tokens (JObject ms) @ rest) = Inl (DuplicateKey k)"
      by (simp add: fuel)
  qed
next
  case (JArray vs)
  show ?case
    unfolding scans_def
  proof (intro allI impI)
    fix fuel rest assume le: "length (tokens (JArray vs)) \<le> fuel"
    then obtain f where fuel: "fuel = Suc f" by (cases fuel) auto
    with le have "length (concat (map tokens vs)) < f" by simp
    from scan_elements_tokens [OF _ this, of rest] JArray
    show "if unique_keys (JArray vs) then scanJSONValue fuel (tokens (JArray vs) @ rest) = Inr rest
        else \<exists>k. scanJSONValue fuel (tokens (JArray vs) @ rest) = Inl (DuplicateKey k)"
      by (simp add: fuel)
  qed
qed (auto simp: scans_def Suc_le_eq gr0_conv_Suc)

lemma rejectDuplicateKeys_tokens: "rejectDuplicateKeys (tokens v @ rest) \<longleftrightarrow> unique_keys v \<and> rest = []"
proof (cases "unique_keys v")
  case True
  with scan_tokens [of v] have "scanJSONValue (Suc (length (tokens v @ rest))) (tokens v @ rest) = Inr rest"
    unfolding scans_def by (auto simp del: scanJSONValue.simps)
  with True show ?thesis
    by (simp add: rejectDuplicateKeys_def requireEOF_def del: scanJSONValue.simps length_append)
next
  case False
  have "length (tokens v) \<le> Suc (length (tokens v @ rest))" by simp
  with False scan_tokens [of v] obtain k where
    "scanJSONValue (Suc (length (tokens v @ rest))) (tokens v @ rest) = Inl (DuplicateKey k)"
    unfolding scans_def by metis
  with False show ?thesis
    by (simp add: rejectDuplicateKeys_def del: scanJSONValue.simps length_append)
qed

end
