(* ===== verification/Runtime_Dir.thy ===== *)
theory Runtime_Dir
  imports Validation
begin

text \<open>
  Where the presenter socket lives, \<open>listenRuntime\<close> and its helpers in
  \<open>internal/presenter/server.go\<close>. Paths are byte strings, taken apart and put together as
  \<open>path/filepath\<close> does on Unix. The kernel is the record \<open>kernel\<close> of the system calls the code
  makes, acting on a state of any type \<open>'w\<close>; nobody else changes that state during the call.
\<close>

section \<open>Paths\<close>

text \<open>\<open>strings.Split\<close> and \<open>strings.Join\<close> at the separator.\<close>

fun Split :: "bytes \<Rightarrow> bytes list" where
  "Split [] = [[]]"
| "Split (c # cs) =
    (if c = CHR ''/'' then [] # Split cs
     else case Split cs of [] \<Rightarrow> [[c]] | p # ps \<Rightarrow> (c # p) # ps)"

fun path_join :: "bytes list \<Rightarrow> bytes" where
  "path_join [] = []"
| "path_join [p] = p"
| "path_join (p # q # ps) = p @ CHR ''/'' # path_join (q # ps)"

text \<open>\<open>filepath.Clean\<close>, \<open>filepath.Join\<close> of two elements, \<open>filepath.Abs\<close>\<close>

definition clean_part :: "bool \<Rightarrow> bytes \<Rightarrow> bytes list \<Rightarrow> bytes list" where
  "clean_part rooted part stack =
    (if part = [] \<or> part = ''.'' then stack
     else if part = ''..'' then
       (if stack \<noteq> [] \<and> last stack \<noteq> ''..'' then butlast stack
        else if rooted then stack else stack @ [part])
     else stack @ [part])"

definition Clean :: "bytes \<Rightarrow> bytes" where
  "Clean path =
    (let rooted = HasPrefix path ''/'';
         body = path_join (fold (clean_part rooted) (Split path) [])
     in if rooted then ''/'' @ body else if body = [] then ''.'' else body)"

definition Join :: "bytes \<Rightarrow> bytes \<Rightarrow> bytes" where
  "Join a b = (if a = [] \<and> b = [] then [] else Clean (path_join (filter (\<lambda>p. p \<noteq> []) [a, b])))"

definition Abs_path :: "bytes option \<Rightarrow> bytes \<Rightarrow> bytes option" where
  "Abs_path wd path =
    (if HasPrefix path ''/'' then Some (Clean path) else map_option (\<lambda>d. Join d path) wd)"

definition TrimPrefix :: "bytes \<Rightarrow> bytes \<Rightarrow> bytes" where
  "TrimPrefix s p = (if HasPrefix s p then drop (length p) s else s)"

section \<open>The kernel\<close>

datatype file_kind = Directory | Symlink | Socket | OtherFile

record file_info =
  fi_kind :: file_kind
  fi_perm :: nat
  fi_uid :: uint32

datatype errno = NotExist | Exist | OtherErrno nat

record 'w kernel =
  sys_getwd :: "'w \<Rightarrow> bytes option"
  sys_lstat :: "bytes \<Rightarrow> 'w \<Rightarrow> errno + file_info"
  sys_mkdir :: "bytes \<Rightarrow> nat \<Rightarrow> 'w \<Rightarrow> errno goerror \<times> 'w"
  sys_dial :: "bytes \<Rightarrow> 'w \<Rightarrow> bool"
  sys_remove :: "bytes \<Rightarrow> 'w \<Rightarrow> errno goerror \<times> 'w"
  sys_listen :: "bytes \<Rightarrow> 'w \<Rightarrow> errno goerror \<times> 'w"
  sys_chmod :: "bytes \<Rightarrow> nat \<Rightarrow> 'w \<Rightarrow> errno goerror \<times> 'w"
  sys_unlisten :: "bytes \<Rightarrow> 'w \<Rightarrow> 'w"

datatype dir_error =
    EmptyRuntimeDir | NoWorkingDirectory | SymlinkComponent bytes | Sys errno
  | UnsafeDirectory bytes | UnsafeSocket bytes | UnsafeExisting bytes | AlreadyActive

section \<open>The checks\<close>

definition socketName :: bytes where "socketName = ''presenter.v1.sock''"
definition runtimeSubdir :: bytes where "runtimeSubdir = ''sysc-tray''"

text \<open>0700 and 0600\<close>

definition dir_mode :: nat where "dir_mode = 448"
definition socket_mode :: nat where "socket_mode = 384"

definition validateDirectory :: "'w kernel \<Rightarrow> bytes \<Rightarrow> uint32 \<Rightarrow> nat \<Rightarrow> 'w \<Rightarrow> dir_error goerror" where
  "validateDirectory k path uid mode w =
    (case sys_lstat k path w of
      Inl e \<Rightarrow> Some (Sys e)
    | Inr info \<Rightarrow>
        if fi_kind info = Symlink \<or> fi_kind info \<noteq> Directory \<or> fi_perm info \<noteq> mode \<or> fi_uid info \<noteq> uid
        then Some (UnsafeDirectory path) else None)"

definition validateSocket :: "'w kernel \<Rightarrow> bytes \<Rightarrow> uint32 \<Rightarrow> 'w \<Rightarrow> dir_error goerror" where
  "validateSocket k path uid w =
    (case sys_lstat k path w of
      Inl e \<Rightarrow> Some (Sys e)
    | Inr info \<Rightarrow>
        if fi_kind info \<noteq> Socket \<or> fi_kind info = Symlink \<or> fi_perm info \<noteq> socket_mode \<or> fi_uid info \<noteq> uid
        then Some (UnsafeSocket path) else None)"

definition removeStaleSocket ::
  "'w kernel \<Rightarrow> bytes \<Rightarrow> uint32 \<Rightarrow> 'w \<Rightarrow> dir_error goerror \<times> 'w" where
  "removeStaleSocket k path uid w =
    (case sys_lstat k path w of
      Inl NotExist \<Rightarrow> (None, w)
    | Inl e \<Rightarrow> (Some (Sys e), w)
    | Inr info \<Rightarrow>
        if fi_kind info \<noteq> Socket \<or> fi_kind info = Symlink \<or> fi_perm info \<noteq> socket_mode \<or> fi_uid info \<noteq> uid
        then (Some (UnsafeExisting path), w)
        else if sys_dial k path w then (Some AlreadyActive, w)
        else case sys_remove k path w of (err, w) \<Rightarrow> (map_option Sys err, w))"

fun reject_parts :: "'w kernel \<Rightarrow> 'w \<Rightarrow> bytes \<Rightarrow> bytes list \<Rightarrow> dir_error goerror" where
  "reject_parts k w current [] = None"
| "reject_parts k w current (part # parts) =
    (if part = [] \<or> part = ''.'' then reject_parts k w current parts
     else let current = Join current part in
       case sys_lstat k current w of
         Inl e \<Rightarrow> Some (Sys e)
       | Inr info \<Rightarrow>
           if fi_kind info = Symlink then Some (SymlinkComponent current)
           else reject_parts k w current parts)"

definition rejectSymlinkComponents :: "'w kernel \<Rightarrow> bytes \<Rightarrow> 'w \<Rightarrow> dir_error goerror" where
  "rejectSymlinkComponents k path w =
    (let current = ''/''; relative = TrimPrefix (Clean path) current
     in reject_parts k w current (Split relative))"

section \<open>Listening\<close>

definition secure_socket ::
  "'w kernel \<Rightarrow> bytes \<Rightarrow> uint32 \<Rightarrow> 'w \<Rightarrow> (dir_error + bytes) \<times> 'w" where
  "secure_socket k path uid w =
    (let give_up = (\<lambda>e w. (Inl e, snd (sys_remove k path (sys_unlisten k path w)))) in
     case sys_listen k path w of
       (Some e, w) \<Rightarrow> (Inl (Sys e), w)
     | (None, w) \<Rightarrow>
         (case sys_chmod k path socket_mode w of
           (Some e, w) \<Rightarrow> give_up (Sys e) w
         | (None, w) \<Rightarrow>
             (case validateSocket k path uid w of
               Some e \<Rightarrow> give_up e w
             | None \<Rightarrow> (Inr path, w))))"

definition listenRuntime ::
  "'w kernel \<Rightarrow> bytes \<Rightarrow> uint32 \<Rightarrow> 'w \<Rightarrow> (dir_error + bytes) \<times> 'w" where
  "listenRuntime k runtimeDir uid w =
    (if runtimeDir = [] then (Inl EmptyRuntimeDir, w)
     else case Abs_path (sys_getwd k w) runtimeDir of
       None \<Rightarrow> (Inl NoWorkingDirectory, w)
     | Some root \<Rightarrow>
     (case check_then (rejectSymlinkComponents k root w) (validateDirectory k root uid dir_mode w) of
       Some e \<Rightarrow> (Inl e, w)
     | None \<Rightarrow>
         let dir = Join root runtimeSubdir in
         case sys_mkdir k dir dir_mode w of
           (err, w) \<Rightarrow>
             if err \<noteq> None \<and> the err \<noteq> Exist then (Inl (Sys (the err)), w)
             else case validateDirectory k dir uid dir_mode w of
               Some e \<Rightarrow> (Inl e, w)
             | None \<Rightarrow>
                 let path = Join dir socketName in
                 case removeStaleSocket k path uid w of
                   (Some e, w) \<Rightarrow> (Inl e, w)
                 | (None, w) \<Rightarrow> secure_socket k path uid w))"

section \<open>Clean paths\<close>

definition plain_part :: "bytes \<Rightarrow> bool" where
  "plain_part p \<longleftrightarrow> p \<noteq> [] \<and> p \<noteq> ''.'' \<and> p \<noteq> ''..'' \<and> CHR ''/'' \<notin> set p"

text \<open>An absolute path with these components, in its clean form.\<close>

definition place :: "bytes list \<Rightarrow> bytes" where
  "place ps = ''/'' @ path_join ps"

lemma Split_not_Nil [simp]: "Split s \<noteq> []"
  by (cases s) (auto split: list.split)

lemma Split_parts: "p \<in> set (Split s) \<Longrightarrow> CHR ''/'' \<notin> set p"
proof (induction s arbitrary: p)
  case Nil
  then show ?case by simp
next
  case (Cons c cs)
  obtain q qs where q: "Split cs = q # qs" by (cases "Split cs") auto
  with Cons show ?case by (auto split: if_splits)
qed

lemma Split_append: "CHR ''/'' \<notin> set p \<Longrightarrow> Split (p @ CHR ''/'' # s) = p # Split s"
  by (induction p) auto

lemma Split_plain: "CHR ''/'' \<notin> set p \<Longrightarrow> Split p = [p]"
  by (induction p) auto

lemma Split_path_join:
  "ps \<noteq> [] \<Longrightarrow> \<forall>p\<in>set ps. CHR ''/'' \<notin> set p \<Longrightarrow> Split (path_join ps) = ps"
  by (induction ps rule: path_join.induct) (auto simp: Split_plain Split_append)

lemma HasPrefix_root [simp]: "HasPrefix (CHR ''/'' # s) ''/''"
  by (simp add: HasPrefix_def)

lemma fold_clean_plain:
  "\<forall>p\<in>set ps. plain_part p \<Longrightarrow> fold (clean_part rooted) ps st = st @ ps"
  by (induction ps arbitrary: st) (auto simp: clean_part_def plain_part_def)

lemma clean_part_plain:
  "\<forall>q\<in>set st. plain_part q \<Longrightarrow> CHR ''/'' \<notin> set p \<Longrightarrow> \<forall>q\<in>set (clean_part True p st). plain_part q"
  by (auto simp: clean_part_def plain_part_def dest: in_set_butlastD last_in_set)

lemma fold_clean_parts:
  "\<forall>q\<in>set st. plain_part q \<Longrightarrow> \<forall>p\<in>set ps. CHR ''/'' \<notin> set p \<Longrightarrow>
    \<forall>q\<in>set (fold (clean_part True) ps st). plain_part q"
proof (induction ps arbitrary: st)
  case Nil
  then show ?case by simp
next
  case (Cons p ps)
  from Cons.prems clean_part_plain [of st p]
  have "\<forall>q\<in>set (clean_part True p st). plain_part q" by simp
  from Cons.IH [OF this] Cons.prems(2) show ?case by simp
qed

text \<open>\<open>Clean\<close> makes an absolute path one of plain components, and keeps one that is.\<close>

lemma Clean_rooted:
  assumes "HasPrefix path ''/''"
  shows "\<exists>ps. Clean path = place ps \<and> (\<forall>p\<in>set ps. plain_part p)"
proof -
  have "\<forall>q\<in>set (fold (clean_part True) (Split path) []). plain_part q"
    by (rule fold_clean_parts) (auto dest: Split_parts)
  with assms show ?thesis by (auto simp: Clean_def place_def Let_def)
qed

lemma Clean_place: "\<forall>p\<in>set ps. plain_part p \<Longrightarrow> Clean (place ps) = place ps"
proof -
  assume ps: "\<forall>p\<in>set ps. plain_part p"
  have "fold (clean_part True) (Split (place ps)) [] = ps"
  proof (cases "ps = []")
    case True
    then show ?thesis by (simp add: place_def clean_part_def)
  next
    case False
    with ps have "Split (path_join ps) = ps"
      by (intro Split_path_join) (auto simp: plain_part_def)
    then show ?thesis using fold_clean_plain [OF ps] by (simp add: place_def clean_part_def)
  qed
  then show ?thesis by (simp add: Clean_def place_def Let_def)
qed

lemma path_join_snoc: "ps \<noteq> [] \<Longrightarrow> path_join (ps @ [q]) = path_join ps @ CHR ''/'' # q"
  by (induction ps rule: path_join.induct) auto

lemma Join_place:
  assumes "\<forall>p\<in>set ps. plain_part p" and "plain_part q"
  shows "Join (place ps) q = place (ps @ [q])"
proof (cases "ps = []")
  case True
  with assms(2) have "Split q = [q]" "q \<noteq> []" by (simp_all add: plain_part_def Split_plain)
  with True assms(2) show ?thesis
    by (simp add: Join_def place_def Clean_def Let_def clean_part_def plain_part_def)
next
  case False
  have "q \<noteq> []" using assms(2) by (simp add: plain_part_def)
  moreover have "path_join [place ps, q] = place (ps @ [q])"
    using path_join_snoc [OF False] by (simp add: place_def)
  ultimately show ?thesis
    using assms by (simp add: Join_def Clean_place) (simp add: place_def)
qed

lemma relative_place:
  "\<forall>p\<in>set ps. plain_part p \<Longrightarrow> Split (TrimPrefix (Clean (place ps)) ''/'') = (if ps = [] then [[]] else ps)"
  using Split_path_join [of ps]
  by (simp add: Clean_place) (auto simp: TrimPrefix_def place_def HasPrefix_def plain_part_def)

section \<open>What the checks establish\<close>

lemma reject_parts_None:
  assumes "\<forall>p\<in>set ps. plain_part p" and "\<forall>p\<in>set qs. plain_part p"
  shows "reject_parts k w (place qs) ps = None \<longleftrightarrow>
    (\<forall>i<length ps. \<exists>info. sys_lstat k (place (qs @ take (Suc i) ps)) w = Inr info \<and> fi_kind info \<noteq> Symlink)"
  using assms
proof (induction ps arbitrary: qs)
  case Nil
  then show ?case by simp
next
  case (Cons p ps)
  then have p: "plain_part p" "p \<noteq> [] \<and> p \<noteq> ''.''" by (simp_all add: plain_part_def)
  have step: "Join (place qs) p = place (qs @ [p])"
    using Cons.prems p by (intro Join_place) auto
  from Cons.IH [of "qs @ [p]"] Cons.prems p
  have ih: "reject_parts k w (place (qs @ [p])) ps = None \<longleftrightarrow>
    (\<forall>i<length ps. \<exists>info. sys_lstat k (place (qs @ take (Suc (Suc i)) (p # ps))) w = Inr info
      \<and> fi_kind info \<noteq> Symlink)" by simp
  show ?case
    unfolding All_less_Suc2 length_Cons
    using p(2) ih by (auto simp: step Let_def split: sum.split)
qed

text \<open>What a private entry looks like, and a path that has no symbolic link above it.\<close>

definition private_dir :: "uint32 \<Rightarrow> file_info" where
  "private_dir uid = \<lparr>fi_kind = Directory, fi_perm = dir_mode, fi_uid = uid\<rparr>"

definition private_socket :: "uint32 \<Rightarrow> file_info" where
  "private_socket uid = \<lparr>fi_kind = Socket, fi_perm = socket_mode, fi_uid = uid\<rparr>"

definition no_links :: "'w kernel \<Rightarrow> 'w \<Rightarrow> bytes list \<Rightarrow> bool" where
  "no_links k w ps \<longleftrightarrow> (\<forall>i<length ps. \<exists>info. sys_lstat k (place (take (Suc i) ps)) w = Inr info
     \<and> fi_kind info \<noteq> Symlink)"

lemma rejectSymlinkComponents_None:
  "\<forall>p\<in>set ps. plain_part p \<Longrightarrow> rejectSymlinkComponents k (place ps) w = None \<longleftrightarrow> no_links k w ps"
  using reject_parts_None [of ps "[]" k w]
  by (simp add: rejectSymlinkComponents_def relative_place no_links_def)
    (simp add: place_def)

lemma validateDirectory_None:
  "validateDirectory k path uid dir_mode w = None \<longleftrightarrow> sys_lstat k path w = Inr (private_dir uid)"
  by (auto simp: validateDirectory_def private_dir_def split: sum.splits)

lemma validateSocket_None:
  "validateSocket k path uid w = None \<longleftrightarrow> sys_lstat k path w = Inr (private_socket uid)"
  by (auto simp: validateSocket_def private_socket_def split: sum.splits)

text \<open>Only a socket of one's own that nobody answers on is removed.\<close>

lemma removeStaleSocket_cases:
  "removeStaleSocket k path uid w =
    (if sys_lstat k path w = Inl NotExist then (None, w)
     else if sys_lstat k path w = Inr (private_socket uid) \<and> \<not> sys_dial k path w then
       apfst (map_option Sys) (sys_remove k path w)
     else (Some (case sys_lstat k path w of
         Inl e \<Rightarrow> Sys e
       | Inr info \<Rightarrow> if info = private_socket uid then AlreadyActive else UnsafeExisting path), w))"
  by (auto simp: removeStaleSocket_def private_socket_def apfst_def map_prod_def
    split: sum.splits errno.splits prod.splits)

lemma secure_socket_Inr:
  "secure_socket k path uid w = (Inr q, w') \<Longrightarrow> q = path \<and> sys_lstat k path w' = Inr (private_socket uid)"
  by (auto simp: secure_socket_def Let_def validateSocket_None [symmetric]
    split: prod.splits option.splits)

definition absolute :: "bytes option \<Rightarrow> bool" where
  "absolute wd \<longleftrightarrow> (\<forall>d. wd = Some d \<longrightarrow> HasPrefix d ''/'')"

lemma path_join_prefix: "HasPrefix d ''/'' \<Longrightarrow> HasPrefix (path_join (filter (\<lambda>p. p \<noteq> []) [d, q])) ''/''"
  by (cases d) (auto simp: HasPrefix_def)

lemma Abs_path_place:
  assumes "Abs_path wd path = Some root" and "absolute wd"
  shows "\<exists>ps. root = place ps \<and> (\<forall>p\<in>set ps. plain_part p)"
proof (cases "HasPrefix path ''/''")
  case True
  with assms(1) Clean_rooted [OF True] show ?thesis by (auto simp: Abs_path_def)
next
  case False
  with assms obtain d where d: "HasPrefix d ''/''" "root = Join d path"
    by (auto simp: Abs_path_def absolute_def)
  then have "d \<noteq> []" by (auto simp: HasPrefix_def)
  then have "root = Clean (path_join (filter (\<lambda>p. p \<noteq> []) [d, path]))"
    using d(2) unfolding Join_def by simp
  with Clean_rooted [OF path_join_prefix [OF d(1)]] show ?thesis by auto
qed

lemma own_names: "plain_part runtimeSubdir" "plain_part socketName"
  by (simp_all add: plain_part_def runtimeSubdir_def socketName_def)

lemma Join_names:
  "\<forall>p\<in>set ps. plain_part p \<Longrightarrow> Join (place ps) runtimeSubdir = place (ps @ [runtimeSubdir])"
  "\<forall>p\<in>set ps. plain_part p \<Longrightarrow>
    Join (place (ps @ [runtimeSubdir])) socketName = place (ps @ [runtimeSubdir, socketName])"
  using own_names Join_place [of ps runtimeSubdir] Join_place [of "ps @ [runtimeSubdir]" socketName]
  by simp_all

section \<open>A kernel that does what it is asked\<close>

text \<open>
  The system calls for a process with this user and no restrictive umask: what they do to the
  entry named, and that they leave the others alone.
\<close>

definition others_same :: "'w kernel \<Rightarrow> bytes \<Rightarrow> 'w \<Rightarrow> 'w \<Rightarrow> bool" where
  "others_same k p w w' \<longleftrightarrow> (\<forall>q. q \<noteq> p \<longrightarrow> sys_lstat k q w' = sys_lstat k q w \<and> sys_dial k q w' = sys_dial k q w)"

definition mkdir_works :: "'w kernel \<Rightarrow> uint32 \<Rightarrow> bool" where
  "mkdir_works k uid \<longleftrightarrow> (\<forall>p m w. others_same k p w (snd (sys_mkdir k p m w)) \<and>
     (if sys_lstat k p w = Inl NotExist
      then fst (sys_mkdir k p m w) = None \<and> sys_lstat k p (snd (sys_mkdir k p m w)) =
        Inr \<lparr>fi_kind = Directory, fi_perm = m, fi_uid = uid\<rparr>
      else fst (sys_mkdir k p m w) = Some Exist
        \<and> sys_lstat k p (snd (sys_mkdir k p m w)) = sys_lstat k p w))"

definition remove_works :: "'w kernel \<Rightarrow> uint32 \<Rightarrow> bool" where
  "remove_works k uid \<longleftrightarrow> (\<forall>p w. sys_lstat k p w = Inr (private_socket uid) \<longrightarrow>
     fst (sys_remove k p w) = None \<and> sys_lstat k p (snd (sys_remove k p w)) = Inl NotExist)"

definition listen_works :: "'w kernel \<Rightarrow> uint32 \<Rightarrow> bool" where
  "listen_works k uid \<longleftrightarrow> (\<forall>p w. sys_lstat k p w = Inl NotExist \<longrightarrow>
     fst (sys_listen k p w) = None \<and> (\<exists>m. sys_lstat k p (snd (sys_listen k p w)) =
       Inr \<lparr>fi_kind = Socket, fi_perm = m, fi_uid = uid\<rparr>))"

definition chmod_works :: "'w kernel \<Rightarrow> bool" where
  "chmod_works k \<longleftrightarrow> (\<forall>p m w i. sys_lstat k p w = Inr i \<longrightarrow>
     fst (sys_chmod k p m w) = None \<and> sys_lstat k p (snd (sys_chmod k p m w)) = Inr (i\<lparr>fi_perm := m\<rparr>))"

definition obliging :: "'w kernel \<Rightarrow> uint32 \<Rightarrow> bool" where
  "obliging k uid \<longleftrightarrow> mkdir_works k uid \<and> remove_works k uid \<and> listen_works k uid \<and> chmod_works k"

lemma obliging_mkdir:
  assumes "mkdir_works k uid" and "sys_lstat k p w \<in> {Inl NotExist, Inr (private_dir uid)}"
  shows "fst (sys_mkdir k p dir_mode w) \<in> {None, Some Exist}"
    and "sys_lstat k p (snd (sys_mkdir k p dir_mode w)) = Inr (private_dir uid)"
    and "q \<noteq> p \<Longrightarrow> sys_lstat k q (snd (sys_mkdir k p dir_mode w)) = sys_lstat k q w"
    and "q \<noteq> p \<Longrightarrow> sys_dial k q (snd (sys_mkdir k p dir_mode w)) = sys_dial k q w"
proof -
  note works = spec [OF spec [OF spec [OF assms(1) [unfolded mkdir_works_def], of p], of dir_mode], of w]
  from conjunct2 [OF works] assms(2) show "fst (sys_mkdir k p dir_mode w) \<in> {None, Some Exist}"
    and "sys_lstat k p (snd (sys_mkdir k p dir_mode w)) = Inr (private_dir uid)"
    by (auto simp: private_dir_def split: if_splits)
  from conjunct1 [OF works] show "q \<noteq> p \<Longrightarrow> sys_lstat k q (snd (sys_mkdir k p dir_mode w)) = sys_lstat k q w"
    and "q \<noteq> p \<Longrightarrow> sys_dial k q (snd (sys_mkdir k p dir_mode w)) = sys_dial k q w"
    by (simp_all add: others_same_def)
qed

lemma obliging_stale:
  assumes "remove_works k uid" and "sys_lstat k p w \<in> {Inl NotExist, Inr (private_socket uid)}"
    and "\<not> sys_dial k p w"
  shows "\<exists>w'. removeStaleSocket k p uid w = (None, w') \<and> sys_lstat k p w' = Inl NotExist"
proof (cases "sys_lstat k p w = Inl NotExist")
  case True
  then show ?thesis by (simp add: removeStaleSocket_cases)
next
  case False
  with assms(2) have priv: "sys_lstat k p w = Inr (private_socket uid)" by blast
  with assms(1) have "fst (sys_remove k p w) = None \<and> sys_lstat k p (snd (sys_remove k p w)) = Inl NotExist"
    unfolding remove_works_def by blast
  with priv assms(3) show ?thesis
    by (cases "sys_remove k p w") (simp add: removeStaleSocket_cases)
qed

lemma obliging_secure:
  assumes "listen_works k uid" and "chmod_works k" and "sys_lstat k p w = Inl NotExist"
  shows "fst (secure_socket k p uid w) = Inr p"
proof -
  obtain e1 w1 where w1: "sys_listen k p w = (e1, w1)" by fastforce
  from assms(1,3) have "e1 = None \<and> (\<exists>m. sys_lstat k p w1 = Inr \<lparr>fi_kind = Socket, fi_perm = m, fi_uid = uid\<rparr>)"
    unfolding listen_works_def using w1 by (metis fst_conv snd_conv)
  then obtain m where l: "e1 = None" "sys_lstat k p w1 = Inr \<lparr>fi_kind = Socket, fi_perm = m, fi_uid = uid\<rparr>"
    by blast
  obtain e2 w2 where w2: "sys_chmod k p socket_mode w1 = (e2, w2)" by fastforce
  from assms(2) l(2) have "e2 = None \<and> sys_lstat k p w2 = Inr (\<lparr>fi_kind = Socket, fi_perm = m, fi_uid = uid\<rparr>\<lparr>fi_perm := socket_mode\<rparr>)"
    unfolding chmod_works_def using w2 by (metis fst_conv snd_conv)
  then have "e2 = None" "validateSocket k p uid w2 = None"
    by (simp_all add: validateSocket_None private_socket_def)
  with l(1) w1 w2 show ?thesis by (simp add: secure_socket_def)
qed

section \<open>A private socket\<close>

text \<open>
  C35: the presenter socket is private. When \<open>listenRuntime\<close> succeeds, every component of the
  runtime directory was there and no symbolic link, the directory itself and \<open>sysc-tray\<close> below it
  were directories of the service user with mode 0700, and the socket is the service user's with
  mode 0600, as the kernel reports them.
\<close>

theorem listenRuntime_private:
  assumes "listenRuntime k dir uid w = (Inr path, w')" and "absolute (sys_getwd k w)"
  shows "\<exists>ps w1. path = place (ps @ [runtimeSubdir, socketName]) \<and> no_links k w ps
    \<and> sys_lstat k (place ps) w = Inr (private_dir uid)
    \<and> w1 = snd (sys_mkdir k (place (ps @ [runtimeSubdir])) dir_mode w)
    \<and> sys_lstat k (place (ps @ [runtimeSubdir])) w1 = Inr (private_dir uid)
    \<and> sys_lstat k path w' = Inr (private_socket uid)"
proof -
  from assms(1) obtain root where root: "Abs_path (sys_getwd k w) dir = Some root"
    by (auto simp: listenRuntime_def split: if_splits option.splits)
  from Abs_path_place [OF this assms(2)] obtain ps where
    ps: "root = place ps" "\<forall>p\<in>set ps. plain_part p" by blast
  note names = Join_names [OF ps(2)]
  obtain err w1 where mk: "sys_mkdir k (place (ps @ [runtimeSubdir])) dir_mode w = (err, w1)"
    by fastforce
  from assms(1) root ps(1) names mk have
    "rejectSymlinkComponents k (place ps) w = None" "validateDirectory k (place ps) uid dir_mode w = None"
    "validateDirectory k (place (ps @ [runtimeSubdir])) uid dir_mode w1 = None"
    "\<exists>w2. secure_socket k (place (ps @ [runtimeSubdir, socketName])) uid w2 = (Inr path, w')"
    by (auto simp: listenRuntime_def check_then_None Let_def split: if_splits option.splits prod.splits)
  then show ?thesis
    unfolding rejectSymlinkComponents_None [OF ps(2)] validateDirectory_None
    by (intro exI [of _ ps] exI [of _ w1]) (auto simp: mk dest!: secure_socket_Inr)
qed

text \<open>
  A file system for the examples: a table of entries, whether a process listens on a socket, and
  system calls that do what they are asked where POSIX lets them.
\<close>

record toy_fs =
  toy_files :: "(bytes, file_info) gomap"
  toy_live :: "bytes list"

definition toy_kernel :: "uint32 \<Rightarrow> toy_fs kernel" where
  "toy_kernel uid =
    \<lparr>sys_getwd = (\<lambda>w. Some ''/''),
     sys_lstat = (\<lambda>p w. case gm_get (toy_files w) p of None \<Rightarrow> Inl NotExist | Some i \<Rightarrow> Inr i),
     sys_mkdir = (\<lambda>p m w. if gm_get (toy_files w) p \<noteq> None then (Some Exist, w)
       else (None, w\<lparr>toy_files := gm_set p \<lparr>fi_kind = Directory, fi_perm = m, fi_uid = uid\<rparr> (toy_files w)\<rparr>)),
     sys_dial = (\<lambda>p w. p \<in> set (toy_live w)),
     sys_remove = (\<lambda>p w. if gm_get (toy_files w) p = None then (Some NotExist, w)
       else (None, w\<lparr>toy_files := gm_del p (toy_files w)\<rparr>)),
     sys_listen = (\<lambda>p w. if gm_get (toy_files w) p \<noteq> None then (Some (OtherErrno 98), w)
       else (None, w\<lparr>toy_files := gm_set p \<lparr>fi_kind = Socket, fi_perm = 493, fi_uid = uid\<rparr> (toy_files w),
         toy_live := p # toy_live w\<rparr>)),
     sys_chmod = (\<lambda>p m w. case gm_get (toy_files w) p of None \<Rightarrow> (Some NotExist, w)
       | Some i \<Rightarrow> (None, w\<lparr>toy_files := gm_set p (i\<lparr>fi_perm := m\<rparr>) (toy_files w)\<rparr>)),
     sys_unlisten = (\<lambda>p w. w\<lparr>toy_live := filter (\<lambda>q. q \<noteq> p) (toy_live w)\<rparr>)\<rparr>"

definition toy_world :: toy_fs where
  "toy_world = \<lparr>toy_files = [(''/r'', private_dir 7), (''/r/sysc-tray'', private_dir 7),
     (''/r/sysc-tray/presenter.v1.sock'', private_socket 7)], toy_live = []\<rparr>"

lemma toy_listens:
  "fst (listenRuntime (toy_kernel 7) ''/r'' 7 toy_world) = Inr ''/r/sysc-tray/presenter.v1.sock''"
  by code_simp

theorem listenRuntime_private_witness:
  "\<exists>ps. ''/r/sysc-tray/presenter.v1.sock'' = place (ps @ [runtimeSubdir, socketName])
    \<and> no_links (toy_kernel 7) toy_world ps"
proof -
  obtain w' where "listenRuntime (toy_kernel 7) ''/r'' 7 toy_world = (Inr ''/r/sysc-tray/presenter.v1.sock'', w')"
    using toy_listens by (metis prod.collapse)
  moreover have "absolute (sys_getwd (toy_kernel 7) toy_world)"
    by (simp add: absolute_def toy_kernel_def)
  ultimately show ?thesis using listenRuntime_private by fastforce
qed


lemma toy_obliging: "obliging (toy_kernel uid) uid"
proof -
  have "mkdir_works (toy_kernel uid) uid"
    by (auto simp: mkdir_works_def others_same_def toy_kernel_def go_simps split: option.splits)
  moreover have "remove_works (toy_kernel uid) uid"
    by (auto simp: remove_works_def toy_kernel_def private_socket_def go_simps split: option.splits)
  moreover have "listen_works (toy_kernel uid) uid"
    by (auto simp: listen_works_def toy_kernel_def go_simps split: option.splits)
  moreover have "chmod_works (toy_kernel uid)"
    by (auto simp: chmod_works_def toy_kernel_def go_simps split: option.splits)
  ultimately show ?thesis by (simp add: obliging_def)
qed


end
