(* ===== verification/Bus_Rules.thy ===== *)
theory Bus_Rules
  imports Prelude
begin

text \<open>
  What a component holds on the connection to the session bus: match rules and channels for the
  signals they select. Several components share one connection; the bus keeps a rule as often as it
  was added, and \<open>RemoveMatch\<close> takes one away, so the rules are a multiset.
\<close>

section \<open>Rules\<close>

record match_rule =
  mr_sender :: bytes
  mr_path :: "bytes option"
  mr_interface :: "bytes option"
  mr_member :: "bytes option"
  mr_arg0 :: "bytes option"

text \<open>The bus connection: its match rules, and the numbers of those whose channels receive its signals.\<close>

record wire =
  wr_rules :: "match_rule multiset"
  wr_channels :: "nat set"

text \<open>\<open>AddMatchSignal\<close> in turn, until one is refused. True is an error.\<close>

fun add_matches :: "(match_rule \<Rightarrow> bool) \<Rightarrow> match_rule list \<Rightarrow> wire \<Rightarrow> bool \<times> wire" where
  "add_matches granted [] b = (False, b)"
| "add_matches granted (r # rs) b =
    (if granted r then add_matches granted rs (b\<lparr>wr_rules := add_mset r (wr_rules b)\<rparr>) else (True, b))"

fun removeMatches :: "match_rule list \<Rightarrow> wire \<Rightarrow> wire" where
  "removeMatches [] b = b"
| "removeMatches (r # rs) b = removeMatches rs (b\<lparr>wr_rules := wr_rules b - {#r#}\<rparr>)"

text \<open>The goroutine that takes signals from a channel, and the caller of a \<open>Close\<close>.\<close>

datatype pump_state = NoPump | Pumping | PumpEnded
datatype closer = NotClosed | JoinLoop | JoinPump | Cleaning | ClosedEarly | ClosedDone

section \<open>What adding and removing do\<close>

lemma add_matches_granted:
  "add_matches granted rules b = (False, b') \<longleftrightarrow>
    (\<forall>r\<in>set rules. granted r) \<and> b' = b\<lparr>wr_rules := wr_rules b + mset rules\<rparr>"
  by (induction rules arbitrary: b) auto

lemma add_matches_refused:
  "add_matches granted rules b = (True, b') \<Longrightarrow>
    \<exists>rs r rs'. rules = rs @ r # rs' \<and> (\<forall>q\<in>set rs. granted q) \<and> \<not> granted r
      \<and> b' = b\<lparr>wr_rules := wr_rules b + mset rs\<rparr>"
proof (induction rules arbitrary: b)
  case Nil
  then show ?case by simp
next
  case (Cons q qs)
  show ?case
  proof (cases "granted q")
    case False
    with Cons.prems show ?thesis by (intro exI [of _ "[]"] exI [of _ q] exI [of _ qs]) simp
  next
    case True
    with Cons.prems have "add_matches granted qs (b\<lparr>wr_rules := add_mset q (wr_rules b)\<rparr>) = (True, b')"
      by simp
    from Cons.IH [OF this] obtain rs r rs' where
      r: "qs = rs @ r # rs'" "\<forall>q\<in>set rs. granted q" "\<not> granted r"
      "b' = b\<lparr>wr_rules := wr_rules b + mset (q # rs)\<rparr>" by auto
    with True show ?thesis by (intro exI [of _ "q # rs"] exI [of _ r] exI [of _ rs']) simp
  qed
qed

lemma removeMatches_eq: "removeMatches rules b = b\<lparr>wr_rules := wr_rules b - mset rules\<rparr>"
  by (induction rules arbitrary: b) (simp_all add: diff_diff_add_mset [symmetric])

end
