(* ===== verification/Proxy_Life.thy ===== *)
theory Proxy_Life
  imports App Limiter Bus_Rules
begin

text \<open>
  The life of a reader, \<open>Start\<close>, \<open>Close\<close>, \<open>pump\<close>, \<open>loop\<close> and \<open>await\<close> of
  \<open>internal/item/proxy.go\<close> and \<open>internal/menu/proxy.go\<close>, which share them. The match rules of the bus
  connection are a multiset, because the bus keeps a rule as often as it was added and \<open>RemoveMatch\<close>
  takes one away. \<open>pump\<close>, \<open>loop\<close> and the caller of \<open>Close\<close> are goroutines; \<open>subscriber_step\<close> lets
  any of them take its next step.
\<close>

section \<open>Match rules\<close>

definition owner_rule :: "bytes \<Rightarrow> match_rule" where
  "owner_rule name =
    \<lparr>mr_sender = ''org.freedesktop.DBus'', mr_path = None, mr_interface = Some ''org.freedesktop.DBus'',
     mr_member = Some ''NameOwnerChanged'', mr_arg0 = Some name\<rparr>"

definition item_matches :: "item_key \<Rightarrow> match_rule list" where
  "item_matches key =
    [\<lparr>mr_sender = ik_Owner key, mr_path = Some (ik_ObjectPath key), mr_interface = None,
      mr_member = None, mr_arg0 = None\<rparr>,
     owner_rule (ik_Owner key)]"

definition menu_matches :: "item_key \<Rightarrow> bytes \<Rightarrow> match_rule list" where
  "menu_matches key path =
    [\<lparr>mr_sender = ik_Owner key, mr_path = Some path, mr_interface = Some Interface,
      mr_member = None, mr_arg0 = None\<rparr>,
     owner_rule (ik_Owner key)]"

section \<open>A reader\<close>

datatype loop_state = NoLoop | Waiting_wake | Awaiting | Refreshing | LoopEnded

text \<open>
  \<open>rd_dirty\<close> and \<open>rd_published\<close> are history: whether a change was reported since the last read began,
  and how many results have been handed to \<open>publish\<close>.
\<close>

record subscriber =
  rd_started :: bool
  rd_cancelled :: bool
  rd_stop :: bool
  rd_wake :: bool
  rd_pump :: pump_state
  rd_loop :: loop_state
  rd_closer :: closer
  rd_dirty :: bool
  rd_published :: nat

definition new_subscriber :: subscriber where
  "new_subscriber = \<lparr>rd_started = False, rd_cancelled = False, rd_stop = False, rd_wake = False,
     rd_pump = NoPump, rd_loop = NoLoop, rd_closer = NotClosed, rd_dirty = False, rd_published = 0\<rparr>"

definition subscriber_trigger :: "subscriber \<Rightarrow> subscriber" where
  "subscriber_trigger r = r\<lparr>rd_wake := True, rd_dirty := True\<rparr>"

definition subscriber_Start ::
  "bool \<Rightarrow> (match_rule \<Rightarrow> bool) \<Rightarrow> match_rule list \<Rightarrow> nat \<Rightarrow> subscriber \<times> wire \<Rightarrow> bool \<times> subscriber \<times> wire" where
  "subscriber_Start usable granted rules self s =
    (case s of (r, b) \<Rightarrow>
     if \<not> usable \<or> rd_started r then (True, r, b)
     else case add_matches granted rules b of
       (True, b) \<Rightarrow> (True, r, removeMatches rules b)
     | (False, b) \<Rightarrow>
         (False, subscriber_trigger (r\<lparr>rd_started := True, rd_cancelled := False, rd_pump := Pumping,
            rd_loop := Waiting_wake\<rparr>),
          b\<lparr>wr_channels := insert self (wr_channels b)\<rparr>))"

text \<open>\<open>Start\<close> of an item reader; of a menu reader, which also checks the path.\<close>

definition item_Start where
  "item_Start deps granted key self = subscriber_Start deps granted (item_matches key) self"

definition menu_Start where
  "menu_Start path_valid deps granted key path self =
    subscriber_Start (deps \<and> path_valid path) granted (menu_matches key path) self"

text \<open>\<open>Close\<close> up to its first wait, and its last part.\<close>

definition close_begin :: "subscriber \<Rightarrow> subscriber" where
  "close_begin r =
    (let r = (if rd_started r then r\<lparr>rd_cancelled := True\<rparr> else r); r = r\<lparr>rd_stop := True\<rparr>
     in if \<not> rd_started r then r\<lparr>rd_closer := ClosedEarly\<rparr> else r\<lparr>rd_closer := JoinLoop\<rparr>)"

definition close_finish :: "match_rule list \<Rightarrow> nat \<Rightarrow> subscriber \<times> wire \<Rightarrow> subscriber \<times> wire" where
  "close_finish rules self s =
    (case s of (r, b) \<Rightarrow> (r\<lparr>rd_closer := ClosedDone\<rparr>,
       removeMatches rules (b\<lparr>wr_channels := wr_channels b - {self}\<rparr>)))"

section \<open>Its goroutines\<close>

text \<open>
  What one signal makes \<open>pump\<close> do: hand out a result, mark dirty, end. The choice is
  \<open>item_pump\<close>'s or \<open>menu_handle\<close>'s; here any is possible. A read hands out a result or not and
  may mark dirty again.
\<close>

record handling =
  hd_publish :: bool
  hd_trigger :: bool
  hd_end :: bool

definition handled :: "handling \<Rightarrow> subscriber \<Rightarrow> subscriber" where
  "handled h r =
    (let r = (if hd_publish h then r\<lparr>rd_published := Suc (rd_published r)\<rparr> else r);
         r = (if hd_trigger h then subscriber_trigger r else r)
     in if hd_end h then r\<lparr>rd_pump := PumpEnded\<rparr> else r)"

definition begin_read :: "subscriber \<Rightarrow> subscriber" where
  "begin_read r = r\<lparr>rd_loop := Refreshing, rd_dirty := False\<rparr>"

definition end_read :: "bool \<Rightarrow> bool \<Rightarrow> subscriber \<Rightarrow> subscriber" where
  "end_read published again r =
    (let r = r\<lparr>rd_loop := Waiting_wake\<rparr>;
         r = (if published then r\<lparr>rd_published := Suc (rd_published r)\<rparr> else r)
     in if again then subscriber_trigger r else r)"

text \<open>One signal on the pump of an item reader, and of a menu reader.\<close>

definition item_handling :: "item_key \<Rightarrow> dsignal \<Rightarrow> handling" where
  "item_handling key sg =
    (case item_pump key sg of
      PumpStop res \<Rightarrow> \<lparr>hd_publish = True, hd_trigger = False, hd_end = True\<rparr>
    | PumpTrigger \<Rightarrow> \<lparr>hd_publish = False, hd_trigger = True, hd_end = False\<rparr>
    | PumpIgnore \<Rightarrow> \<lparr>hd_publish = False, hd_trigger = False, hd_end = False\<rparr>)"

definition menu_handling :: "menu_proxy \<Rightarrow> dsignal \<Rightarrow> handling" where
  "menu_handling p sg =
    (let (update, p') = menu_handle sg (p\<lparr>mp_wake := False\<rparr>)
     in \<lparr>hd_publish = update \<noteq> None, hd_trigger = mp_wake p', hd_end = False\<rparr>)"

text \<open>\<open>gated\<close> says that reads pass the limiter, as those of an item do and those of a menu do not.\<close>

inductive subscriber_step :: "bool \<Rightarrow> match_rule list \<Rightarrow> nat \<Rightarrow> subscriber \<times> wire \<Rightarrow> subscriber \<times> wire \<Rightarrow> bool"
  for gated rules self where
  start: "subscriber_Start usable granted rules self s = (err, s') \<Longrightarrow> subscriber_step gated rules self s s'"
| sig: "rd_pump r = Pumping \<Longrightarrow> subscriber_step gated rules self (r, b) (handled h r, b)"
| pump_stop: "rd_pump r = Pumping \<Longrightarrow> rd_stop r \<Longrightarrow>
    subscriber_step gated rules self (r, b) (r\<lparr>rd_pump := PumpEnded\<rparr>, b)"
| wakes: "rd_loop r = Waiting_wake \<Longrightarrow> rd_wake r \<Longrightarrow>
    subscriber_step gated rules self (r, b)
      (let r = r\<lparr>rd_wake := False\<rparr> in if gated then r\<lparr>rd_loop := Awaiting\<rparr> else begin_read r, b)"
| admits: "rd_loop r = Awaiting \<Longrightarrow> subscriber_step gated rules self (r, b) (begin_read r, b)"
| loop_stop: "rd_loop r = Waiting_wake \<or> rd_loop r = Awaiting \<Longrightarrow> rd_stop r \<or> rd_cancelled r \<Longrightarrow>
    subscriber_step gated rules self (r, b) (r\<lparr>rd_loop := LoopEnded\<rparr>, b)"
| reads: "rd_loop r = Refreshing \<Longrightarrow> subscriber_step gated rules self (r, b) (end_read pub again r, b)"
| asks: "subscriber_step gated rules self (r, b) (subscriber_trigger r, b)"
| cancels: "subscriber_step gated rules self (r, b) (r\<lparr>rd_cancelled := True\<rparr>, b)"
| closes: "rd_closer r = NotClosed \<Longrightarrow> subscriber_step gated rules self (r, b) (close_begin r, b)"
| joins_loop: "rd_closer r = JoinLoop \<Longrightarrow> rd_loop r = LoopEnded \<Longrightarrow>
    subscriber_step gated rules self (r, b) (r\<lparr>rd_closer := JoinPump\<rparr>, b)"
| joins_pump: "rd_closer r = JoinPump \<Longrightarrow> rd_pump r = PumpEnded \<Longrightarrow>
    subscriber_step gated rules self (r, b) (r\<lparr>rd_closer := Cleaning\<rparr>, b)"
| cleans: "rd_closer r = Cleaning \<Longrightarrow> subscriber_step gated rules self (r, b) (close_finish rules self (r, b))"
| others: "self \<in> wr_channels b' \<longleftrightarrow> self \<in> wr_channels b \<Longrightarrow>
    mset rules \<subseteq># wr_rules b \<longrightarrow> mset rules \<subseteq># wr_rules b' \<Longrightarrow> subscriber_step gated rules self (r, b) (r, b')"

lemma item_signal_step:
  "rd_pump r = Pumping \<Longrightarrow> subscriber_step gated rules self (r, b) (handled (item_handling key sg) r, b)"
  by (rule subscriber_step.sig)

lemma menu_signal_step:
  "rd_pump r = Pumping \<Longrightarrow> subscriber_step gated rules self (r, b) (handled (menu_handling p sg) r, b)"
  by (rule subscriber_step.sig)

text \<open>A menu reader's pump goes on after any signal; an item reader's ends when its owner has left.\<close>

lemma menu_pump_goes_on: "rd_pump (handled (menu_handling p sg) r) = rd_pump r"
  by (simp add: menu_handling_def handled_def subscriber_trigger_def case_prod_beta Let_def)

lemma item_pump_ends:
  "rd_pump r = Pumping \<Longrightarrow> rd_pump (handled (item_handling key sg) r) = PumpEnded \<longleftrightarrow> item_ownerLeft key sg"
  by (simp add: item_handling_def handled_def subscriber_trigger_def item_pump_def Let_def)

inductive subscriber_run :: "bool \<Rightarrow> match_rule list \<Rightarrow> nat \<Rightarrow> subscriber \<times> wire \<Rightarrow> bool"
  for gated rules self where
  opens: "self \<notin> wr_channels b \<Longrightarrow> subscriber_run gated rules self (new_subscriber, b)"
| steps: "subscriber_run gated rules self s \<Longrightarrow> subscriber_step gated rules self s s' \<Longrightarrow>
    subscriber_run gated rules self s'"

section \<open>The match rules\<close>

lemma subscriber_Start_cases:
  assumes "subscriber_Start usable granted rules self (r, b) = (err, r', b')"
  shows "if \<not> err
    then usable \<and> \<not> rd_started r \<and> (\<forall>q\<in>set rules. granted q)
      \<and> r' = subscriber_trigger (r\<lparr>rd_started := True, rd_cancelled := False, rd_pump := Pumping,
          rd_loop := Waiting_wake\<rparr>)
      \<and> b' = \<lparr>wr_rules = wr_rules b + mset rules, wr_channels = insert self (wr_channels b)\<rparr>
    else r' = r \<and> wr_channels b' = wr_channels b
      \<and> (if usable \<and> \<not> rd_started r
         then \<exists>rs q rs'. rules = rs @ q # rs' \<and> (\<forall>p\<in>set rs. granted p) \<and> \<not> granted q
           \<and> wr_rules b' = wr_rules b - mset (q # rs')
         else b' = b)"
proof (cases "usable \<and> \<not> rd_started r")
  case False
  with assms show ?thesis by (auto simp: subscriber_Start_def)
next
  case True
  obtain e b1 where m: "add_matches granted rules b = (e, b1)" by fastforce
  show ?thesis
  proof (cases e)
    case False
    with m have "(\<forall>q\<in>set rules. granted q) \<and> b1 = b\<lparr>wr_rules := wr_rules b + mset rules\<rparr>"
      by (simp add: add_matches_granted)
    with True False m assms show ?thesis by (auto simp: subscriber_Start_def)
  next
    case refused: True
    with m have "add_matches granted rules b = (True, b1)" by simp
    from add_matches_refused [OF this] obtain rs q rs' where w: "rules = rs @ q # rs'" "\<forall>p\<in>set rs. granted p" "\<not> granted q"
      "b1 = b\<lparr>wr_rules := wr_rules b + mset rs\<rparr>" by blast
    from True refused m assms have r: "err" "r' = r" "b' = removeMatches rules b1"
      by (auto simp: subscriber_Start_def)
    have "wr_rules b' = wr_rules b - mset (q # rs')"
      by (simp add: r(3) removeMatches_eq w(1,4) diff_diff_add_mset [symmetric])
    with r w True show ?thesis by (auto simp: removeMatches_eq)
  qed
qed

section \<open>An invariant of the goroutines\<close>

definition subscribed :: "match_rule list \<Rightarrow> nat \<Rightarrow> wire \<Rightarrow> bool" where
  "subscribed rules self b \<longleftrightarrow> self \<in> wr_channels b \<and> mset rules \<subseteq># wr_rules b"

definition goroutines_ok :: "subscriber \<Rightarrow> bool" where
  "goroutines_ok r \<longleftrightarrow>
     (if rd_started r then rd_pump r \<noteq> NoPump \<and> rd_loop r \<noteq> NoLoop
      else rd_pump r = NoPump \<and> rd_loop r = NoLoop \<and> rd_closer r \<in> {NotClosed, ClosedEarly})
   \<and> (rd_closer r \<in> {JoinPump, Cleaning, ClosedDone} \<longrightarrow> rd_loop r = LoopEnded)
   \<and> (rd_closer r \<in> {Cleaning, ClosedDone} \<longrightarrow> rd_pump r = PumpEnded)
   \<and> (rd_closer r \<noteq> NotClosed \<longrightarrow> rd_stop r)"

definition wake_ok :: "subscriber \<Rightarrow> bool" where
  "wake_ok r \<longleftrightarrow> (rd_dirty r \<longrightarrow> rd_loop r \<in> {Waiting_wake, Refreshing} \<longrightarrow> rd_wake r)"

definition subscriber_inv :: "match_rule list \<Rightarrow> nat \<Rightarrow> subscriber \<times> wire \<Rightarrow> bool" where
  "subscriber_inv rules self s \<longleftrightarrow> goroutines_ok (fst s) \<and> wake_ok (fst s)
     \<and> (if rd_started (fst s) \<and> rd_closer (fst s) \<noteq> ClosedDone then subscribed rules self (snd s)
        else self \<notin> wr_channels (snd s))"

lemmas subscriber_defs = goroutines_ok_def wake_ok_def handled_def subscriber_trigger_def begin_read_def
  end_read_def close_begin_def Let_def

lemma handled_same [simp]:
  "rd_started (handled h r) = rd_started r" "rd_closer (handled h r) = rd_closer r"
  "rd_stop (handled h r) = rd_stop r" "rd_loop (handled h r) = rd_loop r"
  "rd_pump (handled h r) = (if hd_end h then PumpEnded else rd_pump r)"
  by (simp_all add: handled_def subscriber_trigger_def Let_def)

lemma subscriber_Start_inv:
  assumes "subscriber_inv rules self (r, b)" and "subscriber_Start usable granted rules self (r, b) = (err, r', b')"
  shows "subscriber_inv rules self (r', b')"
proof (cases err)
  case False
  with subscriber_Start_cases [OF assms(2)] have w: "\<not> rd_started r"
    "r' = subscriber_trigger (r\<lparr>rd_started := True, rd_cancelled := False, rd_pump := Pumping, rd_loop := Waiting_wake\<rparr>)"
    "b' = \<lparr>wr_rules = wr_rules b + mset rules, wr_channels = insert self (wr_channels b)\<rparr>"
    by simp_all
  from assms(1) w(1) have "rd_closer r \<in> {NotClosed, ClosedEarly}" "rd_closer r \<noteq> NotClosed \<longrightarrow> rd_stop r"
    by (simp_all add: subscriber_inv_def goroutines_ok_def)
  then show ?thesis
    by (auto simp: subscriber_inv_def w subscriber_trigger_def goroutines_ok_def wake_ok_def subscribed_def)
next
  case True
  with subscriber_Start_cases [OF assms(2)] have w: "r' = r \<and> wr_channels b' = wr_channels b" by simp
  show ?thesis
  proof (cases "rd_started r")
    case False
    with w assms(1) show ?thesis by (simp add: subscriber_inv_def)
  next
    case started: True
    with subscriber_Start_cases [OF assms(2)] True have "b' = b" by simp
    with w assms(1) show ?thesis by simp
  qed
qed

lemma subscriber_step_inv: "subscriber_step gated rules self s s' \<Longrightarrow> subscriber_inv rules self s \<Longrightarrow> subscriber_inv rules self s'"
proof (induction rule: subscriber_step.induct)
  case (start usable granted s err s')
  then show ?case by (cases s; cases s') (auto intro: subscriber_Start_inv)
next
  case (others b' b r)
  then show ?case by (auto simp: subscriber_inv_def subscribed_def)
next
  case (cleans r b)
  then show ?case
    by (auto simp: subscriber_inv_def close_finish_def removeMatches_eq goroutines_ok_def wake_ok_def
        split: if_splits)
qed (auto simp: subscriber_inv_def subscriber_defs split: if_splits)

lemma subscriber_run_inv: "subscriber_run gated rules self s \<Longrightarrow> subscriber_inv rules self s"
proof (induction rule: subscriber_run.induct)
  case (opens b)
  then show ?case by (simp add: subscriber_inv_def subscriber_defs new_subscriber_def)
next
  case (steps s s')
  then show ?case by (blast intro: subscriber_step_inv)
qed

section \<open>An example run\<close>

definition demo_rules :: "match_rule list" where
  "demo_rules = [owner_rule '':1.7'']"

definition demo_wire :: wire where
  "demo_wire = \<lparr>wr_rules = {#}, wr_channels = {}\<rparr>"

definition demo_open :: "subscriber \<times> wire" where
  "demo_open = snd (subscriber_Start True (\<lambda>r. True) demo_rules 0 (new_subscriber, demo_wire))"

definition demo_ended :: "subscriber \<times> wire" where
  "demo_ended = close_finish demo_rules 0
     ((close_begin (fst demo_open))\<lparr>rd_loop := LoopEnded, rd_pump := PumpEnded, rd_closer := Cleaning\<rparr>,
      snd demo_open)"

lemmas demo_subscriber_defs = demo_open_def demo_ended_def demo_wire_def subscriber_Start_def new_subscriber_def
  subscriber_trigger_def add_matches_granted close_begin_def close_finish_def demo_rules_def

lemma demo_open_run: "subscriber_run True demo_rules 0 demo_open"
proof -
  have "subscriber_run True demo_rules 0 (new_subscriber, demo_wire)"
    by (rule subscriber_run.opens) (simp add: demo_wire_def)
  then show ?thesis
    by (rule subscriber_run.steps [OF _ subscriber_step.start [where usable = True and granted = "\<lambda>r. True"
          and err = "fst (subscriber_Start True (\<lambda>r. True) demo_rules 0 (new_subscriber, demo_wire))"]])
      (simp add: demo_open_def)
qed

lemma demo_ended_run: "subscriber_run True demo_rules 0 demo_ended"
proof -
  obtain r b where o: "demo_open = (r, b)" by fastforce
  have r: "rd_closer r = NotClosed" "rd_started r" "rd_loop r = Waiting_wake" "rd_pump r = Pumping"
    using o by (auto simp: demo_subscriber_defs)
  let ?c = "close_begin r"
  have c: "rd_closer ?c = JoinLoop" "rd_stop ?c" "rd_loop ?c = Waiting_wake" "rd_pump ?c = Pumping"
    by (simp_all add: close_begin_def r Let_def)
  note run = subscriber_run.steps [OF demo_open_run [unfolded o] subscriber_step.closes [OF r(1)]]
  from subscriber_run.steps [OF run subscriber_step.loop_stop] c
  have "subscriber_run True demo_rules 0 (?c\<lparr>rd_loop := LoopEnded\<rparr>, b)" by simp
  from subscriber_run.steps [OF this subscriber_step.joins_loop] c
  have "subscriber_run True demo_rules 0 (?c\<lparr>rd_loop := LoopEnded, rd_closer := JoinPump\<rparr>, b)" by simp
  from subscriber_run.steps [OF this subscriber_step.pump_stop] c
  have "subscriber_run True demo_rules 0 (?c\<lparr>rd_loop := LoopEnded, rd_closer := JoinPump, rd_pump := PumpEnded\<rparr>, b)"
    by simp
  from subscriber_run.steps [OF this subscriber_step.joins_pump]
  have "subscriber_run True demo_rules 0 (?c\<lparr>rd_loop := LoopEnded, rd_pump := PumpEnded, rd_closer := Cleaning\<rparr>, b)"
    by simp
  from subscriber_run.steps [OF this subscriber_step.cleans] show ?thesis
    by (simp add: demo_ended_def o)
qed

section \<open>After \<open>Close\<close>\<close>

text \<open>
  C28: once \<open>Close\<close> of a started reader has returned, both its goroutines have ended, its signal
  channel is unregistered, and nothing that can still happen makes it publish.
\<close>

theorem closed_subscriber_quiet:
  assumes "subscriber_run gated rules self (r, b)" and "rd_closer r = ClosedDone"
  shows "rd_pump r = PumpEnded \<and> rd_loop r = LoopEnded \<and> self \<notin> wr_channels b
    \<and> (\<forall>s'. subscriber_step gated rules self (r, b) s' \<longrightarrow>
         rd_published (fst s') = rd_published r \<and> rd_closer (fst s') = ClosedDone)"
proof -
  from subscriber_run_inv [OF assms(1)] assms(2) have
    st: "rd_pump r = PumpEnded" "rd_loop r = LoopEnded" "self \<notin> wr_channels b" "rd_started r"
    by (auto simp: subscriber_inv_def goroutines_ok_def split: if_splits)
  have "rd_published (fst s') = rd_published r \<and> rd_closer (fst s') = ClosedDone"
    if "subscriber_step gated rules self (r, b) s'" for s'
    using that st assms(2) by cases (auto simp: subscriber_Start_def subscriber_trigger_def)
  with st show ?thesis by blast
qed

theorem closed_subscriber_quiet_witness: "rd_loop (fst demo_ended) = LoopEnded \<and> 0 \<notin> wr_channels (snd demo_ended)"
proof -
  have "rd_closer (fst demo_ended) = ClosedDone" by (simp add: demo_ended_def close_finish_def)
  then show ?thesis
    using closed_subscriber_quiet [of True demo_rules 0 "fst demo_ended" "snd demo_ended"] demo_ended_run by simp
qed

text \<open>
  C29: no change is lost. While the refresh loop runs, a change reported since the last read began
  (by a signal, by \<open>Refresh\<close> or by a read that asked for another) leaves the wake-up pending, or the
  loop is already past it and waits for the limiter.
\<close>

theorem change_not_lost:
  assumes "subscriber_run gated rules self (r, b)" and "rd_dirty r" and "rd_loop r \<notin> {NoLoop, LoopEnded}"
  shows "rd_wake r \<or> rd_loop r = Awaiting"
  using subscriber_run_inv [OF assms(1)] assms(2,3)
  by (cases "rd_loop r") (auto simp: subscriber_inv_def wake_ok_def)

theorem change_not_lost_witness: "rd_wake (fst demo_open)"
proof -
  have "rd_dirty (fst demo_open) \<and> rd_loop (fst demo_open) = Waiting_wake" by (simp add: demo_subscriber_defs)
  then show ?thesis
    using change_not_lost [of True demo_rules 0 "fst demo_open" "snd demo_open"] demo_open_run by simp
qed

section \<open>\<open>Close\<close> returns\<close>

text \<open>Within \<open>n\<close> steps \<open>Close\<close> can have returned.\<close>

inductive close_within :: "bool \<Rightarrow> match_rule list \<Rightarrow> nat \<Rightarrow> nat \<Rightarrow> subscriber \<times> wire \<Rightarrow> bool"
  for gated rules self where
  returned: "rd_closer (fst s) = ClosedDone \<Longrightarrow> close_within gated rules self n s"
| further: "subscriber_step gated rules self s s' \<Longrightarrow> close_within gated rules self n s' \<Longrightarrow>
    close_within gated rules self (Suc n) s"

lemma close_within_mono: "close_within gated rules self n s \<Longrightarrow> n \<le> m \<Longrightarrow> close_within gated rules self m s"
proof (induction arbitrary: m rule: close_within.induct)
  case (returned s n)
  then show ?case by (simp add: close_within.returned)
next
  case (further s s' n)
  then show ?case by (cases m) (auto intro: close_within.further)
qed

lemma clean_ends: "rd_closer r = Cleaning \<Longrightarrow> close_within gated rules self 1 (r, b)"
  unfolding One_nat_def
  by (rule close_within.further [OF subscriber_step.cleans])
    (auto intro: close_within.returned simp: close_finish_def)

lemma join_pump_ends:
  assumes "rd_closer r = JoinPump" and "rd_pump r = PumpEnded \<or> rd_pump r = Pumping \<and> rd_stop r"
  shows "close_within gated rules self 3 (r, b)"
proof -
  have ended: "close_within gated rules self 2 (q, b)"
    if "rd_closer q = JoinPump" "rd_pump q = PumpEnded" for q
    unfolding numeral_2_eq_2 One_nat_def [symmetric]
    by (rule close_within.further [OF subscriber_step.joins_pump [OF that] clean_ends]) simp
  show ?thesis
  proof (cases "rd_pump r = PumpEnded")
    case True
    from close_within_mono [OF ended [OF assms(1) this]] show ?thesis by simp
  next
    case False
    with assms(2) have p: "rd_pump r = Pumping" "rd_stop r" by simp_all
    have "close_within gated rules self (Suc 2) (r, b)"
      by (rule close_within.further [OF subscriber_step.pump_stop [OF p] ended]) (simp_all add: assms(1))
    then show ?thesis by simp
  qed
qed

lemma join_loop_ends:
  assumes "rd_closer r = JoinLoop" and "rd_loop r \<noteq> NoLoop" and "rd_stop r" and "rd_pump r \<noteq> NoPump"
  shows "close_within gated rules self 6 (r, b)"
proof -
  have ended: "close_within gated rules self 4 (q, b)"
    if q: "rd_closer q = JoinLoop" "rd_loop q = LoopEnded" "rd_stop q" "rd_pump q \<noteq> NoPump" for q
  proof -
    have "rd_pump q = PumpEnded \<or> rd_pump q = Pumping \<and> rd_stop q" using q(3,4) by (cases "rd_pump q") simp_all
    then have "close_within gated rules self (Suc 3) (q, b)"
      by (intro close_within.further [OF subscriber_step.joins_loop [OF q(1,2)] join_pump_ends]) simp_all
    then show ?thesis by simp
  qed
  have waits: "close_within gated rules self 5 (q, b)"
    if q: "rd_closer q = JoinLoop" "rd_loop q \<in> {Waiting_wake, Awaiting}" "rd_stop q" "rd_pump q \<noteq> NoPump" for q
  proof -
    from q have "rd_loop q = Waiting_wake \<or> rd_loop q = Awaiting" "rd_stop q \<or> rd_cancelled q" by auto
    from close_within.further [OF subscriber_step.loop_stop [OF this] ended] q
    have "close_within gated rules self (Suc 4) (q, b)" by simp
    then show ?thesis by simp
  qed
  consider "rd_loop r = LoopEnded" | "rd_loop r \<in> {Waiting_wake, Awaiting}" | "rd_loop r = Refreshing"
    using assms(2) by (cases "rd_loop r") auto
  then show ?thesis
  proof cases
    case 1
    from close_within_mono [OF ended [OF assms(1) this assms(3,4)]] show ?thesis by simp
  next
    case 2
    from close_within_mono [OF waits [OF assms(1) this assms(3,4)]] show ?thesis by simp
  next
    case 3
    from close_within.further [OF subscriber_step.reads [OF 3, where pub = False and again = False] waits] assms
    have "close_within gated rules self (Suc 5) (r, b)" by (simp add: end_read_def)
    then show ?thesis by simp
  qed
qed



section \<open>The life cycle of the workers\<close>

definition life_of :: "nat \<Rightarrow> subscriber \<times> wire \<Rightarrow> proxy_life" where
  "life_of self s = \<lparr>pl_started = rd_started (fst s), pl_closed = rd_closer (fst s) \<noteq> NotClosed,
     pl_watching = self \<in> wr_channels (snd s)\<rparr>"


text \<open>
  A fault of \<open>Start\<close>: when a match rule is refused it removes all its rules, those it never
  added too. A menu reader whose first rule is refused takes away the rule by which the item reader
  of the same owner learns that the owner has left the bus.
\<close>

theorem refused_start_unwatches_owner:
  "let b = \<lparr>wr_rules = mset (item_matches key), wr_channels = {0}\<rparr>;
       (err, r, b') = menu_Start (\<lambda>p. True) True (\<lambda>q. q \<noteq> hd (menu_matches key path)) key path 1 (new_subscriber, b)
   in err \<and> owner_rule (ik_Owner key) \<in># wr_rules b \<and> owner_rule (ik_Owner key) \<notin># wr_rules b'"
  by (simp add: menu_Start_def subscriber_Start_def new_subscriber_def menu_matches_def item_matches_def
    owner_rule_def)

end
