(* ===== verification/Wire_Properties.thy ===== *)
theory Wire_Properties
  imports Frame Dbusval
begin

text \<open>
  Properties of the framing and of strict decoding, with their examples.
\<close>

section \<open>Examples\<close>

text \<open>A writer that takes one byte at a time into a list.\<close>

definition one_byte :: "bytes writer" where
  "one_byte p s = ((min 1 (length p), None), s @ take 1 p)"

lemma one_byte_honest: "honest one_byte (\<lambda>s. s)"
  by (auto simp: honest_def one_byte_def min_def)

lemma one_byte_willing: "willing one_byte"
  by (simp add: willing_def one_byte_def)

lemma short_frame: "p \<noteq> [] \<Longrightarrow> length p \<le> 9 \<Longrightarrow> frameable p"
  by (simp add: frameable_def MaxFrameSize_def)

section \<open>Frames\<close>



text \<open>
  C33: a frame that is cut short is an error, never a shorter payload; and what \<open>ReadFrame\<close> returns
  from any input is never empty nor longer than 16 MiB.
\<close>

theorem frame_cut_is_error:
  assumes "frameable p" and "k < length (frame_bytes p)"
  shows "(\<exists>e. fst (ReadFrame (take k (frame_bytes p))) = Inl e)
    \<and> (\<forall>q r. fst (ReadFrame r) \<noteq> Inr q \<or> frameable q)"
  using ReadFrame_cut [OF assms] ReadFrame_bounds by blast

theorem frame_cut_is_error_witness: "\<exists>e. fst (ReadFrame (take 5 (frame_bytes ''abc''))) = Inl e"
  using frame_cut_is_error [of "''abc''" 5] short_frame [of "''abc''"] by (simp add: frame_bytes_def)

text \<open>
  What \<open>WriteFrame\<close> puts on the wire. Whatever the writer does, it has been given a prefix of
  header and payload, and no error means the whole frame of a payload of legal size; a writer that
  always takes something gets every such frame through, however small its portions.
\<close>

theorem frame_write_prefix:
  assumes "honest put sent"
  shows "\<exists>k\<le>length (frame_bytes p). sent (snd (WriteFrame put p s)) = sent s @ take k (frame_bytes p)
    \<and> (fst (WriteFrame put p s) = None \<longrightarrow> k = length (frame_bytes p) \<and> frameable p)
    \<and> (willing put \<and> frameable p \<longrightarrow> fst (WriteFrame put p s) = None)"
proof -
  from WriteFrame_sent [OF assms, of p s] obtain k where
    k: "k \<le> length (frame_bytes p)" "sent (snd (WriteFrame put p s)) = sent s @ take k (frame_bytes p)"
    "fst (WriteFrame put p s) = None \<longrightarrow> k = length (frame_bytes p) \<and> frameable p" by (elim exE conjE)
  have "willing put \<and> frameable p \<longrightarrow> fst (WriteFrame put p s) = None"
    by (intro impI, elim conjE, rule WriteFrame_willing)
  with k show ?thesis by (intro exI [of _ k] conjI)
qed

theorem frame_write_prefix_witness: "snd (WriteFrame one_byte ''ab'' []) = frame_bytes ''ab''"
proof -
  from frame_write_prefix [OF one_byte_honest, of "''ab''" "[]"] obtain k where
    "snd (WriteFrame one_byte ''ab'' []) = take k (frame_bytes ''ab'')" "k = length (frame_bytes ''ab'')"
    using one_byte_willing short_frame [of "''ab''"] by auto
  then show ?thesis by simp
qed

section \<open>Strict decoding\<close>

text \<open>
  C34: strict decoding accepts a document only if no object in it, however deep, repeats a key and
  nothing follows it. When the tokeniser reads the bytes as the document \<open>v\<close>, \<open>DecodeStrict\<close> is the
  decoder's answer exactly if the bytes are UTF-8, the keys of \<open>v\<close> are unique and the decoder
  consumed everything.
\<close>

theorem strict_decode_unique_keys:
  assumes "tokenise data = tokens v @ rest"
  shows "DecodeStrict tokenise decode data = Some x \<longleftrightarrow>
    ValidString data \<and> unique_keys v \<and> rest = [] \<and> decode data = Some (x, [])"
  using assms
  by (auto simp: DecodeStrict_def rejectDuplicateKeys_tokens requireEOF_def split: option.splits if_splits)

text \<open>The document \<open>[{"a": 1}, {"a": 1, "a": 1}]\<close>, whose second object repeats a key.\<close>

definition repeated_doc :: json where
  "repeated_doc = JArray [JObject [(''a'', JScalar)], JObject [(''a'', JScalar), (''a'', JScalar)]]"

theorem strict_decode_unique_keys_witness:
  "DecodeStrict (\<lambda>d. tokens repeated_doc) (\<lambda>d. Some ((), [])) ''doc'' \<noteq> Some ()
    \<and> DecodeStrict (\<lambda>d. tokens JScalar) (\<lambda>d. Some ((), [])) ''doc'' = Some ()"
  using strict_decode_unique_keys [of "\<lambda>d. tokens repeated_doc" "''doc''" repeated_doc "[]" "\<lambda>d. Some ((), [])" "()"]
    strict_decode_unique_keys [of "\<lambda>d. tokens JScalar" "''doc''" JScalar "[]" "\<lambda>d. Some ((), [])" "()"]
  by (simp add: repeated_doc_def ValidString_ascii_Cons byte_val_def)

end
