(* ===== verification/State_Properties.thy ===== *)
theory State_Properties
  imports Replica
begin

text \<open>
  Properties of the state owner: the invariant of everything it accepts, what a snapshot holds, and
  which generations it admits.
\<close>

section \<open>What the owner holds\<close>


lemma collect_published_length: "length (collect_published items order) \<le> length order"
  by (induction order) (auto split: option.split)

lemma collect_published_ok:
  assumes "registry_ok items order" and "i \<in> set (collect_published items order)"
  shows "item_ok i"
proof -
  from assms(2) obtain spot r where "gm_get items spot = Some r" "rc_published r" "i = rc_item r"
    by (auto simp: collect_published_set)
  with registry_ok_get [OF assms(1), of spot r] show ?thesis by (simp add: entry_ok_def)
qed

text \<open>
  C10: a snapshot is exactly the published state, oldest generation first: its items are the
  published ones, each once. The presenter's own check of it can fail for one reason only, that the
  pixmaps of all items together exceed 8 MiB.
\<close>

theorem snapshot_exact:
  assumes "owner_inv ow"
  shows "(\<forall>i. i \<in> set (sn_Items (snapshotLocked ow)) \<longleftrightarrow> published_view (ow_items ow) (it_Key i) = Some i)
    \<and> distinct (map it_Key (sn_Items (snapshotLocked ow)))
    \<and> sorted (map (\<lambda>i. ik_Generation (it_Key i)) (sn_Items (snapshotLocked ow)))
    \<and> sn_Sequence (snapshotLocked ow) = ow_sequence ow
    \<and> (Snapshot_Validate (snapshotLocked ow) = None \<longleftrightarrow>
        (\<Sum>i\<leftarrow>sn_Items (snapshotLocked ow). item_bytes i) \<le> MaxPixmapBytesAggregate)"
proof -
  from assms have ok: "registry_ok (ow_items ow) (ow_order ow)" by (simp add: owner_inv_def)
  let ?is = "collect_published (ow_items ow) (ow_order ow)"
  have "length (ow_order ow) = length (ow_items ow)"
    using ok length_gm_keys [of "ow_items ow"] distinct_card [of "ow_order ow"] by (simp add: registry_ok_def)
  then have few: "length (sn_Items (snapshotLocked ow)) \<le> MaxItems"
    using collect_published_length [of "ow_items ow" "ow_order ow"] ok
    by (simp add: snapshotLocked_def registry_ok_def)
  have valid: "\<forall>i\<in>set (sn_Items (snapshotLocked ow)). item_ok i"
    using collect_published_ok [OF ok] by (simp add: snapshotLocked_def)
  note distinct = snapshotLocked_distinct [OF assms]
  have "Snapshot_Validate (snapshotLocked ow) = None \<longleftrightarrow>
      (\<Sum>i\<leftarrow>sn_Items (snapshotLocked ow). item_bytes i) \<le> MaxPixmapBytesAggregate"
    by (simp add: Snapshot_Validate_None snapshot_ok_def few valid distinct)
  moreover have "sorted (map (\<lambda>i. ik_Generation (it_Key i)) (sn_Items (snapshotLocked ow)))"
    by (simp add: snapshotLocked_def sorted_sort_key)
  ultimately show ?thesis
    using snapshotLocked_set [OF assms] distinct by (simp add: snapshotLocked_def)
qed

text \<open>Two generations at different addresses, the younger registered first.\<close>

definition plain_item :: "bytes \<Rightarrow> uint64 \<Rightarrow> item" where
  "plain_item name g = zero_item\<lparr>it_Key := \<lparr>ik_Owner = name, ik_ObjectPath = ''/I'', ik_Generation = g\<rparr>,
     it_ID := ''a'', it_Category := CategoryHardware, it_Status := StatusActive\<rparr>"

definition published_entry :: "item \<Rightarrow> entry" where
  "published_entry i = \<lparr>rc_key = it_Key i, rc_item = i, rc_menu = zero_menu, rc_hasItem = True,
     rc_hasMenu = False, rc_published = True\<rparr>"

definition two_items :: owner where
  "two_items = Owner_Start\<lparr>ow_items :=
       [(addr_of (it_Key (plain_item '':1.2'' 2)), published_entry (plain_item '':1.2'' 2)),
        (addr_of (it_Key (plain_item '':1.1'' 1)), published_entry (plain_item '':1.1'' 1))],
     ow_order := [addr_of (it_Key (plain_item '':1.2'' 2)), addr_of (it_Key (plain_item '':1.1'' 1))],
     ow_sequence := 2\<rparr>"

lemma plain_item_ok: "name \<in> {'':1.1'', '':1.2''} \<Longrightarrow> g \<noteq> 0 \<Longrightarrow> item_ok (plain_item name g)"
  by (auto simp: item_ok_def plain_item_def zero_item_def zero_icon_def zero_tooltip_def icon_ok_def
    tooltip_ok_def text_ok_def key_ok_def HasPrefix_def ValidString_ascii_Cons byte_val_def const_defs
    Category_valid_def Status_valid_def item_bytes_def item_pixmaps_def pixmap_bytes_def)

lemma two_items_inv: "owner_inv two_items"
  using plain_item_ok [of "'':1.1''" 1] plain_item_ok [of "'':1.2''" 2]
  by (auto simp: owner_inv_def registry_ok_def two_items_def Owner_Start_def gm_ok_def addr_of_def
    plain_item_def entry_ok_def published_entry_def const_defs split: if_splits)

theorem snapshot_exact_witness:
  "sorted (map (\<lambda>i. ik_Generation (it_Key i)) (sn_Items (snapshotLocked two_items)))
    \<and> map (\<lambda>i. ik_Generation (it_Key i)) (sn_Items (snapshotLocked two_items)) = [1, 2]"
proof -
  have "map (\<lambda>i. ik_Generation (it_Key i)) (sn_Items (snapshotLocked two_items)) = [1, 2]"
    by (simp add: snapshotLocked_def two_items_def addr_of_def plain_item_def published_entry_def
      word_le_nat_alt)
  then show ?thesis using snapshot_exact [OF two_items_inv] by blast
qed

section \<open>Which generations it admits\<close>

text \<open>
  \<open>Add\<close> never goes back: an address already held by the same or a younger generation, or a new
  address when 256 are held, leaves everything as it was; otherwise the generation becomes the
  current one of its address, unpublished.
\<close>

theorem owner_admits_newer:
  assumes "owner_inv (fst s)"
  shows "Owner_Add mar send k s = s \<and>
      (\<exists>r. gm_get (ow_items (fst s)) (addr_of k) = Some r \<and> ik_Generation (rc_key r) \<ge> ik_Generation k)
    \<or> Owner_Add mar send k s = s \<and> gm_get (ow_items (fst s)) (addr_of k) = None
      \<and> length (ow_items (fst s)) = MaxItems
    \<or> current (fst (Owner_Add mar send k s)) k = Some (new_entry k)"
proof (cases "gm_get (ow_items (fst s)) (addr_of k)")
  case None
  have "length (ow_items (fst s)) \<le> MaxItems" using assms by (simp add: owner_inv_def registry_ok_def)
  then show ?thesis
    using None Owner_Add_full [OF None] Owner_Add_new [OF None, of mar send]
    by (cases "MaxItems \<le> length (ow_items (fst s))") (auto simp: current_def new_entry_def go_simps)
next
  case (Some r)
  show ?thesis
  proof (cases "ik_Generation (rc_key r) \<ge> ik_Generation k")
    case True
    then show ?thesis using Some Owner_Add_stale [OF Some] by blast
  next
    case False
    from Owner_Add_replace [OF Some this refl] show ?thesis
      by (simp add: current_def new_entry_def go_simps)
  qed
qed

theorem owner_admits_newer_witness:
  "Owner_Add (\<lambda>p. None) (\<lambda>i e w. (False, w)) \<lparr>ik_Owner = '':1.2'', ik_ObjectPath = ''/I'', ik_Generation = 1\<rparr>
      (two_items, ()) = (two_items, ())"
proof -
  let ?k = "\<lparr>ik_Owner = '':1.2'', ik_ObjectPath = ''/I'', ik_Generation = 1\<rparr>"
  have held: "gm_get (ow_items two_items) (addr_of ?k) = Some (published_entry (plain_item '':1.2'' 2))"
    by (simp add: two_items_def addr_of_def plain_item_def)
  have "(1 :: uint64) \<le> 2" by (simp add: word_le_nat_alt)
  then have "current (fst (Owner_Add (\<lambda>p. None) (\<lambda>i e w. (False, w)) ?k (two_items, ()))) ?k \<noteq> Some (new_entry ?k)"
    using held by (simp add: Owner_Add_def current_def published_entry_def plain_item_def)
  then show ?thesis
    using owner_admits_newer [of "(two_items, ())" "\<lambda>p. None" "\<lambda>i e w. (False, w)" ?k] two_items_inv
    by simp blast
qed

end
