(* ===== verification/Command_Properties.thy ===== *)
theory Command_Properties
  imports App_Commands
begin

text \<open>
  Properties of a command on its way from a frame to the session bus, or to a signal.
\<close>

section \<open>Replies\<close>


section \<open>Each command once\<close>

text \<open>
  C6: no command runs twice. Whatever frames arrive, replayed ones too, and however deltas, the
  writer and failures interleave, the requests that ran have strictly increasing IDs, and the state
  of the handlers is what those commands made of it, each once and in that order.
\<close>

theorem no_command_twice:
  assumes "read_run cd base pro s0 r"
  shows "sorted_wrt (<) (ran_ids r) \<and> rd_state r = run_commands cd (rd_ran r) s0"
  using read_run_inv [OF assms] by (simp add: reader_inv_def)

text \<open>Handlers that count the calls, and a frame that is sent twice.\<close>

definition count_calls :: "nat commands" where
  "count_calls =
    \<lparr>do_Activate = (\<lambda>k x y s. (None, Suc s)), do_SecondaryActivate = (\<lambda>k x y s. (None, Suc s)),
     do_Scroll = (\<lambda>k d ori s. (None, Suc s)), do_MenuOpen = (\<lambda>k r i s. (None, Suc s)),
     do_MenuSelect = (\<lambda>k r i t s. (None, Suc s)), do_AboutToShow = (\<lambda>k r i s. (False, None, Suc s)),
     do_MenuClose = (\<lambda>k r i s. (None, Suc s)), do_Terminate = (\<lambda>k s. (None, Suc s))\<rparr>"

definition some_key :: item_key where
  "some_key = \<lparr>ik_Owner = '':1.7'', ik_ObjectPath = ''/I'', ik_Generation = 1\<rparr>"

definition some_command :: command where
  "some_command = zero_command\<lparr>cm_Kind := CommandActivate, cm_Item := some_key, cm_Output := 3\<rparr>"

definition some_codecs :: "nat codecs" where
  "some_codecs = \<lparr>cd_envelope = (\<lambda>d. Some \<lparr>en_Kind = KindCommand, en_RequestID = 1, en_Sequence = 0, en_Payload = ''p''\<rparr>),
     cd_command = (\<lambda>b. Some some_command), cd_json_valid = (\<lambda>b. True), cd_text = (\<lambda>f. []),
     cd_mar = (\<lambda>p. Some ''p''), cd_frame = (\<lambda>e. Some ''f''), cd_commands = Some count_calls\<rparr>"

definition some_connection :: connection where
  "some_connection = start_or_fail 0 [] newConnection"

definition some_reader :: "nat reader" where
  "some_reader = \<lparr>rd_conn = some_connection, rd_state = 0, rd_open = True, rd_ran = []\<rparr>"

lemma some_reader_run: "read_run some_codecs 0 [] 0 some_reader"
proof -
  have "conn_reach (cd_mar some_codecs) (cd_frame some_codecs) 0 [] some_connection"
    unfolding some_connection_def
    by (rule conn_reach.steps [OF conn_reach.opened conn_step.starts]) (simp add: newConnection_def)
  then show ?thesis
    unfolding some_reader_def
    by (rule read_run.begins)
      (simp_all add: some_connection_def start_or_fail_def start_def newConnection_def)
qed

lemma some_key_valid: "ItemKey_Validate some_key = None"
  by (simp add: some_key_def ItemKey_Validate_None key_ok_def text_ok_def HasPrefix_def
    ValidString_ascii_Cons byte_val_def const_defs)

lemma some_command_valid: "Command_Validate jv some_command = None"
  by (simp add: Command_Validate_def some_command_def zero_command_def some_key_valid
    validateCoordinate_def const_defs)

lemma some_turn:
  "rd_state (read_turn some_codecs (Some ''f'') some_reader) = 1
    \<and> rd_open (read_turn some_codecs (Some ''f'') some_reader)"
proof -
  have "dispatch (cd_json_valid some_codecs) (cd_text some_codecs) (cd_commands some_codecs) some_command 0
      = (\<lparr>re_OK = True, re_Item = some_key, re_Output = 3, re_Error = None\<rparr>, 1)"
    using some_command_valid
    by (simp add: dispatch_def some_codecs_def routed_def some_command_def zero_command_def count_calls_def)
  then show ?thesis
    by (simp add: read_turn_def accept_command_def some_codecs_def some_reader_def some_connection_def
      start_or_fail_def start_def newConnection_def Envelope_Validate_def const_defs send_reply_def
      reserve_def channel_send_def check_then_def guard_err_def)
qed

theorem no_command_twice_witness:
  "rd_state (read_turn some_codecs (Some ''f'') some_reader) =
    run_commands some_codecs (rd_ran (read_turn some_codecs (Some ''f'') some_reader)) 0
   \<and> rd_state (read_turn some_codecs (Some ''f'') some_reader) = 1"
proof -
  have "read_run some_codecs 0 [] 0 (read_turn some_codecs (Some ''f'') some_reader)"
    by (rule read_run.turns [OF some_reader_run]) (simp add: some_reader_def)
  from no_command_twice [OF this] some_turn show ?thesis by simp
qed

section \<open>A service with one worker\<close>

definition some_record :: own_record where
  "some_record = \<lparr>own_UID = 1000, own_PID = 42, own_StartTime = 7\<rparr>"

definition some_worker :: worker where
  "some_worker = \<lparr>wo_key = some_key, wo_item = 0, wo_menu = None, wo_menuPath = [], wo_own = Some some_record\<rparr>"

text \<open>The bus is a counter of the calls it has received.\<close>

definition some_service :: "nat service" where
  "some_service = \<lparr>se_app = App_New\<lparr>ap_up := True, ap_workers := [(some_key, some_worker)]\<rparr>,
     se_menus = (\<lambda>p. NewProxy some_key), se_bus = 0, se_signals = []\<rparr>"

definition some_wires :: "nat wires" where
  "some_wires = \<lparr>wi_item = (\<lambda>k m args b. (Body [], Suc b)), wi_menu = (\<lambda>p m args b. (Body [], Suc b)),
     wi_text = (\<lambda>r. [])\<rparr>"

definition some_fields :: "bytes list" where
  "some_fields = ''S'' # replicate 18 ''0'' @ [''7'']"

definition some_stat :: bytes where
  "some_stat = ''42'' @ '' ('' @ ''a b) c'' @ '') '' @ blank_join some_fields"

text \<open>The process answers to the signal: it is gone at the first look.\<close>

definition some_os :: os where
  "some_os = \<lparr>os_uid = 1000, os_user = (\<lambda>n. Some 1000), os_process = (\<lambda>n. Some 42),
     os_stat = (\<lambda>pid. Some some_stat), os_signal = (\<lambda>r. True), os_begun = 0,
     os_now = (\<lambda>i. int i * TerminatePoll), os_later = (\<lambda>i pid. None), os_error = (\<lambda>e. [])\<rparr>"

section \<open>Only what is current reaches the bus\<close>

text \<open>
  C7: a stale command has no effect. When a command from a presenter makes the service touch the
  session bus, it was valid, there is a worker for exactly the item generation it names, and, if it
  is a menu command, the worker's menu is that item's and at the very revision the command names.
\<close>

theorem stale_command_no_effect:
  assumes "se_bus (snd (dispatch jv ft (Some (service_commands wi os)) c s)) \<noteq> se_bus s"
  shows "Command_Validate jv c = None \<and> fresh_command c s"
  using dispatch_fresh [of jv ft wi os c s] assms by (metis prod.collapse)

theorem stale_command_no_effect_witness:
  "fresh_command some_command some_service
    \<and> se_bus (snd (dispatch (\<lambda>b. True) (\<lambda>f. []) (Some (service_commands some_wires some_os)) some_command some_service)) = 1"
proof -
  have "se_bus (snd (dispatch (\<lambda>b. True) (\<lambda>f. []) (Some (service_commands some_wires some_os)) some_command some_service)) = 1"
    using some_command_valid [of "\<lambda>b. True"]
    by (simp add: dispatch_def routed_def service_commands_def app_call_defs with_item_def itemProxy_def
      some_command_def zero_command_def some_service_def App_New_def some_worker_def item_Activate_def
      item_invoke_def some_wires_def call_error_def)
  with stale_command_no_effect [of "\<lambda>b. True" "\<lambda>f. []" some_wires some_os some_command some_service]
  show ?thesis by (simp add: some_service_def)
qed

text \<open>
  C8: only the process behind the item is signalled. A \<open>Terminate\<close> that sends a signal sends
  one, while the service is up, to a worker's recorded process; at that moment the bus and
  \<open>/proc\<close> identify the item's owner as that very record (user, PID and start time), the process
  is alive, and it belongs to the user of the service.
\<close>

theorem terminate_signals_verified:
  assumes "se_signals (snd (Terminate fuel os key s)) \<noteq> se_signals s"
  shows "\<exists>w r. se_signals (snd (Terminate fuel os key s)) = se_signals s @ [r]
    \<and> gm_get (ap_workers (se_app s)) key = Some w \<and> wo_own w = Some r
    \<and> ap_up (se_app s) \<and> \<not> ap_closing (se_app s)
    \<and> Inspect (os_user os) (os_process os) (os_stat os) (ik_Owner (wo_key w)) = Inr r
    \<and> Alive (os_stat os) r \<and> own_UID r = os_uid os"
  using Terminate_signals [of fuel os key s]
proof
  assume "snd (Terminate fuel os key s) = s"
  with assms show ?thesis by simp
next
  assume "\<exists>w r. gm_get (ap_workers (se_app s)) key = Some w \<and> wo_own w = Some r \<and> ap_up (se_app s)
       \<and> \<not> ap_closing (se_app s)
       \<and> Inspect (os_user os) (os_process os) (os_stat os) (ik_Owner (wo_key w)) = Inr r
       \<and> own_UID r = os_uid os \<and> snd (Terminate fuel os key s) = s\<lparr>se_signals := se_signals s @ [r]\<rparr>"
  then obtain w r where w: "gm_get (ap_workers (se_app s)) key = Some w" "wo_own w = Some r"
    "ap_up (se_app s)" "\<not> ap_closing (se_app s)" "own_UID r = os_uid os"
    "Inspect (os_user os) (os_process os) (os_stat os) (ik_Owner (wo_key w)) = Inr r"
    "snd (Terminate fuel os key s) = s\<lparr>se_signals := se_signals s @ [r]\<rparr>" by (elim exE conjE)
  from Inspect_Alive [OF w(6)] w show ?thesis by (intro exI [of _ w] exI [of _ r]) simp
qed

lemma some_fields_plain:
  "\<forall>f\<in>set some_fields. f \<noteq> [] \<and> (\<forall>c\<in>set f. \<not> is_space c \<and> c \<noteq> CHR '')'')"
  "20 \<le> length some_fields" "some_fields ! 19 = ''7''"
  by (simp_all add: some_fields_def is_space_def nth_append)

lemma some_stat_start: "readStartTime (Some some_stat) = Some 7"
proof -
  have "readStartTime (Some some_stat) = ParseUint ''7''"
    unfolding some_stat_def by (subst readStartTime_line [OF some_fields_plain(1,2)]) (simp add: some_fields_plain)
  also have "\<dots> = Some 7" by (simp add: ParseUint_def is_digit_def digits_value_def byte_val_def)
  finally show ?thesis .
qed

lemma some_terminate:
  "se_signals (snd (Terminate terminate_fuel some_os some_key some_service)) = [some_record]"
proof -
  have "Inspect (os_user some_os) (os_process some_os) (os_stat some_os) (ik_Owner some_key) = Inr some_record"
    by (simp add: Inspect_def some_os_def some_key_def some_stat_start some_record_def)
  then show ?thesis
    by (simp add: Terminate_def some_service_def App_New_def some_worker_def reown_def Verify_def
      some_record_def SameUser_def Let_def) (simp add: some_os_def)
qed

theorem terminate_signals_verified_witness:
  "Alive (os_stat some_os) some_record \<and> own_UID some_record = os_uid some_os"
  using terminate_signals_verified [of terminate_fuel some_os some_key some_service] some_terminate
  by (auto simp: some_service_def)



end
