(* ===== verification/App_Properties.thy ===== *)
theory App_Properties
  imports App_Owner App_Faults
begin

text \<open>
  Properties of the wiring: who owns the readers that run, what is left after a shutdown and after
  an item has been withdrawn.
\<close>

section \<open>An example: one item comes and goes\<close>

definition plain_answer :: answer where
  "plain_answer = \<lparr>an_start = True, an_identity = Inl ErrUnavailable\<rparr>"

definition plain_worker :: "item_key \<Rightarrow> worker" where
  "plain_worker k = \<lparr>wo_key = k, wo_item = 0, wo_menu = None, wo_menuPath = [], wo_own = None\<rparr>"

definition live_app :: "item_key \<Rightarrow> app" where
  "live_app k = \<lparr>ap_up = True, ap_closing = False, ap_workers = [(k, plain_worker k)],
     ap_lives = (\<lambda>p. fresh_life)(0 := \<lparr>pl_started = True, pl_closed = False, pl_watching = True\<rparr>),
     ap_next = 1, ap_log = [CAdd k]\<rparr>"

definition done_app :: "item_key \<Rightarrow> bool \<Rightarrow> app" where
  "done_app k shut = \<lparr>ap_up = \<not> shut, ap_closing = shut, ap_workers = [],
     ap_lives = (\<lambda>p. fresh_life)(0 := \<lparr>pl_started = True, pl_closed = True, pl_watching = False\<rparr>),
     ap_next = 1, ap_log = CAdd k # (if shut then [] else [CRemove k])\<rparr>"

lemma live_app_run: "app_run uid {k} {} (live_app k) []"
proof -
  let ?up = "App_New\<lparr>ap_up := True\<rparr>"
  let ?in = "?up\<lparr>ap_next := 1, ap_lives := \<lambda>p. fresh_life, ap_log := [CAdd k], ap_workers := [(k, plain_worker k)]\<rparr>"
  have "app_run uid {k} {} ?up [TAdded k]"
    using app_run.added [OF app_run.starts, of ?up k uid] by (simp add: app_Start_def App_New_def)
  from app_run_step [OF this, of plain_answer "[TAdmit k]"] have "app_run uid {k} {} ?up [TAdmit k]"
    by (simp add: App_New_def)
  from app_run_step [OF this, of plain_answer "[TInsert k 0]"
      "?up\<lparr>ap_next := 1, ap_lives := \<lambda>p. fresh_life, ap_log := [CAdd k]\<rparr>"]
  have "app_run uid {k} {} (?up\<lparr>ap_next := 1, ap_lives := \<lambda>p. fresh_life, ap_log := [CAdd k]\<rparr>) [TInsert k 0]"
    by (simp add: App_New_def step_defs fun_upd_idem)
  from app_run_step [OF this, of plain_answer "[TStart k 0, TInspect k 0]" ?in]
  have "app_run uid {k} {} ?in [TStart k 0, TInspect k 0]"
    by (simp add: App_New_def insert_worker_def plain_worker_def Let_def)
  from app_run_step [OF this, of plain_answer "[]" "live_app k"]
  have "app_run uid {k} {} (live_app k) [TInspect k 0]"
    by (simp add: App_New_def start_proxy_def life_Start_def fresh_life_def live_app_def plain_answer_def)
  from app_run_step [OF this, of plain_answer "[]" "live_app k"]
  show ?thesis
    by (simp add: inspectOwnership_def live_app_def plain_answer_def plain_worker_def)
qed

lemma gone_app_run: "app_run uid {k} {k} (done_app k False) []"
proof -
  from app_run.removed [OF live_app_run, of k k uid]
  have "app_run uid {k} {k} (live_app k) [TDrop k]" by simp
  from app_run_step [OF this, of plain_answer "[TCloses [0] (Some k)]" "(live_app k)\<lparr>ap_workers := []\<rparr>"]
  have "app_run uid {k} {k} ((live_app k)\<lparr>ap_workers := []\<rparr>) [TCloses [0] (Some k)]"
    by (simp add: dropWorker_def live_app_def worker_proxies_def plain_worker_def)
  from app_run_step [OF this, of plain_answer "[TCloses [] (Some k)]" "(done_app k False)\<lparr>ap_log := [CAdd k]\<rparr>"]
  have "app_run uid {k} {k} ((done_app k False)\<lparr>ap_log := [CAdd k]\<rparr>) [TCloses [] (Some k)]"
    by (simp add: close_proxy_def live_app_def done_app_def life_Close_def)
  from app_run_step [OF this, of plain_answer "[]" "done_app k False"] show ?thesis
    by (simp add: submit_owner_def done_app_def)
qed

lemma shut_app_run: "app_run uid {k} {} (done_app k True) []"
proof -
  from app_run.shuts [OF live_app_run, of TShut uid k]
  have "app_run uid {k} {} (live_app k) [TShut]" by simp
  from app_run_step [OF this, of plain_answer "[TUnwind]" "(live_app k)\<lparr>ap_closing := True\<rparr>"]
  have "app_run uid {k} {} ((live_app k)\<lparr>ap_closing := True\<rparr>) [TUnwind]" by (simp add: live_app_def)
  from app_run_step [OF this, of plain_answer "[TStop]" "(live_app k)\<lparr>ap_up := False, ap_closing := True\<rparr>"]
  have "app_run uid {k} {} ((live_app k)\<lparr>ap_up := False, ap_closing := True\<rparr>) [TStop]" by (simp add: live_app_def)
  from app_run_step [OF this, of plain_answer "[TCloses [0] None]"
      "(live_app k)\<lparr>ap_up := False, ap_closing := True, ap_workers := []\<rparr>"]
  have "app_run uid {k} {} ((live_app k)\<lparr>ap_up := False, ap_closing := True, ap_workers := []\<rparr>) [TCloses [0] None]"
    by (simp add: stopWorkers_def live_app_def worker_proxies_def plain_worker_def)
  from app_run_step [OF this, of plain_answer "[TCloses [] None]" "done_app k True"]
  have "app_run uid {k} {} (done_app k True) [TCloses [] None]"
    by (simp add: close_proxy_def live_app_def done_app_def life_Close_def)
  from app_run_step [OF this, of plain_answer "[]" "done_app k True"] show ?thesis by simp
qed

section \<open>Readers\<close>





section \<open>Withdrawn items\<close>

text \<open>
  A withdrawn item is forgotten. Once the watcher has withdrawn a generation whose announcement
  had been handled, and all handlers are done, there is no worker for it and the state owner does not
  hold it, whatever presenters attached and detached in between.
\<close>

theorem withdrawn_forgotten:
  assumes "app_run uid seen gone a []" and "k \<in> gone" and "\<not> ap_closing a"
    and "filter from_app cs = ap_log a" and "owner_cmd.CClose \<notin> set cs"
  shows "gm_get (ap_workers a) k = None
    \<and> current (fst (owner_run mar send cs (Owner_Start, w))) k = None"
  using gone_forgotten [OF assms(1-3)] current_admitted [OF assms(5)] admitted_filter [of k cs] assms(4)
  by metis

theorem withdrawn_forgotten_witness:
  "current (fst (owner_run (\<lambda>p. None) (\<lambda>i e w. (False, w)) [CAdd zero_key, CAttach 3, CRemove zero_key]
      (Owner_Start, ()))) zero_key = None"
  by (rule conjunct2 [OF withdrawn_forgotten [OF gone_app_run [of 0 zero_key]]])
    (simp_all add: done_app_def from_app_def)

end
