(* ===== verification/Watcher_Attach.thy ===== *)
theory Watcher_Attach
  imports Watcher_Run Bus_Rules
begin

text \<open>
  The client of a foreign watcher from its attachment to its end (\<open>client.attach\<close>, \<open>pump\<close> and
  \<open>close\<close> of \<open>internal/watcher/attach.go\<close>), on the bus connection it shares with the readers.
  \<open>attach\<close> runs on the goroutine of \<open>Run\<close>, beside the pump that it starts halfway; each of its bus
  calls is a step, and so is each signal. What is told to the observer is the list \<open>told\<close>.
\<close>

section \<open>Names and rules\<close>

definition WatcherInterface :: bytes where
  [const_defs]: "WatcherInterface = ''org.kde.StatusNotifierWatcher''"

definition HostNamePrefix :: bytes where
  [const_defs]: "HostNamePrefix = ''org.kde.StatusNotifierHost-''"

text \<open>The names the bus gave the connection, and the process number in decimal.\<close>

definition HostName :: "bytes list option \<Rightarrow> bytes \<Rightarrow> bytes" where
  "HostName names pid =
    (case names of Some (name # rest) \<Rightarrow> name | _ \<Rightarrow> HostNamePrefix @ pid)"

fun Mode_String :: "Mode \<Rightarrow> bytes" where
  "Mode_String ModeOwner = ''owner''"
| "Mode_String ModeAttached = ''attached''"
| "Mode_String ModeStopped = ''stopped''"

definition watcherSignalMatches :: match_rule where
  "watcherSignalMatches =
    \<lparr>mr_sender = BusName, mr_path = None, mr_interface = Some WatcherInterface,
     mr_member = None, mr_arg0 = None\<rparr>"

definition nameOwnerMatch :: match_rule where
  "nameOwnerMatch =
    \<lparr>mr_sender = ''org.freedesktop.DBus'', mr_path = None, mr_interface = Some ''org.freedesktop.DBus'',
     mr_member = Some ''NameOwnerChanged'', mr_arg0 = None\<rparr>"

section \<open>Attaching\<close>

datatype client_fault = NoWatcher | RegistrationsUnwatched | OwnershipUnwatched
  | HostRefused bytes | ItemsUnread

text \<open>How far \<open>attach\<close> has come; \<open>Entering\<close> holds the entries still to be added.\<close>

datatype attach_phase = Unattached | Hosting bytes | Asking | Entering "bytes list" | Established
  | Refused client_fault

record attachment =
  am_phase :: attach_phase
  am_pump :: pump_state
  am_closer :: closer
  am_client :: client

definition new_attachment :: attachment where
  "new_attachment = \<lparr>am_phase = Unattached, am_pump = NoPump, am_closer = NotClosed,
     am_client = newClient\<rparr>"

text \<open>Up to the start of the pump: \<open>owner\<close> is the watcher's owner, if the bus knows one.\<close>

definition attach_begin ::
  "bytes option \<Rightarrow> (match_rule \<Rightarrow> bool) \<Rightarrow> nat \<Rightarrow> attachment \<times> wire \<Rightarrow> attachment \<times> wire" where
  "attach_begin owner granted self s =
    (case s of (m, b) \<Rightarrow>
     case owner of None \<Rightarrow> (m\<lparr>am_phase := Refused NoWatcher\<rparr>, b)
     | Some name \<Rightarrow>
         case add_matches granted [watcherSignalMatches] b of
           (True, b) \<Rightarrow> (m\<lparr>am_phase := Refused RegistrationsUnwatched\<rparr>, b)
         | (False, b) \<Rightarrow>
             (case add_matches granted [nameOwnerMatch] b of
               (True, b) \<Rightarrow> (m\<lparr>am_phase := Refused OwnershipUnwatched\<rparr>, removeMatches [watcherSignalMatches] b)
             | (False, b) \<Rightarrow>
                 (m\<lparr>am_phase := Hosting name, am_pump := Pumping,
                    am_client := (am_client m)\<lparr>cl_attached := True\<rparr>\<rparr>,
                  b\<lparr>wr_channels := insert self (wr_channels b)\<rparr>)))"

text \<open>The call that registers the host, and the one that reads the items: a value that is no list of
  strings counts as none.\<close>

definition attach_host :: "bool \<Rightarrow> bytes \<Rightarrow> attachment \<Rightarrow> attachment" where
  "attach_host ok name m = m\<lparr>am_phase := (if ok then Asking else Refused (HostRefused name))\<rparr>"

definition attach_read :: "bytes list option option \<Rightarrow> attachment \<Rightarrow> attachment" where
  "attach_read reply m =
    m\<lparr>am_phase := (case reply of
        None \<Rightarrow> Refused ItemsUnread
      | Some entries \<Rightarrow> Entering (case entries of None \<Rightarrow> [] | Some es \<Rightarrow> es))\<rparr>"

definition attach_enter ::
  "(bytes \<Rightarrow> bool) \<Rightarrow> resolver \<Rightarrow> bytes \<Rightarrow> bytes list \<Rightarrow> attachment \<Rightarrow> registry_event list \<times> attachment" where
  "attach_enter path_valid resolve entry entries m =
    (let (es, c) = client_add path_valid resolve entry (am_client m)
     in (es, m\<lparr>am_phase := Entering entries, am_client := c\<rparr>))"

text \<open>One signal on the pump.\<close>

definition attach_pump ::
  "(bytes \<Rightarrow> bool) \<Rightarrow> resolver \<Rightarrow> dsignal option \<Rightarrow> attachment \<Rightarrow> registry_event list \<times> attachment" where
  "attach_pump path_valid resolve sg m =
    (let (es, c) = client_handle path_valid resolve sg (am_client m) in (es, m\<lparr>am_client := c\<rparr>))"

text \<open>\<open>close\<close> up to its wait for the pump, and from there on.\<close>

definition attach_close :: "attachment \<Rightarrow> attachment" where
  "attach_close m =
    (if cl_attached (am_client m)
     then m\<lparr>am_client := (am_client m)\<lparr>cl_attached := False\<rparr>, am_closer := JoinPump\<rparr>
     else m\<lparr>am_closer := ClosedEarly\<rparr>)"

definition attach_clean ::
  "(item_key list \<Rightarrow> item_key list) \<Rightarrow> nat \<Rightarrow> attachment \<times> wire \<Rightarrow> registry_event list \<times> attachment \<times> wire" where
  "attach_clean order self s =
    (case s of (m, b) \<Rightarrow>
     let b = b\<lparr>wr_channels := wr_channels b - {self}\<rparr>;
         b = removeMatches [nameOwnerMatch] (removeMatches [watcherSignalMatches] b);
         (keys, c) = drain order (am_client m)
     in (map ItemRemoved keys, m\<lparr>am_client := c, am_closer := ClosedDone\<rparr>, b))"

section \<open>Everything that can happen\<close>

text \<open>
  \<open>base\<close> is what the other users of the connection hold. They come and go, and remove only what they
  hold; \<open>b\<close> is the connection. The pump ends when \<open>close\<close> asks it to, or the connection is lost.
\<close>

inductive attach_run ::
  "(bytes \<Rightarrow> bool) \<Rightarrow> nat \<Rightarrow> wire \<Rightarrow> attachment \<Rightarrow> wire \<Rightarrow> registry_event list \<Rightarrow> bool"
  for path_valid self where
  opens: "self \<notin> wr_channels b \<Longrightarrow> attach_run path_valid self b new_attachment b []"
| begins: "attach_run path_valid self base m b told \<Longrightarrow> am_phase m = Unattached \<Longrightarrow>
    attach_begin owner granted self (m, b) = (m', b') \<Longrightarrow> attach_run path_valid self base m' b' told"
| hosts: "attach_run path_valid self base m b told \<Longrightarrow> am_phase m = Hosting name \<Longrightarrow>
    attach_run path_valid self base (attach_host ok name m) b told"
| reads: "attach_run path_valid self base m b told \<Longrightarrow> am_phase m = Asking \<Longrightarrow>
    attach_run path_valid self base (attach_read reply m) b told"
| enters: "attach_run path_valid self base m b told \<Longrightarrow> am_phase m = Entering (entry # entries) \<Longrightarrow>
    attach_enter path_valid resolve entry entries m = (es, m') \<Longrightarrow>
    attach_run path_valid self base m' b (told @ es)"
| entered: "attach_run path_valid self base m b told \<Longrightarrow> am_phase m = Entering [] \<Longrightarrow>
    attach_run path_valid self base (m\<lparr>am_phase := Established\<rparr>) b told"
| signals: "attach_run path_valid self base m b told \<Longrightarrow> am_pump m = Pumping \<Longrightarrow>
    attach_pump path_valid resolve sg m = (es, m') \<Longrightarrow> attach_run path_valid self base m' b (told @ es)"
| pump_ends: "attach_run path_valid self base m b told \<Longrightarrow> am_pump m = Pumping \<Longrightarrow>
    attach_run path_valid self base (m\<lparr>am_pump := PumpEnded\<rparr>) b told"
| closes: "attach_run path_valid self base m b told \<Longrightarrow> am_closer m = NotClosed \<Longrightarrow>
    am_phase m = Established \<or> am_phase m = Refused e \<Longrightarrow>
    attach_run path_valid self base (attach_close m) b told"
| joins: "attach_run path_valid self base m b told \<Longrightarrow> am_closer m = JoinPump \<Longrightarrow> am_pump m = PumpEnded \<Longrightarrow>
    attach_run path_valid self base (m\<lparr>am_closer := Cleaning\<rparr>) b told"
| cleans: "attach_run path_valid self base m b told \<Longrightarrow> am_closer m = Cleaning \<Longrightarrow> rearranges order \<Longrightarrow>
    attach_clean order self (m, b) = (es, m', b') \<Longrightarrow> attach_run path_valid self base m' b' (told @ es)"
| others: "attach_run path_valid self base m b told \<Longrightarrow> gone \<subseteq># wr_rules base \<Longrightarrow> self \<notin> channels \<Longrightarrow>
    attach_run path_valid self \<lparr>wr_rules = wr_rules base - gone + new, wr_channels = channels\<rparr> m
      \<lparr>wr_rules = wr_rules b - gone + new, wr_channels = channels \<union> (wr_channels b \<inter> {self})\<rparr> told"

section \<open>What it holds, and what it has told\<close>

definition holding :: "attachment \<Rightarrow> bool" where
  "holding m \<longleftrightarrow> cl_attached (am_client m) \<or> am_closer m \<in> {JoinPump, Cleaning}"

text \<open>Which phases of \<open>attach\<close>, the pump and \<open>close\<close> go together.\<close>

definition attach_ok :: "attach_phase \<Rightarrow> pump_state \<Rightarrow> closer \<Rightarrow> bool \<Rightarrow> bool \<Rightarrow> bool" where
  "attach_ok phase pump closer attached bare \<longleftrightarrow>
    (case closer of
       NotClosed \<Rightarrow>
         if attached then pump \<noteq> NoPump \<and> phase \<noteq> Unattached
         else pump = NoPump \<and> bare \<and> (case phase of Unattached \<Rightarrow> True | Refused e \<Rightarrow> True | _ \<Rightarrow> False)
     | JoinPump \<Rightarrow> \<not> attached \<and> pump \<noteq> NoPump \<and> (case phase of Established \<Rightarrow> True | Refused e \<Rightarrow> True | _ \<Rightarrow> False)
     | Cleaning \<Rightarrow> \<not> attached \<and> pump = PumpEnded \<and> (case phase of Established \<Rightarrow> True | Refused e \<Rightarrow> True | _ \<Rightarrow> False)
     | ClosedDone \<Rightarrow> \<not> attached \<and> pump = PumpEnded \<and> bare \<and> (case phase of Established \<Rightarrow> True | Refused e \<Rightarrow> True | _ \<Rightarrow> False)
     | ClosedEarly \<Rightarrow> \<not> attached \<and> pump = NoPump \<and> bare \<and> (case phase of Refused e \<Rightarrow> True | _ \<Rightarrow> False)
     | JoinLoop \<Rightarrow> False)"

definition phases_ok :: "attachment \<Rightarrow> bool" where
  "phases_ok m \<longleftrightarrow> attach_ok (am_phase m) (am_pump m) (am_closer m) (cl_attached (am_client m))
     (cl_items (am_client m) = [])"

lemma attach_ok_client:
  "attach_ok phase pump closer attached bare \<Longrightarrow> pump = Pumping \<Longrightarrow> attach_ok phase pump closer attached bare'"
  "attach_ok (Entering es) pump closer attached bare \<Longrightarrow> attach_ok (Entering fs) pump closer attached bare'"
  by (cases closer; simp add: attach_ok_def split: if_splits)+

definition wired :: "nat \<Rightarrow> wire \<Rightarrow> attachment \<Rightarrow> wire \<Rightarrow> bool" where
  "wired self base m b \<longleftrightarrow> self \<notin> wr_channels base
     \<and> wr_rules b = wr_rules base + (if holding m then {#watcherSignalMatches, nameOwnerMatch#} else {#})
     \<and> wr_channels b = wr_channels base \<union> (if holding m then {self} else {})"

definition truthful :: "client \<Rightarrow> registry_event list \<Rightarrow> bool" where
  "truthful c told \<longleftrightarrow> (length told + 1 < 2 ^ 64 \<longrightarrow>
     client_inv c \<and> unat (cl_generation c) \<le> length told
     \<and> (\<exists>ob. observe told new_observer = Some ob \<and> agrees ob (cl_items c) (cl_generation c)))"

lemma truthful_cong:
  "cl_items c' = cl_items c \<Longrightarrow> cl_generation c' = cl_generation c \<Longrightarrow> truthful c' told = truthful c told"
  by (simp add: truthful_def client_inv_def)

text \<open>Whatever \<open>client_told\<close> holds of keeps the observer in step, one announcement per generation.\<close>

lemma truthful_step:
  assumes "truthful c told" and "client_told c (es, c')"
    and "cl_generation c' = cl_generation c \<or> es \<noteq> []"
  shows "truthful c' (told @ es)"
  unfolding truthful_def
proof
  assume n: "length (told @ es) + 1 < 2 ^ 64"
  with assms(1) obtain ob where inv: "client_inv c" "unat (cl_generation c) \<le> length told"
    "observe told new_observer = Some ob" "agrees ob (cl_items c) (cl_generation c)"
    by (auto simp: truthful_def)
  with n have "cl_generation c \<noteq> - 1" using unat64_max by auto
  with assms(2) inv obtain ob' where told: "client_inv c'" "observe es ob = Some ob'"
    "agrees ob' (cl_items c') (cl_generation c')"
    and gen: "cl_generation c' = cl_generation c \<or> cl_generation c' = cl_generation c + 1"
    unfolding client_told_def by auto
  have "unat (cl_generation c + 1) \<le> Suc (unat (cl_generation c))" by (simp add: unat_word_ariths)
  then have "unat (cl_generation c') \<le> length (told @ es)"
    using gen assms(3) inv(2) by (cases es) auto
  with told inv(3) show "client_inv c' \<and> unat (cl_generation c') \<le> length (told @ es)
      \<and> (\<exists>ob. observe (told @ es) new_observer = Some ob \<and> agrees ob (cl_items c') (cl_generation c'))"
    by (simp add: observe_append)
qed

text \<open>A new generation is announced, and only \<open>attach\<close> and \<open>close\<close> change \<open>attached\<close>.\<close>

definition announces :: "client \<Rightarrow> registry_event list \<times> client \<Rightarrow> bool" where
  "announces c r \<longleftrightarrow> cl_attached (snd r) = cl_attached c
     \<and> (cl_generation (snd r) = cl_generation c \<or> fst r \<noteq> [])"

lemma announces_add: "announces c (client_add pv resolve entry c)"
  by (auto simp: announces_def client_add_def Let_def split: sum.splits)

lemma announces_remove: "announces c (client_remove pv resolve entry c)"
  by (auto simp: announces_def client_remove_def Let_def split: sum.splits option.splits)

lemma announces_handle: "announces c (client_handle pv resolve sg c)"
proof -
  have "announces c ([], c)" "announces c ([], c\<lparr>cl_gone := True\<rparr>)" by (simp_all add: announces_def)
  then show ?thesis
    by (auto simp: client_handle_def Let_def announces_add announces_remove
      split: option.split list.split dval.split)
qed

text \<open>A step of the client, on either goroutine.\<close>

lemma truthful_enter:
  assumes "truthful (am_client m) told" and "attach_enter pv resolve entry entries m = (es, m')"
  shows "truthful (am_client m') (told @ es)"
  using truthful_step [OF assms(1), of es "am_client m'"] assms(2)
    client_told_add [of "am_client m" pv resolve entry] announces_add [of "am_client m" pv resolve entry]
  by (auto simp: attach_enter_def case_prod_beta announces_def)

lemma truthful_pump:
  assumes "truthful (am_client m) told" and "attach_pump pv resolve sg m = (es, m')"
  shows "truthful (am_client m') (told @ es)"
  using truthful_step [OF assms(1), of es "am_client m'"] assms(2)
    client_told_handle [of "am_client m" pv resolve sg] announces_handle [of "am_client m" pv resolve sg]
  by (auto simp: attach_pump_def case_prod_beta announces_def)

lemma truthful_clean:
  assumes "truthful (am_client m) told" and "rearranges order" and "attach_clean order self (m, b) = (es, m', b')"
  shows "truthful (am_client m') (told @ es)"
proof -
  let ?c = "(am_client m)\<lparr>cl_attached := True\<rparr>"
  have "truthful ?c told" using assms(1) by (subst truthful_cong [of _ "am_client m"]) simp_all
  moreover have "client_told ?c (es, (am_client m)\<lparr>cl_attached := False, cl_items := []\<rparr>)"
    using client_told_close [OF assms(2), of ?c] assms(3)
    by (simp add: client_close_def drain_def attach_clean_def Let_def)
  ultimately have "truthful ((am_client m)\<lparr>cl_attached := False, cl_items := []\<rparr>) (told @ es)"
    by (rule truthful_step) simp
  with assms(3) show ?thesis
    by (subst (asm) truthful_cong [of _ "am_client m'"]) (auto simp: attach_clean_def drain_def Let_def)
qed

definition attach_inv :: "nat \<Rightarrow> wire \<Rightarrow> attachment \<Rightarrow> wire \<Rightarrow> registry_event list \<Rightarrow> bool" where
  "attach_inv self base m b told \<longleftrightarrow> phases_ok m \<and> wired self base m b \<and> truthful (am_client m) told"

lemma attach_begin_inv:
  assumes "attach_inv self base m b told" and "am_phase m = Unattached"
    and "attach_begin owner granted self (m, b) = (m', b')"
  shows "attach_inv self base m' b' told"
proof -
  from assms(1,2) have m: "am_closer m = NotClosed" "\<not> cl_attached (am_client m)" "am_pump m = NoPump"
    "cl_items (am_client m) = []"
    by (auto simp: attach_inv_def phases_ok_def attach_ok_def split: closer.splits if_splits)
  consider e where "m' = m\<lparr>am_phase := Refused e\<rparr>" "b' = b"
    | name where "m' = m\<lparr>am_phase := Hosting name, am_pump := Pumping,
          am_client := (am_client m)\<lparr>cl_attached := True\<rparr>\<rparr>"
        "b' = \<lparr>wr_rules = wr_rules b + {#watcherSignalMatches, nameOwnerMatch#},
            wr_channels = insert self (wr_channels b)\<rparr>"
    using assms(3) by (auto simp: attach_begin_def split: option.splits if_splits)
  then show ?thesis
  proof cases
    case 1
    with assms(1) m show ?thesis
      by (simp add: attach_inv_def phases_ok_def attach_ok_def wired_def holding_def)
  next
    case 2
    have "truthful ((am_client m)\<lparr>cl_attached := True\<rparr>) told"
      using assms(1) by (subst truthful_cong [of _ "am_client m"]) (simp_all add: attach_inv_def)
    with 2 assms(1) m show ?thesis
      by (auto simp: attach_inv_def phases_ok_def attach_ok_def wired_def holding_def)
  qed
qed

text \<open>Steps that leave the connection alone.\<close>

lemma wired_same: "wired self base m b \<Longrightarrow> holding m' = holding m \<Longrightarrow> wired self base m' b"
  by (simp add: wired_def)

lemma attach_client_inv:
  assumes "attach_inv self base m b told" and "am_pump m = Pumping \<or> am_phase m = Entering entries"
    and "m' = m\<lparr>am_client := c\<rparr> \<or> m' = m\<lparr>am_phase := Entering rest, am_client := c\<rparr> \<and> am_phase m = Entering entries"
    and "cl_attached c = cl_attached (am_client m)" and "truthful c told'"
  shows "attach_inv self base m' b told'"
proof -
  have "holding m' = holding m" using assms(3,4) by (auto simp: holding_def)
  moreover have "phases_ok m'"
    using assms(1-4) by (auto simp: attach_inv_def phases_ok_def intro: attach_ok_client)
  ultimately show ?thesis
    using assms(1,3,5) wired_same by (auto simp: attach_inv_def)
qed

lemma attach_run_inv: "attach_run path_valid self base m b told \<Longrightarrow> attach_inv self base m b told"
proof (induction rule: attach_run.induct)
  case (opens b)
  have "truthful newClient []"
    by (simp add: truthful_def client_inv_def registry_inv_def newClient_def agrees_def new_observer_def gm_ok_def)
  with opens show ?case
    by (simp add: attach_inv_def phases_ok_def attach_ok_def wired_def holding_def new_attachment_def newClient_def)
next
  case (begins base m b told owner granted m' b')
  show ?case by (rule attach_begin_inv [OF begins(4,2,3)])
next
  case (hosts base m b told name ok)
  then show ?case
    by (simp add: attach_inv_def attach_host_def phases_ok_def holding_def wired_def attach_ok_def
      split: closer.splits if_splits)
next
  case (reads base m b told reply)
  then show ?case
    by (simp add: attach_inv_def attach_read_def phases_ok_def holding_def wired_def attach_ok_def
      split: closer.splits if_splits option.split)
next
  case (enters base m b told entry entries resolve es m')
  have "truthful (am_client m') (told @ es)"
    using truthful_enter [OF _ enters(3)] enters(4) by (simp add: attach_inv_def)
  moreover have "m' = m\<lparr>am_phase := Entering entries, am_client := am_client m'\<rparr>"
    "cl_attached (am_client m') = cl_attached (am_client m)"
    using enters(3) announces_add [of "am_client m" path_valid resolve entry]
    by (auto simp: attach_enter_def case_prod_beta announces_def)
  ultimately show ?case
    using attach_client_inv [OF enters(4), of "entry # entries" m' "am_client m'" entries "told @ es"]
      enters(2) by simp
next
  case (entered base m b told)
  then show ?case
    by (simp add: attach_inv_def phases_ok_def holding_def wired_def attach_ok_def split: closer.splits if_splits)
next
  case (signals base m b told resolve sg es m')
  have "truthful (am_client m') (told @ es)"
    using truthful_pump [OF _ signals(3)] signals(4) by (simp add: attach_inv_def)
  moreover have "m' = m\<lparr>am_client := am_client m'\<rparr>"
    "cl_attached (am_client m') = cl_attached (am_client m)"
    using signals(3) announces_handle [of "am_client m" path_valid resolve sg]
    by (auto simp: attach_pump_def case_prod_beta announces_def)
  ultimately show ?case
    using attach_client_inv [OF signals(4), of _ m' "am_client m'" _ "told @ es"] signals(2) by simp
next
  case (pump_ends base m b told)
  then show ?case
    by (simp add: attach_inv_def phases_ok_def holding_def wired_def attach_ok_def split: closer.splits if_splits)
next
  case (closes base m b told e)
  have "truthful ((am_client m)\<lparr>cl_attached := False\<rparr>) told"
    using closes(4) by (subst truthful_cong [of _ "am_client m"]) (simp_all add: attach_inv_def)
  with closes show ?case
    by (auto simp: attach_inv_def attach_close_def phases_ok_def holding_def wired_def attach_ok_def)
next
  case (joins base m b told)
  then show ?case
    by (simp add: attach_inv_def phases_ok_def holding_def wired_def attach_ok_def split: closer.splits if_splits)
next
  case (cleans base m b told order es m' b')
  have "truthful (am_client m') (told @ es)"
    using truthful_clean [OF _ cleans(3,4)] cleans(5) by (simp add: attach_inv_def)
  moreover have "m' = m\<lparr>am_client := (am_client m)\<lparr>cl_items := []\<rparr>, am_closer := ClosedDone\<rparr>"
    "b' = \<lparr>wr_rules = wr_rules b - {#watcherSignalMatches, nameOwnerMatch#}, wr_channels = wr_channels b - {self}\<rparr>"
    using cleans(4) by (auto simp: attach_clean_def drain_def Let_def add_mset_commute)
  ultimately show ?case
    using cleans(2,5)
    by (auto simp: attach_inv_def phases_ok_def holding_def wired_def attach_ok_def)
next
  case (others base m b told gone channels new)
  define held where "held = (if holding m then {#watcherSignalMatches, nameOwnerMatch#} else {#})"
  have b: "wr_rules b = wr_rules base + held" "self \<notin> wr_channels base"
    "wr_channels b = wr_channels base \<union> (if holding m then {self} else {})"
    using others(4) by (simp_all add: attach_inv_def wired_def held_def)
  have "wr_rules base + held - gone = wr_rules base - gone + held"
    using others(2) by (simp add: subset_mset.add_diff_assoc2)
  then have "wr_rules b - gone + new = wr_rules base - gone + new + held"
    unfolding b(1) by (simp add: ac_simps)
  then have "wired self \<lparr>wr_rules = wr_rules base - gone + new, wr_channels = channels\<rparr> m
      \<lparr>wr_rules = wr_rules b - gone + new, wr_channels = channels \<union> (wr_channels b \<inter> {self})\<rparr>"
    using others(3) b(2,3) unfolding wired_def held_def [symmetric] by auto
  with others(4) show ?case by (simp add: attach_inv_def)
qed

section \<open>Announcements of two goroutines\<close>

text \<open>
  Both \<open>attach\<close> and the pump announce after they have released the lock. \<open>regs\<close> holds what \<open>attach\<close>
  has still to announce before it adds its next entry, \<open>sigs\<close> what the pump has.
\<close>

inductive client_race ::
  "(bytes \<Rightarrow> bool) \<Rightarrow> client \<Rightarrow> registry_event list \<Rightarrow> registry_event list \<Rightarrow> registry_event list \<Rightarrow> bool"
  for path_valid where
  opens: "client_race path_valid (newClient\<lparr>cl_attached := True\<rparr>) [] [] []"
| adds: "client_race path_valid c [] sigs told \<Longrightarrow> client_add path_valid resolve entry c = (es, c') \<Longrightarrow>
    client_race path_valid c' es sigs told"
| handles: "client_race path_valid c regs [] told \<Longrightarrow> client_handle path_valid resolve sg c = (es, c') \<Longrightarrow>
    client_race path_valid c' regs es told"
| tells_reg: "client_race path_valid c (e # regs) sigs told \<Longrightarrow> client_race path_valid c regs sigs (told @ [e])"
| tells_sig: "client_race path_valid c regs (e # sigs) told \<Longrightarrow> client_race path_valid c regs sigs (told @ [e])"

definition registered :: "bytes \<Rightarrow> dsignal" where
  "registered entry = \<lparr>sg_Sender = BusName, sg_Path = ''/StatusNotifierWatcher'',
     sg_Name = SignalRegistered, sg_Body = [DString entry]\<rparr>"

text \<open>
  An item that registers again while \<open>attach\<close> is between entering it and announcing it: the observer
  learns of the new generation first and of the old one last, although the client holds the new.
\<close>

lemma client_race_overtakes:
  assumes "parseRegisteredItem path_valid resolve entry = Inr a"
    and "k = (\<lambda>n. \<lparr>ik_Owner = ad_owner a, ik_ObjectPath = ad_path a, ik_Generation = n\<rparr>)"
  shows "\<exists>c. client_race path_valid c [] [] [ItemRemoved (k 1), ItemAdded (k 2), ItemAdded (k 1)]
    \<and> cl_items c = [(a, k 2)]"
proof -
  let ?c0 = "newClient\<lparr>cl_attached := True\<rparr>"
  let ?c1 = "?c0\<lparr>cl_generation := 1, cl_items := [(a, k 1)]\<rparr>"
  let ?c2 = "?c1\<lparr>cl_generation := 2, cl_items := [(a, k 2)]\<rparr>"
  have "client_add path_valid resolve entry ?c0 = ([ItemAdded (k 1)], ?c1)"
    using assms by (simp add: client_add_def newClient_def Let_def)
  from client_race.adds [OF client_race.opens this]
  have 1: "client_race path_valid ?c1 [ItemAdded (k 1)] [] []" .
  have "client_handle path_valid resolve (Some (registered entry)) ?c1 =
      ([ItemRemoved (k 1), ItemAdded (k 2)], ?c2)"
    using assms by (simp add: client_handle_def registered_def const_defs client_add_def newClient_def Let_def)
  from client_race.handles [OF 1 this]
  have "client_race path_valid ?c2 [ItemAdded (k 1)] [ItemRemoved (k 1), ItemAdded (k 2)] []" .
  from client_race.tells_reg [OF client_race.tells_sig [OF client_race.tells_sig [OF this]]]
  show ?thesis by (intro exI [of _ ?c2]) simp
qed

end
