(* ===== verification/Watcher_Mirror.thy ===== *)
theory Watcher_Mirror
  imports Watcher_Attach
begin

text \<open>
  Two instances of the service on one bus: one serves the watcher, the other attaches to it as a
  client. What the first emits on the bus (\<open>register\<close>, \<open>emitUnregistered\<close> of
  \<open>internal/watcher/server.go\<close>) is what the second's pump handles.
\<close>

section \<open>What the server emits\<close>

definition unregistered :: "bytes \<Rightarrow> dsignal" where
  "unregistered entry = \<lparr>sg_Sender = BusName, sg_Path = ''/StatusNotifierWatcher'',
     sg_Name = SignalUnregistered, sg_Body = [DString entry]\<rparr>"

text \<open>The signal after each call of the observer, which is the only other thing either does.\<close>

fun emit_event :: "registry_event \<Rightarrow> dsignal" where
  "emit_event (ItemAdded k) = registered (Address_String (addr_of k))"
| "emit_event (ItemRemoved k) = unregistered (Address_String (addr_of k))"

text \<open>A client that handles signals in the order in which they were sent.\<close>

fun hear :: "(bytes \<Rightarrow> bool) \<Rightarrow> resolver \<Rightarrow> dsignal list \<Rightarrow> client \<Rightarrow> client" where
  "hear path_valid resolve [] c = c"
| "hear path_valid resolve (sg # sgs) c =
    hear path_valid resolve sgs (snd (client_handle path_valid resolve (Some sg) c))"

section \<open>Addresses that survive the wire\<close>

definition printable :: "(bytes \<Rightarrow> bool) \<Rightarrow> address \<Rightarrow> bool" where
  "printable path_valid a \<longleftrightarrow> canonical path_valid a \<and> HasPrefix (ad_path a) ''/'' \<and> CHR ''/'' \<notin> set (ad_owner a)"

lemma printable_parse:
  "printable path_valid a \<Longrightarrow> parseRegisteredItem path_valid resolve (Address_String a) = Inr a"
  by (simp add: printable_def parse_Address_String)

fun event_addr :: "registry_event \<Rightarrow> address" where
  "event_addr (ItemAdded k) = addr_of k" | "event_addr (ItemRemoved k) = addr_of k"

text \<open>One signal moves the client's addresses as the event moves an observer's.\<close>

lemma hear_one:
  assumes "observe_one e ob = Some ob'" and "printable path_valid (event_addr e)"
    and "\<forall>a. (gm_get (cl_items c) a = None) = (gm_get (ob_live ob) a = None)"
  shows "(gm_get (cl_items (snd (client_handle path_valid resolve (Some (emit_event e)) c))) a = None)
    = (gm_get (ob_live ob') a = None)"
proof (cases e)
  case (ItemAdded k)
  with assms printable_parse [of path_valid "addr_of k"] show ?thesis
    by (auto simp: client_handle_def registered_def const_defs client_add_def Let_def gm_get_set gm_get_del
      split: if_splits)
next
  case (ItemRemoved k)
  with assms printable_parse [of path_valid "addr_of k"] show ?thesis
    by (auto simp: client_handle_def unregistered_def const_defs client_remove_def Let_def gm_get_del
      split: if_splits option.splits)
qed

lemma hear_events:
  "observe es ob = Some ob' \<Longrightarrow> \<forall>e\<in>set es. printable path_valid (event_addr e) \<Longrightarrow>
    \<forall>a. (gm_get (cl_items c) a = None) = (gm_get (ob_live ob) a = None) \<Longrightarrow>
    \<forall>a. (gm_get (cl_items (hear path_valid resolve (map emit_event es) c)) a = None)
      = (gm_get (ob_live ob') a = None)"
proof (induction es arbitrary: ob c)
  case Nil
  then show ?case by simp
next
  case (Cons e es)
  from Cons.prems(1) obtain ob1 where ob1: "observe_one e ob = Some ob1" "observe es ob1 = Some ob'"
    by (auto split: option.splits)
  have "printable path_valid (event_addr e)" using Cons.prems(2) by simp
  from hear_one [OF ob1(1) this Cons.prems(3)] Cons.IH [OF ob1(2)] Cons.prems(2) show ?case by simp
qed

text \<open>Reading the property enters every address in it.\<close>

lemma read_items:
  "\<forall>a\<in>set as. printable path_valid a \<Longrightarrow>
    (gm_get (cl_items (snd (add_all path_valid resolve (map Address_String as) c))) b = None)
      = (gm_get (cl_items c) b = None \<and> b \<notin> set as)"
proof (induction as arbitrary: c)
  case Nil
  then show ?case by simp
next
  case (Cons a as)
  have "(gm_get (cl_items (snd (client_add path_valid resolve (Address_String a) c))) b = None)
      = (gm_get (cl_items c) b = None \<and> b \<noteq> a)"
    using Cons.prems printable_parse [of path_valid a resolve]
    by (auto simp: client_add_def Let_def gm_get_set gm_get_del)
  with Cons show ?case by (auto simp: case_prod_beta)
qed

section \<open>The server keeps to such addresses\<close>

text \<open>Bus names contain no slash, and object paths begin with one.\<close>

fun named_op :: "server_op \<Rightarrow> bool" where
  "named_op (SRegister resolve sender arg) \<longleftrightarrow>
    CHR ''/'' \<notin> set sender \<and> (\<forall>n name. resolve n = Some name \<longrightarrow> CHR ''/'' \<notin> set name)"
| "named_op _ \<longleftrightarrow> True"

definition rooted_paths :: "(bytes \<Rightarrow> bool) \<Rightarrow> bool" where
  "rooted_paths path_valid \<longleftrightarrow> path_valid DefaultItemPath \<and> (\<forall>p. path_valid p \<longrightarrow> HasPrefix p ''/'')"

definition all_printable :: "(bytes \<Rightarrow> bool) \<Rightarrow> server \<Rightarrow> bool" where
  "all_printable path_valid s \<longleftrightarrow> (\<forall>a k. gm_get (sv_items s) a = Some k \<longrightarrow> printable path_valid a)"

lemma resolved_printable:
  assumes "resolveRegistration path_valid resolve sender arg = Inr a" and "rooted_paths path_valid"
    and "CHR ''/'' \<notin> set sender" and "\<forall>n name. resolve n = Some name \<longrightarrow> CHR ''/'' \<notin> set name"
  shows "printable path_valid a"
  using assms by (auto simp: resolveRegistration_def printable_def canonical_def rooted_paths_def
    split: if_splits option.splits)

lemma served_printable:
  assumes "all_printable path_valid s" and "server_inv s" and "server_fair c" and "named_op c"
    and "rooted_paths path_valid"
  shows "all_printable path_valid (snd (server_oper path_valid c s))
    \<and> (\<forall>e\<in>set (fst (server_oper path_valid c s)). printable path_valid (event_addr e))"
proof (cases c)
  case (SRegister resolve sender arg)
  show ?thesis
  proof (cases "resolveRegistration path_valid resolve sender arg")
    case (Inl e)
    with SRegister assms(1) show ?thesis by (simp add: register_def)
  next
    case (Inr a)
    have "printable path_valid a" using resolved_printable [OF Inr assms(5)] assms(4) SRegister by simp
    with SRegister Inr assms(1) show ?thesis
      by (auto simp: register_def register_locked_def Let_def all_printable_def addr_of_def gm_get_set
        split: if_splits)
  qed
next
  case (SSignal order sg)
  have ok: "gm_ok (sv_items s)" and at: "\<forall>a k. gm_get (sv_items s) a = Some k \<longrightarrow> addr_of k = a"
    using assms(2) by (auto simp: server_inv_def registry_inv_def)
  show ?thesis
  proof (cases rule: handle_owner_cases [of order sg s])
    case (unchanged lost)
    with SSignal assms(1) show ?thesis by (simp add: all_printable_def)
  next
    case (removed owner ks)
    let ?f = "filter (\<lambda>(a, k). ad_owner a = owner) (sv_items s)"
    have "mset ks = mset (map snd ?f)" using assms(3) SSignal removed(1) by (simp add: rearranges_def)
    from mset_eq_setD [OF this] have sets: "set ks = snd ` set ?f" by simp
    have "printable path_valid (addr_of k)" if k: "k \<in> set ks" for k
    proof -
      from k sets obtain a where "(a, k) \<in> set (sv_items s)" by auto
      with ok have "gm_get (sv_items s) a = Some k" by (simp add: gm_get_member)
      with at assms(1) show ?thesis by (simp add: all_printable_def)
    qed
    moreover have "all_printable path_valid (s\<lparr>sv_items := filter (\<lambda>(a, k). ad_owner a \<noteq> owner) (sv_items s)\<rparr>)"
      using assms(1) gm_get_filter [of "\<lambda>a. ad_owner a \<noteq> owner" "sv_items s"]
      by (simp add: all_printable_def)
    ultimately show ?thesis
      using SSignal removed(2) by (auto simp: all_printable_def Let_def)
  qed
qed (use assms(1) in \<open>simp add: all_printable_def registerHost_def Let_def\<close>)

lemma history_printable:
  "all_printable path_valid s \<Longrightarrow> server_inv s \<Longrightarrow> list_all server_fair cs \<Longrightarrow> list_all named_op cs \<Longrightarrow>
    rooted_paths path_valid \<Longrightarrow> unat (sv_generation s) + length cs < 2 ^ 64 \<Longrightarrow>
    all_printable path_valid (snd (served.history path_valid cs s))
    \<and> (\<forall>e\<in>set (fst (served.history path_valid cs s)). printable path_valid (event_addr e))"
proof (induction cs arbitrary: s)
  case Nil
  then show ?case by simp
next
  case (Cons c cs)
  let ?s = "snd (server_oper path_valid c s)"
  have nw: "sv_generation s \<noteq> - 1" using Cons.prems(6) unat64_max by auto
  have fair: "server_fair c" "named_op c" using Cons.prems(3,4) by simp_all
  have "unat (sv_generation s + 1) \<le> Suc (unat (sv_generation s))" by (simp add: unat_word_ariths)
  moreover have "sv_generation ?s = sv_generation s \<or> sv_generation ?s = sv_generation s + 1"
    by (rule served.one_generation)
  ultimately have "unat (sv_generation ?s) + length cs < 2 ^ 64" using Cons.prems(6) by auto
  moreover have "server_inv ?s" by (rule served.keeps [OF Cons.prems(2) fair(1) nw])
  moreover note served_printable [OF Cons.prems(1,2) fair Cons.prems(5)]
  ultimately show ?case using Cons.IH [of ?s] Cons.prems(3-5) by (simp add: case_prod_beta) blast
qed

text \<open>
  A client that has read the server's items as the property shows them, and then hears what the
  server emits, has the server's addresses.
\<close>

lemma mirror_from:
  assumes "server_inv s" and "all_printable path_valid s" and "list_all server_fair cs"
    and "list_all named_op cs" and "rooted_paths path_valid"
    and "unat (sv_generation s) + length cs < 2 ^ 64" and "cl_items c = []"
    and "es = fst (served.history path_valid cs s)" and "s' = snd (served.history path_valid cs s)"
  shows "(gm_get (cl_items (hear path_valid resolve (map emit_event es)
      (snd (add_all path_valid resolve (sv_propItems s) c)))) a = None) = (gm_get (sv_items s') a = None)"
proof -
  let ?as = "map fst (sort_key (\<lambda>(a, k). Address_String a) (sv_items s))"
  let ?c = "snd (add_all path_valid resolve (sv_propItems s) c)"
  have "sv_propItems s = sort (map (\<lambda>(a, k). Address_String a) (sv_items s))"
    using assms(1) by (simp add: server_inv_def)
  also have "\<dots> = map (\<lambda>(a, k). Address_String a) (sort_key (\<lambda>(a, k). Address_String a) (sv_items s))"
    by (rule properties_for_sort [OF _ sorted_sort_key]) simp
  also have "\<dots> = map Address_String ?as" by (simp add: case_prod_beta comp_def)
  finally have listed: "sv_propItems s = map Address_String ?as" .
  have ok: "gm_ok (sv_items s)" using assms(1) by (simp add: server_inv_def registry_inv_def)
  have keys: "set ?as = fst ` set (sv_items s)" by simp
  then have "\<forall>a\<in>set ?as. printable path_valid a"
    using assms(2) ok by (auto simp: all_printable_def gm_get_member)
  from read_items [OF this, of resolve c] listed assms(7) keys
  have start: "(gm_get (cl_items ?c) b = None) = (gm_get (sv_items s) b = None)" for b
    by (simp add: map_of_eq_None_iff)
  let ?ob = "\<lparr>ob_live = sv_items s, ob_top = sv_generation s\<rparr>"
  have "agrees ?ob (sv_items s) (sv_generation s)" by (simp add: agrees_def)
  moreover have "\<forall>c\<in>set cs. server_fair c" using assms(3) by (simp add: list_all_iff)
  ultimately obtain ob' where ob': "observe es ?ob = Some ob'" "agrees ob' (sv_items s') (sv_generation s')"
    using served.observer_agrees [OF assms(1) _ assms(6), of ?ob path_valid] assms(8,9) by auto
  have "\<forall>e\<in>set es. printable path_valid (event_addr e)"
    using history_printable [OF assms(2,1,3-6)] assms(8) by simp
  from hear_events [OF ob'(1) this, of ?c resolve] start ob'(2) show ?thesis by (simp add: agrees_def)
qed

lemma served_generation:
  "unat (sv_generation (snd (served.history path_valid cs s))) \<le> unat (sv_generation s) + length cs"
proof (induction cs arbitrary: s)
  case Nil
  then show ?case by simp
next
  case (Cons c cs)
  let ?s = "snd (server_oper path_valid c s)"
  have "sv_generation ?s = sv_generation s \<or> sv_generation ?s = sv_generation s + 1"
    by (rule served.one_generation)
  moreover have "unat (sv_generation s + 1) \<le> Suc (unat (sv_generation s))" by (simp add: unat_word_ariths)
  ultimately have "unat (sv_generation ?s) \<le> Suc (unat (sv_generation s))" by auto
  with Cons.IH [of ?s] show ?case by (simp add: case_prod_beta)
qed

end
