(* ===== verification/Watcher_Properties.thy ===== *)
theory Watcher_Properties
  imports Watcher_Mirror
begin

text \<open>
  Properties of the relationship with StatusNotifierWatcher: what observers are told, how
  registrations become addresses, how the loop backs off, and how serving starts and ends.
\<close>

section \<open>What an observer is told\<close>

lemma served_observed:
  assumes "list_all server_fair cs" and "length cs < 2 ^ 64"
  shows "\<exists>ob. observe (fst (served.history path_valid cs NewServer)) new_observer = Some ob
    \<and> agrees ob (sv_items (snd (served.history path_valid cs NewServer)))
        (sv_generation (snd (served.history path_valid cs NewServer)))
    \<and> server_inv (snd (served.history path_valid cs NewServer))"
proof -
  have "server_inv NewServer" by (simp add: server_inv_def registry_inv_def NewServer_def)
  moreover have "agrees new_observer (sv_items NewServer) (sv_generation NewServer)"
    by (simp add: agrees_def new_observer_def NewServer_def)
  moreover have "\<forall>c\<in>set cs. server_fair c" using assms(1) by (simp add: list_all_iff)
  moreover have "unat (sv_generation NewServer) + length cs < 2 ^ 64" using assms(2) by (simp add: NewServer_def)
  ultimately show ?thesis using served.observer_agrees by blast
qed


definition one_registration :: "server_op list" where
  "one_registration = [SRegister (\<lambda>n. None) '':1.7'' ''/I'']"

lemma one_registration_served:
  "sv_items (snd (served.history (\<lambda>p. True) one_registration NewServer)) =
    [(\<lparr>ad_owner = '':1.7'', ad_path = ''/I''\<rparr>, \<lparr>ik_Owner = '':1.7'', ik_ObjectPath = ''/I'', ik_Generation = 1\<rparr>)]"
  by (simp add: one_registration_def register_def resolveRegistration_def register_locked_def NewServer_def
    isUniqueName_def HasPrefix_def Let_def case_prod_beta)



definition twice_registered :: "client_op list" where
  "twice_registered = [CEntry (\<lambda>n. None) '':1.7/I'', CEntry (\<lambda>n. None) '':1.7/I'']"

lemma twice_registered_attached:
  "cl_generation (snd (attached.history (\<lambda>p. True) twice_registered newClient)) = 2"
  by (simp add: twice_registered_def client_add_def parseRegisteredItem_def newClient_def isUniqueName_def
    HasPrefix_def Let_def case_prod_beta)


section \<open>Registrations\<close>

text \<open>
  C24: a registration becomes a canonical address, and survives the wire. What \<open>resolveRegistration\<close>
  accepts is a unique bus name with a valid object path, the caller's own when it registers a path;
  written out by \<open>Address.String\<close>, as the watcher publishes it, it is read back as itself by every
  client, without asking the bus.
\<close>

theorem registration_roundtrip:
  assumes "resolveRegistration path_valid resolve sender argument = Inr a"
    and "path_valid DefaultItemPath" and "HasPrefix (ad_path a) ''/''" and "CHR ''/'' \<notin> set (ad_owner a)"
  shows "canonical path_valid a \<and> (\<not> HasPrefix argument ''/'' \<or> ad_owner a = sender \<and> ad_path a = argument)
    \<and> parseRegisteredItem path_valid resolve' (Address_String a) = Inr a"
  using resolveRegistration_canonical [OF assms(2,1)] parse_Address_String [of path_valid a] assms(3,4) by blast

theorem registration_roundtrip_witness:
  "parseRegisteredItem (\<lambda>p. True) (\<lambda>n. None)
    (Address_String \<lparr>ad_owner = '':1.7'', ad_path = ''/I''\<rparr>) = Inr \<lparr>ad_owner = '':1.7'', ad_path = ''/I''\<rparr>"
proof -
  have "resolveRegistration (\<lambda>p. True) (\<lambda>n. None) '':1.7'' ''/I'' = Inr \<lparr>ad_owner = '':1.7'', ad_path = ''/I''\<rparr>"
    by (simp add: resolveRegistration_def isUniqueName_def HasPrefix_def)
  from registration_roundtrip [OF this] show ?thesis by (simp add: HasPrefix_def)
qed

section \<open>Two instances of the service\<close>


definition slashed :: "bytes \<Rightarrow> bool" where "slashed p = HasPrefix p ''/''"

definition second_registration :: "server_op list" where
  "second_registration = [SRegister (\<lambda>n. None) '':1.9'' ''/J'']"


section \<open>The loop\<close>

text \<open>
  The pauses of \<open>Run\<close>. Whatever happens in each turn, the n-th failed attempt in a row is
  followed by a pause of 50 ms times \<open>2 ^ n\<close>, at most 5 s, a working relationship starts the row
  again, and a cancelled context ends the loop without a further pause; every pause lies between
  50 ms and 5 s.
\<close>

theorem watcher_pauses:
  "lp_slept (outcome (Run ts started_loop)) = sleeps 0 ts
    \<and> list_all (\<lambda>d. initialBackoff \<le> d \<and> d \<le> maxBackoff) (lp_slept (outcome (Run ts started_loop)))"
proof -
  have "lp_backoff started_loop = backoff 0" by (simp add: started_loop_def backoff_def const_defs)
  from Run_sleeps_from [OF this, of ts]
  have "lp_slept (outcome (Run ts started_loop)) = sleeps 0 ts" by (simp add: started_loop_def)
  then show ?thesis using sleeps_bounded by (simp add: list_all_iff)
qed

section \<open>Serving\<close>

text \<open>
  Serving is all or nothing. A \<open>Serve\<close> that fails holds nothing on the bus and leaves the
  server as it was; one that succeeds holds the name and every export, and \<open>Close\<close> gives back all
  of it and leaves the server as it was before.
\<close>

theorem serve_all_or_nothing:
  "case Serve bus s of
     (Some e, kept, s') \<Rightarrow> kept = {} \<and> s' = s
   | (None, kept, s') \<Rightarrow> kept = UNIV \<and> Server_Close kept s' = ({}, [], s)"
  using Serve_fails_clean [of bus s] Serve_Close [of bus s]
  by (auto split: option.split prod.split)

section \<open>Attaching\<close>


text \<open>An example: one entry is read, and then the relationship ends.\<close>

definition demo_entry :: bytes where "demo_entry = '':1.7/I''"

definition demo_base :: wire where "demo_base = \<lparr>wr_rules = {#}, wr_channels = {}\<rparr>"

definition demo_held :: wire where
  "demo_held = \<lparr>wr_rules = {#nameOwnerMatch, watcherSignalMatches#}, wr_channels = {0}\<rparr>"

definition demo_link :: "attach_phase \<Rightarrow> attachment" where
  "demo_link phase = \<lparr>am_phase = phase, am_pump = Pumping, am_closer = NotClosed,
     am_client = newClient\<lparr>cl_attached := True\<rparr>\<rparr>"

definition demo_item_key :: item_key where
  "demo_item_key = \<lparr>ik_Owner = '':1.7'', ik_ObjectPath = ''/I'', ik_Generation = 1\<rparr>"

definition demo_entered :: "attach_phase \<Rightarrow> attachment" where
  "demo_entered phase = (demo_link phase)\<lparr>am_client := newClient\<lparr>cl_attached := True, cl_generation := 1,
     cl_items := [(\<lparr>ad_owner = '':1.7'', ad_path = ''/I''\<rparr>, demo_item_key)]\<rparr>\<rparr>"

lemma demo_entered_run:
  "attach_run (\<lambda>p. True) 0 demo_base (demo_entered Established) demo_held [ItemAdded demo_item_key]"
proof -
  have "attach_begin (Some ''w'') (\<lambda>r. True) 0 (new_attachment, demo_base) = (demo_link (Hosting ''w''), demo_held)"
    by (simp add: attach_begin_def new_attachment_def demo_base_def demo_held_def demo_link_def newClient_def)
  from attach_run.begins [OF attach_run.opens _ this, of "\<lambda>p. True"]
  have "attach_run (\<lambda>p. True) 0 demo_base (demo_link (Hosting ''w'')) demo_held []"
    by (simp add: demo_base_def new_attachment_def)
  from attach_run.hosts [OF this, of "''w''" True]
  have "attach_run (\<lambda>p. True) 0 demo_base (demo_link Asking) demo_held []"
    by (simp add: demo_link_def attach_host_def)
  from attach_run.reads [OF this, of "Some (Some [demo_entry])"]
  have "attach_run (\<lambda>p. True) 0 demo_base (demo_link (Entering [demo_entry])) demo_held []"
    by (simp add: demo_link_def attach_read_def)
  from attach_run.enters [OF this, of demo_entry "[]" "\<lambda>n. None" "[ItemAdded demo_item_key]" "demo_entered (Entering [])"]
  have "attach_run (\<lambda>p. True) 0 demo_base (demo_entered (Entering [])) demo_held [ItemAdded demo_item_key]"
    by (simp add: demo_link_def demo_entered_def attach_enter_def client_add_def parseRegisteredItem_def
      demo_entry_def demo_item_key_def isUniqueName_def HasPrefix_def newClient_def Let_def)
  from attach_run.entered [OF this] show ?thesis by (simp add: demo_entered_def demo_link_def)
qed


end
