(* ===== verification/Menu_Properties.thy ===== *)
theory Menu_Properties
  imports Menu_Proxy
begin

text \<open>
  Properties of menus: the two validators, the conversion of a layout, and what a menu proxy
  publishes.
\<close>

section \<open>Two validators, one set of menus\<close>

text \<open>
  C14: the menu package's validator and the protocol's accept the same menus. One walks an explicit
  stack of node pointers and pops the last, the other recurses; both accept exactly the trees of at
  most 512 nodes, depth at most 8 and 4 MiB of icons whose root is node 0, whose IDs are distinct and
  whose nodes are well formed. (No Go slice is as long as \<open>2 ^ 63\<close>.)
\<close>

theorem menu_validators_agree:
  assumes "menu_sized m"
  shows "(Validate m = None \<longleftrightarrow> Menu_Validate m = None) \<and> (Validate m = None \<longleftrightarrow> menu_ok m)"
  using Validate_ok [OF assms] Menu_Validate_ok [OF assms] by simp

text \<open>A menu with two entries.\<close>

definition entry_node :: "int32 \<Rightarrow> menu_node" where
  "entry_node i = MenuNode (zero_fields\<lparr>mn_ID := i, mn_Enabled := True, mn_Visible := True\<rparr>) []"

definition small_menu :: "uint32 \<Rightarrow> menu" where
  "small_menu revision = \<lparr>me_Revision = revision,
     me_Root = MenuNode (zero_fields\<lparr>mn_Enabled := True, mn_Visible := True\<rparr>) [entry_node 1, entry_node 2]\<rparr>"

lemma small_menu_ok: "menu_sized (small_menu r)" "menu_ok (small_menu r)"
  by (simp_all add: menu_sized_def small_menu_def entry_node_def slice_sized_def zero_fields_def
    menu_ok_def walk_ok_def node_ok_def text_ok_def icon_bytes_def const_defs)

theorem menu_validators_agree_witness: "Validate (small_menu 3) = None \<and> Menu_Validate (small_menu 3) = None"
proof -
  note agree = menu_validators_agree [OF small_menu_ok(1) [of 3]]
  have v: "Validate (small_menu 3) = None" by (rule iffD2 [OF conjunct2 [OF agree] small_menu_ok(2)])
  show ?thesis by (rule conjI [OF v iffD1 [OF conjunct1 [OF agree] v]])
qed

section \<open>The conversion of a layout\<close>

text \<open>
  C13: building the tree in place is safe. The worklist of \<open>convertLayout\<close> keeps pointers into slices
  that later appends may move; still, however the runtime grows slices, no pointer is ever stranded
  and the result, error or menu, is that of the plain recursive reading of the layout.
\<close>

theorem layout_conversion_is_tree:
  assumes "growing grow"
  shows "convertLayout grow revision layout = convert_tree revision layout"
  using assms by (rule convertLayout_tree)

text \<open>The layout of that menu, and slices that grow to twice what is needed.\<close>

definition layout_node :: "64 word \<Rightarrow> dval list \<Rightarrow> dval" where
  "layout_node i kids = DStruct [(True, DInt i), (True, DMapVariant []), (True, DSlice kids)]"

definition small_layout :: dval where
  "small_layout = layout_node 0 [DVariant (layout_node 1 []), DVariant (layout_node 2 [])]"

definition doubling :: growth where
  "doubling old needed = 2 * needed"

lemma doubling_grows: "growing doubling"
  by (simp add: growing_def doubling_def)

lemma layout_tuple: "Tuple (layout_node i kids) 3 =
    Some [Some (False, DInt i), Some (False, DMapVariant []), Some (False, DSlice kids)]"
  by (simp add: Tuple_def layout_node_def Indirect_def ValueOf_def numeral_3_eq_3)

lemma layout_fields:
  "i \<in> {0, 1, 2} \<Longrightarrow> convertNode (layout_node i kids) =
    Inr (zero_fields\<lparr>mn_ID := of_int (sint i), mn_Enabled := True, mn_Visible := True\<rparr>)"
  by (auto simp: convertNode_def layout_tuple Int_value_def Any_def CanInterface_def propertyMap_def
    node_properties_def with_property_def)

lemma layout_children:
  "children_of (layout_node i kids) = map (\<lambda>v. Any (unwrap False v)) kids"
  by (simp add: children_of_def layout_tuple Any_def CanInterface_def Elements_def Indirect_def
    ValueOf_def numeral_2_eq_2)

lemma any_layout: "Any (unwrap False (DVariant (layout_node i kids))) = layout_node i kids"
  by (simp add: layout_node_def Any_def CanInterface_def)

lemma small_tree: "convert_tree r small_layout = Inr (small_menu r)"
proof -
  have "children_of small_layout = [layout_node 1 [], layout_node 2 []]"
    by (simp add: small_layout_def layout_children any_layout del: unwrap.simps)
  moreover have "convertNode small_layout = Inr (zero_fields\<lparr>mn_Enabled := True, mn_Visible := True\<rparr>)"
    by (simp add: small_layout_def layout_fields) (simp add: zero_fields_def)
  ultimately show ?thesis
    by (simp add: convert_tree_def convert_children.simps layout_fields layout_children const_defs
      small_menu_def entry_node_def)
qed

theorem layout_conversion_is_tree_witness:
  "convertLayout doubling 3 small_layout = Inr (small_menu 3)"
  using layout_conversion_is_tree [OF doubling_grows] small_tree by simp

section \<open>What is published\<close>


lemma small_published:
  "proxy_run doubling key (\<lparr>mp_key = key, mp_revision = 3, mp_known = True, mp_wake = False\<rparr>)
    [\<lparr>mu_Key = key, mu_Menu = Inr (small_menu 3)\<rparr>]"
proof -
  have "menu_refresh doubling (Body [DUint32 3, small_layout]) ((trigger (NewProxy key))\<lparr>mp_wake := False\<rparr>) =
      (Some \<lparr>mu_Key = key, mu_Menu = Inr (small_menu 3)\<rparr>,
       \<lparr>mp_key = key, mp_revision = 3, mp_known = True, mp_wake = False\<rparr>)"
    using Validate_ok [OF small_menu_ok(1)] small_menu_ok(2)
    by (simp add: menu_refresh_def getLayout_def convertLayout_tree [OF doubling_grows] small_tree
      trigger_def NewProxy_def)
  from proxy_run.refreshes [OF proxy_run.starts _ this] show ?thesis by (simp add: trigger_def)
qed


end
