(* ===== verification/Item_Properties.thy ===== *)
theory Item_Properties
  imports Item_Model Limiter
begin

text \<open>
  Properties of items: what a refresh publishes, when a normalised item is valid, the pixmap budget,
  and the rate limiter.
\<close>

section \<open>What a refresh publishes\<close>


text \<open>
  C17: what normalising guarantees. For any properties an application may send, of whatever types and
  sizes, the item is valid except in two cases: it has no \<open>Id\<close> and its bus name and path together
  exceed the limit of a text, or its menu path does.
\<close>

theorem normalized_item_valid:
  assumes "key_ok key" and "path_spec pv"
  shows "Item_Validate (normalize pv key ps) = None \<longleftrightarrow>
    (text_of ps ''Id'' MaxTextBytes \<noteq> [] \<or> length (ik_Owner key) + length (ik_ObjectPath key) \<le> MaxTextBytes)
    \<and> length (objectPath pv ps ''Menu'') \<le> MaxTextBytes"
  using normalize_valid [OF assms] by blast

definition item_key_example :: item_key where
  "item_key_example = \<lparr>ik_Owner = '':1.7'', ik_ObjectPath = ''/I'', ik_Generation = 1\<rparr>"

lemma item_key_example_ok: "key_ok item_key_example"
  by (simp add: key_ok_def text_ok_def item_key_example_def HasPrefix_def const_defs
    ValidString_ascii_Cons byte_val_def)

definition root_only :: "bytes \<Rightarrow> bool" where
  "root_only p \<longleftrightarrow> p = ''/''"

lemma root_only_spec: "path_spec root_only"
  by (simp add: path_spec_def root_only_def HasPrefix_def byte_val_def)

theorem normalized_item_valid_witness:
  "Item_Validate (normalize root_only item_key_example [(''Title'', DBool True), (''Menu'', DObjectPath ''/'')]) = None"
  unfolding normalized_item_valid [OF item_key_example_ok root_only_spec]
  by (simp add: item_key_example_def objectPath_def root_only_def const_defs)

text \<open>
  C18: the pixmap budget. However many pixmaps an application sends, the three icons and the tooltip
  of the normalised item hold only well-formed ones, of at most 512 by 512 with as many bytes as
  they claim, and together at most 2 MiB.
\<close>

theorem item_pixmaps_budgeted:
  "icon_ok (it_Icon (normalize pv key ps)) \<and> icon_ok (it_AttentionIcon (normalize pv key ps))
    \<and> icon_ok (it_OverlayIcon (normalize pv key ps)) \<and> tooltip_ok (it_Tooltip (normalize pv key ps))
    \<and> pixmap_bytes (item_pixmaps (normalize pv key ps)) \<le> MaxPixmapBytesPerItem"
  by (rule normalize_pixmaps(1))

section \<open>The limiter\<close>

text \<open>
  C19: refreshes keep their distance. On a clock that does not go back, whatever items ask and are
  forgotten, two granted refreshes lie at least 1/120 s apart, so n of them take at least
  (n - 1)/120 s, and two of the same item that was never forgotten lie at least 1/30 s apart. A
  refusal names the exact wait: it changes nothing, and the item is ready after that time and not
  before.
\<close>

theorem limiter_spacing:
  assumes "limiter_run gone now l g" and "g \<noteq> []"
  shows "sorted_wrt (apart gone) g
    \<and> fst (hd g) + (int (length g) - 1) * GlobalInterval \<le> fst (last g)
    \<and> (fst (Reserve t key l) \<le> 0 \<or> snd (Reserve t key l) = l
        \<and> (ready_at key l (t + d) \<longleftrightarrow> fst (Reserve t key l) \<le> d))"
proof -
  have "sorted_wrt (apart gone) g" using limiter_run_inv [OF assms(1)] by (simp add: limiter_inv_def)
  with apart_span [OF this assms(2)] show ?thesis
    using Reserve_wait [of t key l d] Reserve_refused [of key l t] Reserve_granted(1) [of t key l] by linarith
qed

lemma two_grants:
  "limiter_run {} 40000000 \<lparr>lm_perKey = [(zero_key, 40000000)], lm_last = Some 40000000\<rparr>
     [(0, zero_key), (40000000, zero_key)]"
proof -
  have r1: "Reserve 0 zero_key NewLimiter = (0, \<lparr>lm_perKey = [(zero_key, 0)], lm_last = Some 0\<rparr>)"
    by (simp add: Reserve_def NewLimiter_def)
  have r2: "Reserve 40000000 zero_key \<lparr>lm_perKey = [(zero_key, 0)], lm_last = Some 0\<rparr> =
      (0, \<lparr>lm_perKey = [(zero_key, 40000000)], lm_last = Some 40000000\<rparr>)"
    by (simp add: Reserve_def const_defs)
  from limiter_run.grants [OF limiter_run.starts _ r1] have
    "limiter_run {} 0 \<lparr>lm_perKey = [(zero_key, 0)], lm_last = Some 0\<rparr> [(0, zero_key)]"
    by (metis append_Nil order_refl)
  from limiter_run.grants [OF this _ r2] show ?thesis by simp
qed

theorem limiter_spacing_witness:
  "apart {} (0, zero_key) (40000000, zero_key) \<and> \<not> ready_at zero_key
    \<lparr>lm_perKey = [(zero_key, 40000000)], lm_last = Some 40000000\<rparr> 50000000"
  using limiter_spacing [OF two_grants, of 40000000 zero_key 10000000]
  by (simp add: Reserve_def const_defs)

end
