(* ===== verification/Presenter_Properties.thy ===== *)
theory Presenter_Properties
  imports Presenter_Faults
begin

text \<open>
  Properties of the presenter server: whom it lets in, that one presenter is served at a time, and
  the two interleavings in which it fails.
\<close>

section \<open>Examples\<close>

definition easy_mar :: marshaller where
  "easy_mar p = Some ''p''"

definition easy_frame :: framer where
  "easy_frame e = Some ''f''"

definition easy_connection :: connection where
  "easy_connection = snd (start 0 [''f'', ''f''] newConnection)"

lemma easy_startable: "startable easy_mar easy_frame [''f'', ''f''] easy_connection"
  by (simp add: startable_def prologue_def marshalEnvelope_def easy_mar_def easy_frame_def
    easy_connection_def start_def reserve_def channel_send_def newConnection_def const_defs Let_def
    empty_snapshot_def)

lemma startable_live:
  assumes "startable mar frame fs c"
  shows "\<not> cn_failed c"
proof -
  from assms have "start 0 fs newConnection = (Started, c)" by (simp add: startable_def)
  then show ?thesis
  proof (rule start_Started)
    fix c1
    assume pro: "start_prologue fs (newConnection\<lparr>cn_lastSequence := 0\<rparr>) = (Started, c1)"
      and c: "c = c1\<lparr>cn_queue := cn_queue newConnection @ prologue_frames fs @ above 0 (cn_pending newConnection),
          cn_lastSequence := last (0 # map ob_sequence (above 0 (cn_pending newConnection))),
          cn_queuedMessages := cn_queuedMessages c1 - int (length (below 0 (cn_pending newConnection))),
          cn_queuedBytes := cn_queuedBytes c1 - int (\<Sum>m\<leftarrow>below 0 (cn_pending newConnection). length (ob_data m)),
          cn_pending := [], cn_started := True\<rparr>"
    from start_prologue_frame [OF pro] have "\<not> cn_failed c1" by (simp add: newConnection_def)
    then show "\<not> cn_failed c" unfolding c by simp
  qed
qed

section \<open>Whom it lets in\<close>

text \<open>
  C37: who may watch. A handler goes on exactly for a peer of the service's own user whose first frame
  is a valid hello, in the presenter's role, that offers the tray capability; from any other user not
  a single frame is read.
\<close>

theorem handshake_admits:
  "snd (handshake uid peer dl (readHello decode_envelope decode_hello jv frame) undl) =
     (peer = Some uid \<and> dl \<and> undl \<and> (\<exists>d e h. frame = Some d \<and> decode_envelope d = Some e
        \<and> Envelope_Validate jv e = None \<and> en_Kind e = KindHello
        \<and> decode_hello (en_Payload e) = Some h \<and> Hello_Validate h RolePresenter = None
        \<and> CapabilityTray \<in> set (he_Capabilities h)))
   \<and> fst (handshake uid peer dl (readHello decode_envelope decode_hello jv frame) undl) =
     (if peer = Some uid \<and> dl then 1 else 0)"
  by (cases peer)
    (auto simp: handshake_def readHello_def hasCapability_iff split: option.split sum.split)

section \<open>One presenter\<close>

text \<open>
  C4: at most one presenter is served. However handshakes, replacements, failures and the owner's
  commands interleave, whenever no replacement is under way, two handlers that serve live
  connections are the same one.
\<close>

theorem one_presenter_served:
  assumes "pres_run mar frame s" and "\<forall>k old. ps_phase s k \<noteq> Replacing old"
    and "ps_phase s i = Serving" and "\<not> cn_failed (ps_conns s i)"
    and "ps_phase s j = Serving" and "\<not> cn_failed (ps_conns s j)"
  shows "i = j"
  using assms by (rule one_presenter)

theorem one_presenter_served_witness: "(0 :: nat) = 0 \<and> ps_phase (two Serving Finished easy_connection
    (fail (fail easy_connection)) (Some 0) None 2 Open) 0 = Serving"
proof -
  have "(0 :: nat) = 0"
    by (rule one_presenter_served [OF deaf_reached [OF easy_startable]])
      (simp_all add: startable_live [OF easy_startable])
  then show ?thesis by simp
qed

section \<open>Where it fails\<close>

text \<open>
  C39: a presenter can be served and never told anything. Two presenters that connect at the same
  time can end with the one that is current, serving and alive while the state owner has no sink:
  no command of the owner reaches any connection then.
\<close>

theorem served_but_deaf:
  assumes "startable mar frame fs c"
  shows "\<exists>s. pres_run mar frame s \<and> ps_current s = Some 0 \<and> ps_phase s 0 = Serving
    \<and> \<not> cn_failed (ps_conns s 0) \<and> ow_sink (ps_owner s) = None
    \<and> (\<forall>cmd. snd (owner_step mar (hub_send frame) cmd (ps_owner s, ps_conns s)) = ps_conns s)"
proof -
  let ?s = "two Serving Finished c (fail (fail c)) (Some 0) None 2 Open"
  have "\<not> cn_failed c" using assms by (rule startable_live)
  moreover have "snd (owner_step mar (hub_send frame) cmd (ps_owner ?s, ps_conns ?s)) = ps_conns ?s" for cmd
    by (subst owner_step_silent) simp_all
  ultimately show ?thesis using deaf_reached [OF assms] by (intro exI [of _ ?s]) simp
qed

theorem served_but_deaf_witness:
  "\<exists>s. pres_run easy_mar easy_frame s \<and> ps_current s = Some 0 \<and> ow_sink (ps_owner s) = None"
  using served_but_deaf [OF easy_startable] by blast

text \<open>
  C40: \<open>Close\<close> can wait for the peer. A handler that becomes current after \<open>Close\<close> has looked is not
  failed: \<open>Close\<close> then waits while the handler serves a live connection, and nothing that happens,
  short of that handler's own end, lets it return.
\<close>

theorem close_waits_for_peer:
  assumes "startable mar frame fs c"
  shows "\<exists>s. pres_run mar frame s \<and> ps_closing s = Waiting \<and> ps_phase s 0 = Serving
    \<and> \<not> cn_failed (ps_conns s 0)
    \<and> (\<forall>x s'. pres_step mar frame x s s' \<longrightarrow> x = PEnd 0 \<or> x \<noteq> PClosed \<and> ps_phase s' 0 = Serving)"
proof -
  let ?s = "two Serving Absent c newConnection (Some 0) (Some 0) 1 Waiting"
  have "\<not> cn_failed c" using assms by (rule startable_live)
  moreover have "x = PEnd 0 \<or> x \<noteq> PClosed \<and> ps_phase s' 0 = Serving" if "pres_step mar frame x ?s s'" for x s'
    using serving_blocks_close [OF that, of 0] by auto
  ultimately show ?thesis using close_waits [OF assms] by (intro exI [of _ ?s]) simp
qed

theorem close_waits_for_peer_witness:
  "\<exists>s. pres_run easy_mar easy_frame s \<and> ps_closing s = Waiting \<and> ps_phase s 0 = Serving"
  using close_waits_for_peer [OF easy_startable] by blast

end
