(* ===== verification/Whole_Service.thy ===== *)
theory Whole_Service
  imports Session App_Properties Watcher
begin

text \<open>
  The parts together: what the watcher announces, what the handlers of \<open>internal/app/run.go\<close> submit
  to the state owner, what the owner sends to the connection of a presenter, and what that presenter
  then holds, at once or after its writer has caught up.
\<close>

section \<open>A run with its commands\<close>

text \<open>\<open>service_run\<close> counts the commands of the owner; \<open>service_trace\<close> lists them.\<close>

inductive service_trace ::
  "('w \<Rightarrow> 'w \<Rightarrow> bool) \<Rightarrow> marshaller \<Rightarrow> 'w sender \<Rightarrow> owner \<times> 'w \<Rightarrow> owner_cmd list \<Rightarrow> owner \<times> 'w \<Rightarrow> bool"
  for own mar send s0 where
  begins: "service_trace own mar send s0 [] s0"
| commands: "service_trace own mar send s0 cs s \<Longrightarrow> session_cmd c \<Longrightarrow>
    service_trace own mar send s0 (cs @ [c]) (owner_step mar send c s)"
| moves_own: "service_trace own mar send s0 cs (ow, w) \<Longrightarrow> own w w' \<Longrightarrow>
    service_trace own mar send s0 cs (ow, w')"

lemma trace_run: "service_trace own mar send s0 cs s \<Longrightarrow> service_run own mar send s0 (length cs) s"
  by (induction rule: service_trace.induct) (auto intro: service_run.intros)

lemma trace_stopped:
  "service_trace own mar send s0 cs s \<Longrightarrow>
    ow_stopped (fst s) \<longleftrightarrow> ow_stopped (fst s0) \<or> owner_cmd.CClose \<in> set cs"
  by (induction rule: service_trace.induct) (auto simp: stopped_step)

lemma trace_admitted:
  assumes "service_trace own mar send s0 cs s" and "owner_cmd.CClose \<notin> set cs" and "\<not> ow_stopped (fst s0)"
    and "current (fst s) k \<noteq> None" and "current (fst s0) k \<noteq> None \<Longrightarrow> admitted k before"
  shows "admitted k (before @ cs)"
  using assms
proof (induction arbitrary: rule: service_trace.induct)
  case begins
  then show ?case by simp
next
  case (commands cs s c)
  have "\<not> ow_stopped (fst s)" using trace_stopped [OF commands.hyps(1)] commands.prems by auto
  with commands.prems have "admits k c (current (fst s) k \<noteq> None)" by (intro current_step) auto
  moreover have "admitted k (before @ cs)" if "current (fst s) k \<noteq> None"
    using commands.IH commands.prems that by simp
  ultimately have "admits k c (admitted k (before @ cs))" by (rule admits_mono [rotated])
  then show ?case by (metis admitted_simps(2) append_assoc)
next
  case (moves_own cs ow w w')
  then show ?case by simp
qed

section \<open>What a presenter holds\<close>

lemma delta_log_split: "delta_log c = map ob_data (filter is_delta (cn_written c @ waiting c))"
  by (simp add: delta_log_def stream_def waiting_def)

text \<open>The frames of a connection, applied to its snapshot, give the owner's published state.\<close>

lemma attached_view:
  assumes "codec frame mar unframe decode" and "owner_inv ow"
    and "Owner_Attach (Some i) ow = (Inr snap, oa)"
    and "hub_good base pro w" and "w i = newConnection" and "base i = sn_Sequence snap"
    and "service_run (hub_step mar frame base pro) mar (hub_send frame) (oa, w) n (ob, wb)"
    and "unat (sn_Sequence snap) + n < 2 ^ 64"
    and "ow_sink ob = Some i" and "\<not> cn_failed (wb i)"
  shows "\<exists>v. replay unframe decode
      (map ob_data (filter is_delta (cn_written (wb i) @ waiting (wb i)))) (view_of_snapshot snap)
        = Some v \<and> synced ob v"
proof -
  from assms(3) have at: "oa = ow\<lparr>ow_sink := Some i\<rparr>" "snap = snapshotLocked oa"
    by (auto simp: Owner_Attach_def Let_def split: if_splits)
  with assms(2) have inv: "owner_inv oa" by (simp add: owner_inv_def)
  from at have seq: "sn_Sequence snap = ow_sequence oa" by (simp add: snapshotLocked_def)
  have "\<exists>es v. hub_log wb i = hub_log w i @ es
      \<and> replay unframe decode es (view_of_snapshot snap) = Some v \<and> synced ob v"
    using hub.refinement [OF assms(1,7), of "view_of_snapshot snap" i] assms inv at seq
      synced_snapshot [OF inv]
    by (simp add: hub_live_def)
  moreover have "hub_log w i = []"
    by (simp add: hub_log_def assms(5) delta_log_def newConnection_def stream_def)
  ultimately show ?thesis by (simp add: hub_log_def delta_log_split)
qed

section \<open>A presenter that reads everything\<close>

text \<open>
  \<open>writeLoop\<close> alone, for \<open>n\<close> turns, on a socket that takes every frame: it returns when the
  connection has failed, waits when nothing is queued, and otherwise takes, writes and releases.
\<close>

fun writer_turns :: "nat \<Rightarrow> connection \<Rightarrow> connection" where
  "writer_turns 0 c = c"
| "writer_turns (Suc n) c =
    (if cn_failed c then c
     else case writer_take c of
       Some c' \<Rightarrow> writer_turns n c'
     | None \<Rightarrow> (case writer_done True c of None \<Rightarrow> c | Some c' \<Rightarrow> writer_turns n c'))"

text \<open>What the writer has left to do: two turns for a queued frame, one for the frame in its hand.\<close>

definition writer_left :: "connection \<Rightarrow> nat" where
  "writer_left c = 2 * length (cn_queue c) + (if cn_inflight c = None then 0 else 1)"

lemma writer_turns_all:
  assumes "writer_left c \<le> n" and "conn_good base pro c" and "\<not> cn_failed c"
  shows "cn_written (writer_turns n c) = stream c \<and> cn_queue (writer_turns n c) = []
    \<and> cn_inflight (writer_turns n c) = None \<and> cn_failed (writer_turns n c) = cn_failed c
    \<and> cn_started (writer_turns n c) = cn_started c \<and> conn_good base pro (writer_turns n c)"
  using assms
proof (induction n arbitrary: c)
  case 0
  then show ?case by (auto simp: writer_left_def stream_def split: if_splits)
next
  case (Suc n)
  show ?case
  proof (cases "writer_take c")
    case (Some c')
    then have left: "writer_left c' \<le> n" "stream c' = stream c" "cn_failed c' = cn_failed c"
      "cn_started c' = cn_started c"
      using Suc.prems(1) by (auto simp: writer_take_def writer_left_def stream_def split: if_splits list.splits)
    have "conn_good base pro c'" by (rule conn_step_good [OF conn_step.takes [OF Some] Suc.prems(2)])
    from Suc.IH [OF left(1) this] Suc.prems(3) Some left show ?thesis by simp
  next
    case None
    show ?thesis
    proof (cases "writer_done True c")
      case (Some c')
      then have left: "writer_left c' \<le> n" "stream c' = stream c" "cn_failed c' = cn_failed c"
        "cn_started c' = cn_started c"
        using Suc.prems(1) by (auto simp: writer_done_def writer_left_def stream_def release_def split: option.splits)
      have "conn_good base pro c'" by (rule conn_step_good [OF conn_step.writes [OF Some] Suc.prems(2)])
      from Suc.IH [OF left(1) this] Suc.prems(3) None Some left show ?thesis by simp
    next
      case idle: None
      with None have "cn_inflight c = None" "cn_queue c = []"
        by (auto simp: writer_done_def writer_take_def split: option.splits list.splits if_splits)
      with None idle Suc.prems(2,3) show ?thesis by (simp add: stream_def)
    qed
  qed
qed

text \<open>After that a started connection holds nothing any more.\<close>

lemma writer_turns_drained:
  assumes "writer_left c \<le> n" and "conn_good base pro c" and "cn_started c" and "\<not> cn_failed c"
  shows "cn_written (writer_turns n c) = cn_written c @ waiting c
    \<and> waiting (writer_turns n c) = [] \<and> cn_queuedMessages (writer_turns n c) = 0
    \<and> cn_queuedBytes (writer_turns n c) = 0"
proof -
  let ?d = "writer_turns n c"
  from writer_turns_all [OF assms(1,2,4)] have all: "cn_written ?d = stream c" "cn_queue ?d = []"
    "cn_inflight ?d = None" and started: "cn_started ?d" "\<not> cn_failed ?d" and good: "conn_good base pro ?d"
    using assms(3,4) by simp_all
  have "cn_pending c = []" using assms(2-4) by (simp add: conn_good_def conn_inv_def)
  moreover have "counts ?d" "cn_pending ?d = []"
    using good started by (simp_all add: conn_good_def conn_inv_def)
  ultimately show ?thesis using all by (simp add: stream_def waiting_def counts_def)
qed

text \<open>Then what has been read, and nothing else, gives the published state.\<close>

lemma attached_drained:
  assumes "codec frame mar unframe decode" and "owner_inv ow"
    and "Owner_Attach (Some i) ow = (Inr snap, oa)"
    and "hub_good base pro w" and "w i = newConnection" and "base i = sn_Sequence snap"
    and "service_run (hub_step mar frame base pro) mar (hub_send frame) (oa, w) n (ob, wb)"
    and "unat (sn_Sequence snap) + n < 2 ^ 64"
    and "ow_sink ob = Some i" and "\<not> cn_failed (wb i)"
    and "cn_started (wb i)" and "writer_left (wb i) \<le> m"
  shows "\<exists>v. replay unframe decode
      (map ob_data (filter is_delta (cn_written (writer_turns m (wb i))))) (view_of_snapshot snap)
        = Some v \<and> synced ob v
    \<and> cn_queuedMessages (writer_turns m (wb i)) = 0 \<and> cn_queuedBytes (writer_turns m (wb i)) = 0"
proof -
  from assms(3) have "oa = ow\<lparr>ow_sink := Some i\<rparr>" "sn_Sequence snap = ow_sequence oa"
    by (auto simp: Owner_Attach_def Let_def snapshotLocked_def split: if_splits)
  with hub.service_run_good [OF assms(7)] assms(4,6,8) have "hub_good base pro wb" by simp
  then have "conn_good (base i) (pro i) (wb i)" by (simp add: hub_good_def)
  with writer_turns_drained [OF assms(12) this assms(11,10)] attached_view [OF assms(1-10)]
  show ?thesis by simp
qed

text \<open>What the owner does not hold, nobody is shown.\<close>

lemma synced_current:
  assumes "synced ow v" and "current ow k = None"
  shows "gm_get (vw_items v) k = None \<and> gm_get (vw_menus v) k = None"
proof -
  from assms(2) have "published_view (ow_items ow) k = None" "menu_view (ow_items ow) k = None"
    by (auto simp: current_def published_view_def menu_view_def split: option.splits if_splits)
  with assms(1) show ?thesis by (auto simp: synced_def map_le_def dom_def)
qed

text \<open>An owner that has run \<open>before\<close> and then \<open>cs\<close> holds only what those admit.\<close>

lemma attached_admitted:
  assumes "owner_run mar send0 before (Owner_Start, w0) = (ow, w1)"
    and "Owner_Attach (Some i) ow = (Inr snap, oa)"
    and "service_trace own mar send (oa, w) cs (ob, wb)" and "owner_cmd.CClose \<notin> set (before @ cs)"
    and "current ob k \<noteq> None"
  shows "admitted k (before @ cs)"
proof (rule trace_admitted [OF assms(3)])
  have at: "ow_stopped oa = ow_stopped ow" "current oa k = current ow k"
    using assms(2) by (auto simp: Owner_Attach_def Let_def current_def split: if_splits)
  show "\<not> ow_stopped (fst (oa, w))"
    using at stopped_run [of mar send0 before "(Owner_Start, w0)"] assms(1,4)
    by (simp add: Owner_Start_def)
  show "admitted k before" if "current (fst (oa, w)) k \<noteq> None"
    using current_admitted [of before mar send0 w0 k] that at assms(1,4) by simp
qed (use assms in simp_all)

section \<open>What is shown is alive\<close>

lemma admitted_worker:
  assumes "app_run uid seen gone a []" and "\<not> ap_closing a" and "admitted k (ap_log a)"
  shows "k \<in> seen \<and> k \<notin> gone \<and> gm_get (ap_workers a) k \<noteq> None"
proof -
  have "k \<notin> gone \<and> gm_get (ap_workers a) k \<noteq> None"
    using app_run_log [OF assms(1)] gone_forgotten [OF assms(1)] assms(2,3) by (auto simp: log_ok_def)
  moreover have "\<forall>k. (if gm_get (ap_workers a) k = None then 0 else 1) \<le> (if k \<in> seen then 1 else 0::nat)"
    using app_run_inv [OF assms(1)] by (simp add: app_inv_def adds_ok_def)
  from spec [OF this, of k] have "gm_get (ap_workers a) k \<noteq> None \<longrightarrow> k \<in> seen" by (simp split: if_splits)
  ultimately show ?thesis by simp
qed

text \<open>The keys a list of events announces, and those it withdraws.\<close>

fun announced :: "registry_event list \<Rightarrow> item_key set" where
  "announced [] = {}"
| "announced (registry_event.ItemAdded k # es) = insert k (announced es)"
| "announced (registry_event.ItemRemoved k # es) = announced es"

fun withdrawn :: "registry_event list \<Rightarrow> item_key set" where
  "withdrawn [] = {}"
| "withdrawn (registry_event.ItemAdded k # es) = withdrawn es"
| "withdrawn (registry_event.ItemRemoved k # es) = insert k (withdrawn es)"

text \<open>An observer that refused nothing holds what was announced and not withdrawn.\<close>

lemma observed_live:
  assumes "observe es ob = Some ob'" and "k \<notin> withdrawn es"
    and "k \<in> announced es \<or> gm_get (ob_live ob) (addr_of k) = Some k"
  shows "gm_get (ob_live ob') (addr_of k) = Some k"
  using assms
proof (induction es arbitrary: ob)
  case Nil
  then show ?case by simp
next
  case (Cons e es)
  then obtain ob1 where ob1: "observe_one e ob = Some ob1" "observe es ob1 = Some ob'"
    by (auto split: option.splits)
  show ?case
  proof (cases e)
    case (ItemAdded j)
    with ob1(1) Cons.prems(3) have "k \<in> announced es \<or> gm_get (ob_live ob1) (addr_of k) = Some k"
      by (auto simp: gm_get_set split: if_splits)
    with Cons.IH [OF ob1(2)] Cons.prems(2) ItemAdded show ?thesis by simp
  next
    case (ItemRemoved j)
    with ob1(1) Cons.prems(2,3) have "k \<in> announced es \<or> gm_get (ob_live ob1) (addr_of k) = Some k"
      by (auto simp: gm_get_del split: if_splits)
    with Cons.IH [OF ob1(2)] Cons.prems(2) ItemRemoved show ?thesis by simp
  qed
qed

text \<open>
  So the presenter of an application whose watcher announced and withdrew \<open>es\<close> shows only what the
  watcher still holds, be it the service's own or one elsewhere.
\<close>

lemma attached_alive:
  assumes "app_run uid (announced es) (withdrawn es) a []" and "\<not> ap_closing a"
    and "observe es ob0 = Some obs"
    and "filter from_app (before @ cs) = ap_log a" and "owner_cmd.CClose \<notin> set (before @ cs)"
    and "owner_run mar send0 before (Owner_Start, w0) = (ow, w1)"
    and "Owner_Attach (Some i) ow = (Inr snap, oa)"
    and "codec frame mar unframe decode"
    and "hub_good base pro w" and "w i = newConnection" and "base i = sn_Sequence snap"
    and "service_trace (hub_step mar frame base pro) mar (hub_send frame) (oa, w) cs (ob, wb)"
    and "unat (sn_Sequence snap) + length cs < 2 ^ 64"
    and "ow_sink ob = Some i" and "\<not> cn_failed (wb i)"
  shows "\<exists>v. replay unframe decode
      (map ob_data (filter is_delta (cn_written (wb i) @ waiting (wb i)))) (view_of_snapshot snap)
        = Some v
    \<and> (\<forall>k. gm_get (vw_items v) k \<noteq> None \<or> gm_get (vw_menus v) k \<noteq> None \<longrightarrow>
         gm_get (ob_live obs) (addr_of k) = Some k \<and> gm_get (ap_workers a) k \<noteq> None)"
proof -
  have "owner_inv ow"
    using owner_inv_run [of "(Owner_Start, w0)" mar send0 before] owner_inv_Start assms(6) by simp
  from attached_view [OF assms(8) this assms(7,9-11) trace_run [OF assms(12)] assms(13-15)]
  obtain v where v: "replay unframe decode
      (map ob_data (filter is_delta (cn_written (wb i) @ waiting (wb i)))) (view_of_snapshot snap)
        = Some v" "synced ob v" by (elim exE conjE)
  have "gm_get (ob_live obs) (addr_of k) = Some k \<and> gm_get (ap_workers a) k \<noteq> None"
    if shown: "gm_get (vw_items v) k \<noteq> None \<or> gm_get (vw_menus v) k \<noteq> None" for k
  proof -
    have "current ob k \<noteq> None"
    proof
      assume "current ob k = None"
      from synced_current [OF v(2) this] shown show False by simp
    qed
    from attached_admitted [OF assms(6,7,12,5) this] have "admitted k (before @ cs)" .
    then have "admitted k (ap_log a)" using admitted_filter [of k "before @ cs"] assms(4) by simp
    from admitted_worker [OF assms(1,2) this]
    have live: "k \<in> announced es" "k \<notin> withdrawn es" "gm_get (ap_workers a) k \<noteq> None" by simp_all
    from observed_live [OF assms(3) live(2)] live(1,3) show ?thesis by simp
  qed
  with v(1) show ?thesis by (intro exI [of _ v] conjI allI impI) simp_all
qed

end
