(* ===== verification/Service_Process.thy ===== *)
theory Service_Process
  imports Presenter Runtime_Dir App
begin

text \<open>
  The service as a process: \<open>main\<close>, \<open>App.Start\<close>, \<open>App.Run\<close> and \<open>unwind\<close> with everything they hold
  (\<open>cmd/sysc-tray/main.go\<close>, \<open>internal/app/run.go\<close>), and the listening half of the presenter server
  (\<open>NewAt\<close>, \<open>Serve\<close>, \<open>acceptLoop\<close> and \<open>Close\<close> of \<open>internal/presenter/server.go\<close>). The handlers
  of single connections are those of \<open>Presenter\<close>; here only their number counts, as in \<open>s.wg\<close>.
\<close>

section \<open>The listening socket\<close>

datatype serve_fault = OwnerMissing | ServerStarted | ListenFailed dir_error

text \<open>\<open>ls_done\<close> is the buffer of the channel \<open>done\<close>, of capacity 1.\<close>

record listening =
  ls_started :: bool
  ls_listener :: bool
  ls_path :: bytes
  ls_stop :: bool
  ls_done :: "bytes list"
  ls_doneClosed :: bool
  ls_accepting :: bool
  ls_handlers :: nat

definition NewAt :: listening where
  "NewAt = \<lparr>ls_started = False, ls_listener = False, ls_path = [], ls_stop = False, ls_done = [],
     ls_doneClosed = False, ls_accepting = False, ls_handlers = 0\<rparr>"

definition presenter_Serve ::
  "'w kernel \<Rightarrow> bytes \<Rightarrow> uint32 \<Rightarrow> bool \<Rightarrow> listening \<Rightarrow> 'w \<Rightarrow> serve_fault goerror \<times> listening \<times> 'w" where
  "presenter_Serve k runtimeDir uid owner l w =
    (if \<not> owner then (Some OwnerMissing, l, w)
     else if ls_started l then (Some ServerStarted, l, w)
     else let l = l\<lparr>ls_started := True\<rparr> in
     case listenRuntime k runtimeDir uid w of
       (Inl e, w) \<Rightarrow> (Some (ListenFailed e), l, w)
     | (Inr path, w) \<Rightarrow>
         (None, l\<lparr>ls_listener := True, ls_path := path, ls_accepting := True\<rparr>, w))"

text \<open>One turn of \<open>acceptLoop\<close>, with the error's text if \<open>AcceptUnix\<close> reports one.\<close>

definition accept_turn :: "bytes option \<Rightarrow> listening \<Rightarrow> listening" where
  "accept_turn problem l =
    (case problem of
      None \<Rightarrow> l\<lparr>ls_handlers := Suc (ls_handlers l)\<rparr>
    | Some text \<Rightarrow>
        let l = l\<lparr>ls_accepting := False\<rparr> in
        if ls_stop l then l
        else if ls_done l = [] then l\<lparr>ls_done := [text]\<rparr> else l)"

text \<open>\<open>Close\<close> up to \<open>wg.Wait\<close>, and after it.\<close>

definition presenter_Close :: "'w kernel \<Rightarrow> listening \<Rightarrow> 'w \<Rightarrow> listening \<times> 'w" where
  "presenter_Close k l w =
    (l\<lparr>ls_stop := True, ls_listener := False\<rparr>, if ls_listener l then sys_unlisten k (ls_path l) w else w)"

definition presenter_Closed ::
  "'w kernel \<Rightarrow> listening \<Rightarrow> 'w \<Rightarrow> errno goerror \<times> listening \<times> 'w" where
  "presenter_Closed k l w =
    (let (err, w) = (if ls_path l \<noteq> [] then sys_remove k (ls_path l) w else (None, w));
         err = (if err = Some NotExist then None else err)
     in (err, l\<lparr>ls_doneClosed := True\<rparr>, w))"

section \<open>What the service holds\<close>

text \<open>The watcher's loop counts together with the context it runs under.\<close>

datatype resource = StateOwner | SessionBus | WatcherLoop | PresenterSocket

datatype ledger_entry = Acquired resource | Released resource

text \<open>
  What a ledger leaves open, newest first. Only what was acquired last may be released; anything
  else is no orderly history.
\<close>

fun open_after :: "ledger_entry list \<Rightarrow> resource list \<Rightarrow> resource list option" where
  "open_after [] rs = Some rs"
| "open_after (Acquired r # es) rs = open_after es (r # rs)"
| "open_after (Released r # es) rs =
    (case rs of [] \<Rightarrow> None | r' # rs \<Rightarrow> if r' = r then open_after es rs else None)"

lemma open_after_append:
  "open_after (es @ fs) rs = (case open_after es rs of None \<Rightarrow> None | Some rs' \<Rightarrow> open_after fs rs')"
  by (induction es rs rule: open_after.induct) (auto split: list.split)

text \<open>The fields of \<open>App\<close> that hold something.\<close>

record holdings =
  hl_owner :: bool
  hl_conn :: bool
  hl_watcher :: bool
  hl_presenter :: bool
  hl_closing :: bool
  hl_ledger :: "ledger_entry list"

definition service_New :: holdings where
  "service_New = \<lparr>hl_owner = False, hl_conn = False, hl_watcher = False, hl_presenter = False,
     hl_closing = False, hl_ledger = []\<rparr>"

definition note_entry :: "ledger_entry \<Rightarrow> holdings \<Rightarrow> holdings" where
  "note_entry e h = h\<lparr>hl_ledger := hl_ledger h @ [e]\<rparr>"

datatype service_error = ServiceStarted | NoBus | ServeFailed serve_fault | AcceptLost bytes
  | SocketNotClosed | SocketNotRemoved errno | BusNotClosed

text \<open>
  \<open>unwind\<close> in three parts: the fields are taken, the presenter is closed (by \<open>presenter_Close\<close> and
  \<open>presenter_Closed\<close>), and then the rest goes, newest first
  (the workers, which come first, are those of \<open>App\<close>); \<open>bus_ok\<close> is what \<open>conn.Close\<close> says.
  \<open>owner.Close\<close> never fails.
\<close>

definition give_back :: "bool \<Rightarrow> resource \<Rightarrow> holdings \<Rightarrow> holdings" where
  "give_back had r h = (if had then note_entry (Released r) h else h)"

definition unwind_rest :: "bool \<Rightarrow> holdings \<Rightarrow> service_error list \<times> holdings" where
  "unwind_rest bus_ok h =
    (let conn = hl_conn h; owner = hl_owner h; loop = hl_watcher h;
         h = h\<lparr>hl_owner := False, hl_conn := False, hl_watcher := False, hl_closing := True\<rparr>;
         h = give_back owner StateOwner (give_back conn SessionBus (give_back loop WatcherLoop h))
     in (if conn \<and> \<not> bus_ok then [BusNotClosed] else [], h))"

text \<open>\<open>Start\<close>: \<open>bus\<close> says whether the session bus answered, \<open>bus_ok\<close> what its \<open>Close\<close> would say.\<close>

definition service_Start ::
  "'w kernel \<Rightarrow> bytes \<Rightarrow> uint32 \<Rightarrow> bool \<Rightarrow> bool \<Rightarrow> holdings \<Rightarrow> 'w \<Rightarrow>
    service_error goerror \<times> holdings \<times> listening \<times> 'w" where
  "service_Start k runtimeDir uid bus bus_ok h w =
    (if hl_owner h then (Some ServiceStarted, h, NewAt, w)
     else let h = note_entry (Acquired StateOwner) h in
     if \<not> bus then (Some NoBus, note_entry (Released StateOwner) h, NewAt, w)
     else let h = note_entry (Acquired WatcherLoop) (note_entry (Acquired SessionBus)
            (h\<lparr>hl_owner := True, hl_conn := True, hl_watcher := True, hl_closing := False\<rparr>)) in
     case presenter_Serve k runtimeDir uid True NewAt w of
       (Some e, l, w) \<Rightarrow> (Some (ServeFailed e), snd (unwind_rest bus_ok h), l, w)
     | (None, l, w) \<Rightarrow> (None, note_entry (Acquired PresenterSocket) (h\<lparr>hl_presenter := True\<rparr>), l, w))"

section \<open>The process\<close>

text \<open>Where \<open>Run\<close> is: at its \<open>select\<close>, in \<open>Server.Close\<close>, at \<open>wg.Wait\<close>, or back in \<open>main\<close>.\<close>

datatype stage = Fresh | Selecting | ClosingPresenter | WaitingPresenter | Exited "service_error list"

record process =
  pc_stage :: stage
  pc_holdings :: holdings
  pc_listening :: listening
  pc_cancelled :: bool
  pc_errors :: "service_error list"

definition new_process :: process where
  "new_process = \<lparr>pc_stage = Fresh, pc_holdings = service_New, pc_listening = NewAt,
     pc_cancelled = False, pc_errors = []\<rparr>"

text \<open>\<open>main\<close> reports an error with status 1.\<close>

definition main_status :: "service_error list \<Rightarrow> nat" where
  "main_status errs = (if errs \<noteq> [] then 1 else 0)"

definition run_Start ::
  "'w kernel \<Rightarrow> bytes \<Rightarrow> uint32 \<Rightarrow> bool \<Rightarrow> bool \<Rightarrow> process \<times> 'w \<Rightarrow> process \<times> 'w" where
  "run_Start k runtimeDir uid bus bus_ok s =
    (case s of (p, w) \<Rightarrow>
     case service_Start k runtimeDir uid bus bus_ok (pc_holdings p) w of
       (err, h, l, w) \<Rightarrow>
         (p\<lparr>pc_holdings := h, pc_listening := l,
            pc_stage := (case err of Some e \<Rightarrow> Exited [e] | None \<Rightarrow> Selecting)\<rparr>, w))"

text \<open>The two cases of the \<open>select\<close>; \<open>Close\<close> then marks the service as closing.\<close>

definition begin_Close :: "process \<Rightarrow> process" where
  "begin_Close p = p\<lparr>pc_stage := ClosingPresenter,
     pc_holdings := (pc_holdings p)\<lparr>hl_closing := True\<rparr>\<rparr>"

definition select_done :: "process \<Rightarrow> process" where
  "select_done p =
    (case ls_done (pc_listening p) of
      [] \<Rightarrow> begin_Close p
    | text # rest \<Rightarrow>
        begin_Close (p\<lparr>pc_errors := [AcceptLost text],
          pc_listening := (pc_listening p)\<lparr>ls_done := rest\<rparr>\<rparr>))"

definition close_presenter :: "'w kernel \<Rightarrow> bool \<Rightarrow> process \<times> 'w \<Rightarrow> process \<times> 'w" where
  "close_presenter k ok s =
    (case s of (p, w) \<Rightarrow>
     case presenter_Close k (pc_listening p) w of
       (l, w) \<Rightarrow> (p\<lparr>pc_stage := WaitingPresenter, pc_listening := l,
         pc_errors := pc_errors p @ (if ok then [] else [SocketNotClosed])\<rparr>, w))"

definition finish_Close :: "'w kernel \<Rightarrow> bool \<Rightarrow> process \<times> 'w \<Rightarrow> process \<times> 'w" where
  "finish_Close k bus_ok s =
    (case s of (p, w) \<Rightarrow>
     case presenter_Closed k (pc_listening p) w of
       (err, l, w) \<Rightarrow>
         let h = give_back (hl_presenter (pc_holdings p)) PresenterSocket
               ((pc_holdings p)\<lparr>hl_presenter := False\<rparr>);
             (errs, h) = unwind_rest bus_ok h;
             errs = pc_errors p @ (case err of None \<Rightarrow> [] | Some e \<Rightarrow> [SocketNotRemoved e]) @ errs
         in (p\<lparr>pc_listening := l, pc_holdings := h, pc_errors := errs, pc_stage := Exited errs\<rparr>, w))"

inductive proc_step ::
  "'w kernel \<Rightarrow> bytes \<Rightarrow> uint32 \<Rightarrow> process \<times> 'w \<Rightarrow> process \<times> 'w \<Rightarrow> bool" for k runtimeDir uid where
  starts: "pc_stage p = Fresh \<Longrightarrow>
    proc_step k runtimeDir uid (p, w) (run_Start k runtimeDir uid bus bus_ok (p, w))"
| accepts: "ls_accepting (pc_listening p) \<Longrightarrow> ls_listener (pc_listening p) \<Longrightarrow>
    proc_step k runtimeDir uid (p, w) (p\<lparr>pc_listening := accept_turn None (pc_listening p)\<rparr>, w)"
| accept_fails: "ls_accepting (pc_listening p) \<Longrightarrow>
    proc_step k runtimeDir uid (p, w) (p\<lparr>pc_listening := accept_turn (Some text) (pc_listening p)\<rparr>, w)"
| handler_ends: "ls_handlers (pc_listening p) = Suc n \<Longrightarrow>
    proc_step k runtimeDir uid (p, w) (p\<lparr>pc_listening := (pc_listening p)\<lparr>ls_handlers := n\<rparr>\<rparr>, w)"
| cancels: "proc_step k runtimeDir uid (p, w) (p\<lparr>pc_cancelled := True\<rparr>, w)"
| sees_cancel: "pc_stage p = Selecting \<Longrightarrow> pc_cancelled p \<Longrightarrow>
    proc_step k runtimeDir uid (p, w) (begin_Close p, w)"
| sees_failure: "pc_stage p = Selecting \<Longrightarrow> ls_done (pc_listening p) \<noteq> [] \<or> ls_doneClosed (pc_listening p) \<Longrightarrow>
    proc_step k runtimeDir uid (p, w) (select_done p, w)"
| closes: "pc_stage p = ClosingPresenter \<Longrightarrow> proc_step k runtimeDir uid (p, w) (close_presenter k ok (p, w))"
| finishes: "pc_stage p = WaitingPresenter \<Longrightarrow> \<not> ls_accepting (pc_listening p) \<Longrightarrow>
    ls_handlers (pc_listening p) = 0 \<Longrightarrow> proc_step k runtimeDir uid (p, w) (finish_Close k bus_ok (p, w))"
| world: "proc_step k runtimeDir uid (p, w) (p, w')"

inductive proc_run :: "'w kernel \<Rightarrow> bytes \<Rightarrow> uint32 \<Rightarrow> process \<times> 'w \<Rightarrow> bool" for k runtimeDir uid where
  opens: "proc_run k runtimeDir uid (new_process, w)"
| steps: "proc_run k runtimeDir uid s \<Longrightarrow> proc_step k runtimeDir uid s s' \<Longrightarrow> proc_run k runtimeDir uid s'"

section \<open>An invariant\<close>

definition held_resources :: "holdings \<Rightarrow> resource list" where
  "held_resources h = (if hl_presenter h then [PresenterSocket] else [])
     @ (if hl_watcher h then [WatcherLoop] else []) @ (if hl_conn h then [SessionBus] else [])
     @ (if hl_owner h then [StateOwner] else [])"

text \<open>The ledger is orderly, and leaves open what the fields hold.\<close>

definition balanced :: "holdings \<Rightarrow> bool" where
  "balanced h \<longleftrightarrow> open_after (hl_ledger h) [] = Some (held_resources h)"

definition listening_ok :: "listening \<Rightarrow> bool" where
  "listening_ok l \<longleftrightarrow> length (ls_done l) \<le> 1 \<and> (ls_listener l \<longrightarrow> ls_started l)
     \<and> (ls_doneClosed l \<longrightarrow> \<not> ls_accepting l \<and> ls_handlers l = 0 \<and> \<not> ls_listener l \<and> ls_stop l)"

definition stage_ok :: "process \<Rightarrow> bool" where
  "stage_ok p \<longleftrightarrow>
    (case pc_stage p of
      Fresh \<Rightarrow> pc_holdings p = service_New \<and> pc_listening p = NewAt \<and> pc_errors p = []
    | Selecting \<Rightarrow> hl_presenter (pc_holdings p) \<and> hl_owner (pc_holdings p) \<and> pc_errors p = []
        \<and> \<not> ls_stop (pc_listening p) \<and> \<not> ls_doneClosed (pc_listening p)
    | ClosingPresenter \<Rightarrow> hl_presenter (pc_holdings p) \<and> \<not> ls_stop (pc_listening p)
        \<and> \<not> ls_doneClosed (pc_listening p) \<and> (pc_errors p = [] \<longrightarrow> pc_cancelled p)
    | WaitingPresenter \<Rightarrow> hl_presenter (pc_holdings p) \<and> ls_stop (pc_listening p)
        \<and> \<not> ls_listener (pc_listening p) \<and> \<not> ls_doneClosed (pc_listening p)
        \<and> (pc_errors p = [] \<longrightarrow> pc_cancelled p)
    | Exited errs \<Rightarrow> held_resources (pc_holdings p) = [] \<and> \<not> ls_accepting (pc_listening p)
        \<and> ls_handlers (pc_listening p) = 0 \<and> \<not> ls_listener (pc_listening p)
        \<and> (errs = [] \<longrightarrow> pc_cancelled p \<and> ls_doneClosed (pc_listening p)))"

definition proc_inv :: "process \<Rightarrow> bool" where
  "proc_inv p \<longleftrightarrow> balanced (pc_holdings p) \<and> listening_ok (pc_listening p) \<and> stage_ok p"

lemmas proc_defs = proc_inv_def balanced_def listening_ok_def stage_ok_def held_resources_def

text \<open>Releasing what is on top keeps the ledger orderly.\<close>

lemma balanced_give_back:
  assumes "open_after (hl_ledger h) [] = Some ((if had then [r] else []) @ rs)"
  shows "open_after (hl_ledger (give_back had r h)) [] = Some rs"
  using assms by (simp add: give_back_def note_entry_def open_after_append)

lemma give_back_frame [simp]:
  "hl_owner (give_back had r h) = hl_owner h" "hl_conn (give_back had r h) = hl_conn h"
  "hl_watcher (give_back had r h) = hl_watcher h" "hl_presenter (give_back had r h) = hl_presenter h"
  by (simp_all add: give_back_def note_entry_def)

lemma unwind_rest_balanced:
  assumes "balanced h" and "\<not> hl_presenter h"
  shows "balanced (snd (unwind_rest bus_ok h)) \<and> held_resources (snd (unwind_rest bus_ok h)) = []"
proof -
  from assms have "open_after (hl_ledger h) [] = Some ((if hl_watcher h then [WatcherLoop] else [])
      @ (if hl_conn h then [SessionBus] else []) @ (if hl_owner h then [StateOwner] else []))"
    by (simp add: balanced_def held_resources_def)
  with assms(2) show ?thesis
    by (simp add: unwind_rest_def Let_def balanced_def held_resources_def give_back_def note_entry_def
      open_after_append)
qed

lemma Start_inv:
  assumes "pc_stage p = Fresh" and "proc_inv p"
  shows "proc_inv (fst (run_Start k dir uid bus bus_ok (p, w)))"
proof (cases bus)
  case False
  with assms show ?thesis
    by (simp add: run_Start_def service_Start_def proc_defs service_New_def NewAt_def Let_def note_entry_def)
next
  case True
  let ?h = "note_entry (Acquired WatcherLoop) (note_entry (Acquired SessionBus)
    ((note_entry (Acquired StateOwner) service_New)\<lparr>hl_owner := True, hl_conn := True, hl_watcher := True,
      hl_closing := False\<rparr>))"
  have h: "balanced ?h" "\<not> hl_presenter ?h"
    by (simp_all add: balanced_def held_resources_def note_entry_def service_New_def)
  show ?thesis
  proof (cases "fst (listenRuntime k dir uid w)")
    case (Inl e)
    with assms True unwind_rest_balanced [OF h, of bus_ok] show ?thesis
      by (auto simp: run_Start_def service_Start_def presenter_Serve_def proc_inv_def stage_ok_def
        listening_ok_def Let_def service_New_def NewAt_def case_prod_beta)
  next
    case (Inr path)
    with assms True show ?thesis
      by (auto simp: run_Start_def service_Start_def presenter_Serve_def proc_defs Let_def service_New_def
        NewAt_def case_prod_beta note_entry_def)
  qed
qed

lemma finish_inv:
  assumes "proc_inv p" and "pc_stage p = WaitingPresenter" and "\<not> ls_accepting (pc_listening p)"
    and "ls_handlers (pc_listening p) = 0"
  shows "proc_inv (fst (finish_Close k bus_ok (p, w)))"
proof -
  let ?h = "give_back (hl_presenter (pc_holdings p)) PresenterSocket ((pc_holdings p)\<lparr>hl_presenter := False\<rparr>)"
  have "balanced ?h" "\<not> hl_presenter ?h"
    using assms(1) balanced_give_back [of "(pc_holdings p)\<lparr>hl_presenter := False\<rparr>"]
    by (simp_all add: proc_inv_def balanced_def held_resources_def)
  from unwind_rest_balanced [OF this, of bus_ok] assms show ?thesis
    by (auto simp: finish_Close_def presenter_Closed_def Let_def case_prod_beta proc_inv_def stage_ok_def
      listening_ok_def split: option.splits)
qed

lemma proc_step_inv: "proc_step k dir uid s s' \<Longrightarrow> proc_inv (fst s) \<Longrightarrow> proc_inv (fst s')"
proof (induction rule: proc_step.induct)
  case (starts p w bus bus_ok)
  then show ?case using Start_inv by simp
next
  case (finishes p w bus_ok)
  then show ?case using finish_inv by simp
next
  case (sees_failure p w)
  then show ?case
    by (auto simp: select_done_def begin_Close_def proc_defs split: list.splits)
qed (auto simp: accept_turn_def begin_Close_def close_presenter_def presenter_Close_def proc_defs Let_def
  NewAt_def split: stage.splits option.splits)

lemma proc_run_inv: "proc_run k dir uid s \<Longrightarrow> proc_inv (fst s)"
  by (induction rule: proc_run.induct)
    (simp_all add: proc_step_inv, simp add: proc_defs new_process_def service_New_def NewAt_def)

section \<open>How the process ends\<close>


text \<open>An example: the service starts, is asked to end, and ends.\<close>

definition toy_started :: "process \<times> toy_fs" where
  "toy_started = run_Start (toy_kernel 7) ''/r'' 7 True True (new_process, toy_world)"

definition toy_stopping :: "process \<times> toy_fs" where
  "toy_stopping = close_presenter (toy_kernel 7) True
     (begin_Close ((fst toy_started)\<lparr>pc_cancelled := True\<rparr>), snd toy_started)"

definition toy_stopped :: "process \<times> toy_fs" where
  "toy_stopped = finish_Close (toy_kernel 7) True
     ((fst toy_stopping)\<lparr>pc_listening := accept_turn (Some ''closed'') (pc_listening (fst toy_stopping))\<rparr>,
      snd toy_stopping)"

lemma toy_started_stage: "pc_stage (fst toy_started) = Selecting \<and> pc_errors (fst toy_started) = []
    \<and> ls_accepting (pc_listening (fst toy_started)) \<and> ls_handlers (pc_listening (fst toy_started)) = 0"
  using toy_listens
  by (simp add: toy_started_def run_Start_def service_Start_def presenter_Serve_def new_process_def
    service_New_def NewAt_def note_entry_def Let_def case_prod_beta)

lemma toy_stopped_run: "proc_run (toy_kernel 7) ''/r'' 7 toy_stopped"
proof -
  have "proc_run (toy_kernel 7) ''/r'' 7 (fst toy_started, snd toy_started)"
    unfolding toy_started_def prod.collapse
    by (rule proc_run.steps [OF proc_run.opens proc_step.starts]) (simp add: new_process_def)
  from proc_run.steps [OF this proc_step.cancels]
  have "proc_run (toy_kernel 7) ''/r'' 7 (begin_Close ((fst toy_started)\<lparr>pc_cancelled := True\<rparr>), snd toy_started)"
    by (rule proc_run.steps [OF _ proc_step.sees_cancel]) (simp_all add: toy_started_stage)
  then have stopping: "proc_run (toy_kernel 7) ''/r'' 7 (fst toy_stopping, snd toy_stopping)"
    unfolding toy_stopping_def prod.collapse
    by (rule proc_run.steps [OF _ proc_step.closes]) (simp add: begin_Close_def)
  have loop: "ls_accepting (pc_listening (fst toy_stopping))" "ls_handlers (pc_listening (fst toy_stopping)) = 0"
    "pc_stage (fst toy_stopping) = WaitingPresenter"
    using toy_started_stage
    by (simp_all add: toy_stopping_def close_presenter_def presenter_Close_def begin_Close_def case_prod_beta)
  show ?thesis
    unfolding toy_stopped_def
    by (rule proc_run.steps [OF proc_run.steps [OF stopping proc_step.accept_fails] proc_step.finishes])
      (use loop in \<open>simp_all add: accept_turn_def Let_def\<close>)
qed


end
