(* ===== verification/Spec2Isabelle.thy ===== *)
theory Spec2Isabelle
  imports Session Limiter App_Owner App_Commands App_Faults Presenter_Faults Frame Runtime_Dir
    Proxy_Life Wire_Properties State_Properties Command_Properties App_Properties
    Watcher_Properties Menu_Properties Item_Properties Presenter_Properties Whole_Service
    Service_Process
begin

text \<open>
  Verification of \<open>sysc-tray\<close>, a Go service that reads the tray items (StatusNotifierItem, DBusMenu)
  of a desktop session over D-Bus and serves them to one presenter over a Unix socket.

  \<^bold>\<open>The program.\<close> A \<^emph>\<open>watcher\<close> (\<open>internal/watcher\<close>) is told which items exist: it owns the name
  StatusNotifierWatcher, or attaches to whoever does, and reports each item with a generation number.
  The \<^emph>\<open>application\<close> (\<open>internal/app/run.go\<close>) keeps a worker per item generation, with an item reader
  (\<open>internal/item\<close>), a menu reader (\<open>internal/menu\<close>) and the identity of the process behind the item
  (\<open>internal/ownership\<close>). What the readers publish goes to the \<^emph>\<open>state owner\<close> (\<open>internal/state\<close>), an
  actor that holds the published items and sends each change as a numbered delta to its sink. The
  sink is the connection of the \<^emph>\<open>presenter\<close> (\<open>internal/presenter\<close>), which starts with a snapshot. In the
  other direction a presenter's commands go from its connection to the application, which forwards
  them to a reader, or signals the process. Frames, messages and their limits are in \<open>protocol\<close>.

  \<^bold>\<open>Theories and sources.\<close> An operation has the name it has in the source, with the receiver or package
  as a prefix where two clash; record fields carry a two letter prefix. Go integers are words, strings
  and byte slices lists of characters, \<open>error\<close> is an option (None is nil) or the left side of a sum.
  \<^item> \<open>Prelude\<close>, \<open>Utf8\<close>: Go integers, slices and maps (association lists with distinct keys, so that an
    order of iteration can be a parameter), \<open>unicode/utf8\<close>, \<open>strings\<close>.
  \<^item> \<open>Protocol\<close>, \<open>Validation\<close>, \<open>Frame\<close>: \<open>protocol/types.go\<close>, \<open>validate.go\<close>, \<open>frame.go\<close>. For each
    validator an \<open>_ok\<close> predicate says what it accepts, in the \<open>valid_defs\<close> collection.
  \<^item> \<open>State_Owner\<close>: \<open>internal/state/owner.go\<close>; \<open>owner\<close> is \<open>Owner\<close>, \<open>owner_step\<close> one closure run by its
    goroutine, \<open>owner_run\<close> any sequence of them. \<open>owner_inv\<close> is its invariant.
  \<^item> \<open>Replica\<close>: the specification of a presenter. \<open>apply_envelope\<close> takes one delta strictly (next sequence,
    known key, newer generation), \<open>replay\<close> a list of frames; \<open>synced\<close> relates its view to the owner.
    The locale \<open>sink\<close> states what the owner expects of \<open>Send\<close>; the refinement is proved in it.
  \<^item> \<open>Connection\<close>: \<open>internal/presenter/connection.go\<close>, queue, counters, handshake and writer; \<open>conn_step\<close>
    interleaves them and \<open>conn_inv\<close> is invariant. \<open>Session\<close> interprets \<open>sink\<close> on a hub of connections.
  \<^item> \<open>Dispatch\<close>: the read loop, \<open>dispatch\<close>, \<open>readHello\<close>. \<open>Presenter\<close>: \<open>handle\<close>, \<open>connectionDone\<close> and
    \<open>Close\<close> of \<open>server.go\<close> as the step relation \<open>pres_step\<close> over all handlers, the owner and the
    connections. \<open>Presenter_Faults\<close>: two interleavings that go wrong. \<open>Runtime_Dir\<close>: \<open>listenRuntime\<close>.
  \<^item> \<open>Watcher\<close>: \<open>address.go\<close> and the tables of \<open>server.go\<close> and \<open>attach.go\<close>; the locale \<open>registry\<close> states
    what an observer is promised and is interpreted on both. \<open>Watcher_Run\<close>: \<open>Serve\<close>, \<open>Close\<close>,
    \<open>serveOnce\<close>, \<open>Run\<close> and what the promise does not cover. \<open>Bus_Rules\<close>: match rules and channels on
    the shared bus connection. \<open>Watcher_Attach\<close>: \<open>client.attach\<close>, its pump and \<open>close\<close> as the step
    relation \<open>attach_run\<close>. \<open>Watcher_Mirror\<close>: the signals the server emits, as a client hears them.
  \<^item> \<open>Dbusval\<close>: \<open>internal/dbusval/value.go\<close>. \<open>Item_Model\<close>, \<open>Limiter\<close>: \<open>internal/item\<close>.
    \<open>Menu_Model\<close>, \<open>Menu_Convert\<close>, \<open>Menu_Validate\<close>, \<open>Menu_Proxy\<close>: \<open>internal/menu\<close>; the locale \<open>visitor\<close>
    states what one visit of a node must do and is interpreted on the recursive and the iterative
    validator. \<open>Proxy_Life\<close>: the goroutines of both readers.
  \<^item> \<open>Ownership\<close>: \<open>internal/ownership\<close>. \<open>App\<close>: the handlers of \<open>run.go\<close>, a \<open>task\<close> being a handler
    between two sections under the lock; \<open>App_Owner\<close> connects them with the state owner,
    \<open>App_Commands\<close> holds the commands and \<open>Terminate\<close>, \<open>App_Faults\<close> what goes wrong.
  \<^item> \<open>Whole_Service\<close>: watcher, application, state owner and connection composed; \<open>writer_turns\<close> lets the
    writer catch up. \<open>Service_Process\<close>: \<open>main\<close>, \<open>App.Start\<close>, \<open>Run\<close> and \<open>unwind\<close> with a ledger of what
    is held, and the accept loop of the presenter server, as the step relation \<open>proc_step\<close>.
  \<^item> The \<open>_Properties\<close> theories and this one hold the properties, numbered by importance, each with an
    example that applies it.

  \<^bold>\<open>What the lemmas show.\<close> The invariants \<open>owner_inv\<close>, \<open>conn_inv\<close>, \<open>pres_inv\<close>, \<open>server_inv\<close>, \<open>client_inv\<close>,
  \<open>app_inv\<close>, \<open>subscriber_inv\<close>, \<open>attach_inv\<close> and \<open>proc_inv\<close> are kept by every operation. From them follow the
  bounds and the order of the stream, the single presenter, the ownership of readers, and that what
  was acquired is released. The refinements are those of the owner by a presenter's view, of the
  watchers by an observer, of a server by a client, of the readers' life cycle; the equivalences
  those of the two menu validators, of the in-place conversion with the recursive one, and of strict
  decoding with unique keys. Where the code terminates for a reason, that is proved too: \<open>Close\<close>,
  \<open>Terminate\<close>, writing and the scan of a document.

  \<^bold>\<open>Fuel and bounds.\<close> \<open>read_tree\<close>, which follows the pointers of the finished menu, has fuel
  \<open>Suc MaxMenuDepth\<close>: no node lies deeper than \<open>MaxMenuDepth\<close>, as the conversion gives up there. The loop of \<open>convertLayout\<close> terminates by the measure
  513 minus the nodes taken, as it gives up above 512. \<open>Terminate\<close> has fuel 32: the wait of 3 s in looks
  at least 100 ms apart ends within 32 of them, as \<open>terminate_ends\<close> shows. The scan for repeated keys
  has as fuel one more than the number of tokens, and each level takes a token. \<open>close_within\<close> counts
  6 steps: two of a read under way, two exits and two joins. Sequences do not wrap within \<open>2 ^ 64\<close>
  deltas; this is a hypothesis where it matters.

  \<^bold>\<open>Parameters.\<close> Code outside the repository is an argument, with what is relied on as a hypothesis:
  \<open>encoding/json\<close> (\<open>mar\<close>, \<open>frame\<close>, and \<open>codec\<close>: decoding undoes encoding), its token stream (\<open>tokenise\<close>) and
  \<open>json.Valid\<close> (\<open>jv\<close>); \<open>dbus.ObjectPath.IsValid\<close> (\<open>path_valid\<close>, \<open>path_spec\<close>: it accepts only ASCII that begins with a slash);
  \<open>dbus.Store\<close> of a reply; the bus daemon's resolution of names; the growth of slices by \<open>append\<close>
  (\<open>growing\<close>: never below what is needed); the order in which Go ranges over a map (\<open>rearranges\<close>); the
  kernel's file system calls, \<open>/proc\<close> and the clock.

  \<^bold>\<open>Not modelled.\<close> The bytes of JSON and of D-Bus; socket options and deadlines (their outcomes are
  arguments of the handler); the timeouts of single calls; the atomic \<open>Mode\<close>, which is only written;
  accessors such as \<open>SocketPath\<close>; \<open>internal/dbustest\<close> and the tests. What an operation tells an observer
  is one step with the operation, except where the race between the two is the subject
  (\<open>server_race\<close>, \<open>client_race\<close>).
  A refused \<open>Send\<close> fails its connection in the same step, where the code releases the lock in between;
  \<open>Send_locked_refused\<close> shows why nothing is lost by that.
  \<open>dbus.MakeVariant\<close> panics on a Go type without a D-Bus signature; values that were decoded from the
  bus have one, and no other is modelled.

  \<^bold>\<open>What it found.\<close> A presenter can be current and served while the owner has no sink
  (\<open>served_but_deaf\<close>); \<open>Close\<close> can wait for a peer (\<open>close_waits_for_peer\<close>); a snapshot can be too large
  for its own validator (\<open>snapshot_exact\<close>); a refused \<open>Start\<close> takes away a neighbour's match rule
  (\<open>refused_start_unwatches_owner\<close>); a reader started after its withdrawal keeps its rules
  (\<open>late_start_reached\<close>); a watcher that is restarted counts from 1 again (\<open>restarted_refused\<close>);
  an announcement can be overtaken by its withdrawal (\<open>race_overtakes\<close>), and by the next generation
  while a client attaches (\<open>client_race_overtakes\<close>).
\<close>

section \<open>A small session, for the witnesses\<close>

definition demo_key :: item_key where
  "demo_key = \<lparr>ik_Owner = '':1.7'', ik_ObjectPath = ''/I'', ik_Generation = 1\<rparr>"

definition demo_item :: item where
  "demo_item = zero_item\<lparr>it_Key := demo_key, it_ID := ''a'', it_Category := CategoryHardware,
     it_Status := StatusActive\<rparr>"

definition demo_mar :: marshaller where
  "demo_mar p = (if p = PItem demo_item then Some ''p'' else None)"

definition demo_decode :: "bytes \<Rightarrow> payload option" where
  "demo_decode b = (if b = ''p'' then Some (PItem demo_item) else None)"

definition demo_added :: envelope where
  "demo_added = \<lparr>en_Kind = KindItemAdded, en_RequestID = 0, en_Sequence = 1, en_Payload = ''p''\<rparr>"

definition demo_frame :: framer where
  "demo_frame e = (if e = demo_added then Some ''f'' else None)"

definition demo_unframe :: "bytes \<Rightarrow> envelope option" where
  "demo_unframe d = (if d = ''f'' then Some demo_added else None)"

definition demo_hub :: hub where
  "demo_hub = (\<lambda>i. newConnection)"

definition demo_owner :: owner where
  "demo_owner = snd (Owner_Attach (Some 0) Owner_Start)"

lemma demo_key_ok: "key_ok demo_key"
  by (simp add: key_ok_def text_ok_def demo_key_def HasPrefix_def const_defs
    ValidString_ascii_Cons byte_val_def)

lemma demo_valid: "item_ok demo_item"
  using demo_key_ok
  by (simp add: item_ok_def demo_item_def zero_item_def zero_icon_def zero_tooltip_def icon_ok_def
    tooltip_ok_def text_ok_def ValidString_ascii_Cons byte_val_def const_defs Category_valid_def
    Status_valid_def item_bytes_def item_pixmaps_def pixmap_bytes_def)

lemma demo_codec: "codec demo_frame demo_mar demo_unframe demo_decode"
  by (auto simp: codec_def demo_frame_def demo_mar_def demo_unframe_def demo_decode_def
    split: if_splits)

lemma demo_hub_good: "hub_good base pro demo_hub"
  by (simp add: hub_good_def conn_good_def conn_inv_new demo_hub_def)
    (simp add: newConnection_def)

definition demo_commands :: "owner_cmd list" where
  "demo_commands = [CAdd demo_key, CUpdate demo_key demo_item]"

definition demo_after :: "owner \<times> hub" where
  "demo_after = owner_run demo_mar (hub_send demo_frame) demo_commands (demo_owner, demo_hub)"

lemma demo_trace:
  "service_trace (hub_step demo_mar demo_frame (\<lambda>i. 0) (\<lambda>i. [])) demo_mar (hub_send demo_frame)
     (demo_owner, demo_hub) demo_commands demo_after"
proof -
  have "session_cmd (CUpdate demo_key demo_item)"
    by (simp add: no_empty_slices_def demo_item_def zero_item_def zero_icon_def zero_tooltip_def)
  moreover have "service_trace (hub_step demo_mar demo_frame (\<lambda>i. 0) (\<lambda>i. [])) demo_mar
      (hub_send demo_frame) (demo_owner, demo_hub) ([] @ [CAdd demo_key])
      (owner_step demo_mar (hub_send demo_frame) (CAdd demo_key) (demo_owner, demo_hub))"
    by (rule service_trace.commands [OF service_trace.begins]) simp
  ultimately show ?thesis
    unfolding demo_after_def demo_commands_def owner_run.simps
    by (metis append_Cons append_Nil service_trace.commands)
qed

lemma demo_item_same [simp]: "demo_item\<lparr>it_Key := demo_key\<rparr> = demo_item"
  by (simp add: demo_item_def zero_item_def)

lemma demo_after_eq:
  "demo_after = (\<lparr>ow_items = [(addr_of demo_key, \<lparr>rc_key = demo_key, rc_item = demo_item,
      rc_menu = zero_menu, rc_hasItem = True, rc_hasMenu = False, rc_published = True\<rparr>)],
      ow_order = [addr_of demo_key], ow_sequence = 1, ow_sink = Some 0, ow_stopped = False\<rparr>,
    demo_hub(0 := newConnection\<lparr>cn_pending := [\<lparr>ob_data = ''f'', ob_sequence = 1\<rparr>],
      cn_queuedMessages := 1, cn_queuedBytes := 1\<rparr>))"
  by (simp add: demo_after_def demo_commands_def owner_step_def submit_def demo_owner_def Owner_Attach_def
    Owner_Start_def Owner_Add_def Let_def Owner_Update_def current_def new_entry_def demo_valid
    Item_Validate_None publish_def demo_mar_def hub_send_def Send_def demo_frame_def demo_added_def
    demo_hub_def newConnection_def reserve_def const_defs)

lemma demo_reach: "conn_reach demo_mar demo_frame base pro (snd demo_after 0)"
proof -
  have "snd demo_after 0 = snd (Send demo_frame demo_added newConnection)"
    by (simp add: demo_after_eq Send_def newConnection_def reserve_def const_defs demo_frame_def
      demo_added_def)
  then show ?thesis
    using conn_reach.sends [OF conn_reach.opened] by (simp add: demo_added_def)
qed

section \<open>The presenter holds the published state\<close>




text \<open>The connection of the example once its handler has started it.\<close>

definition demo_live :: connection where
  "demo_live = start_or_fail 0 [] (snd demo_after 0)"

lemma demo_live_eq: "demo_live = newConnection\<lparr>cn_queue := [\<lparr>ob_data = ''f'', ob_sequence = 1\<rparr>],
    cn_queuedMessages := 1, cn_queuedBytes := 1, cn_lastSequence := 1, cn_started := True\<rparr>"
  by (simp add: demo_live_def demo_after_eq newConnection_def start_or_fail_def start_def
    channel_send_def const_defs followsLocked_def ValidateNextSequence_def)


section \<open>What is shown can be used\<close>

text \<open>
  C3: whatever a presenter shows is registered and alive. Take the service from its start: the items
  that registered with its watcher and the owners that left the bus, the handlers that the watcher's
  events started, none overtaken by its withdrawal, and the commands these submitted to the state owner,
  before and after this presenter attached, in between those of other presenters. When all handlers are
  done, the presenter that has read its frames shows only items that the watcher lists in that very
  generation, and each still has a worker, which answers the commands it sends.
\<close>

theorem shown_items_live:
  assumes "list_all server_fair ops" and "length ops < 2 ^ 64"
    and "fst (served.history path_valid ops NewServer) = es"
    and "app_run uid (announced es) (withdrawn es) a []" and "\<not> ap_closing a"
    and "filter from_app (before @ cs) = ap_log a" and "owner_cmd.CClose \<notin> set (before @ cs)"
    and "owner_run mar send0 before (Owner_Start, w0) = (ow, w1)"
    and "Owner_Attach (Some i) ow = (Inr snap, oa)"
    and "codec frame mar unframe decode"
    and "hub_good base pro w" and "w i = newConnection" and "base i = sn_Sequence snap"
    and "service_trace (hub_step mar frame base pro) mar (hub_send frame) (oa, w) cs (ob, wb)"
    and "unat (sn_Sequence snap) + length cs < 2 ^ 64"
    and "ow_sink ob = Some i" and "\<not> cn_failed (wb i)"
  shows "\<exists>v. replay unframe decode
      (map ob_data (filter is_delta (cn_written (wb i) @ waiting (wb i)))) (view_of_snapshot snap)
        = Some v
    \<and> (\<forall>k. gm_get (vw_items v) k \<noteq> None \<or> gm_get (vw_menus v) k \<noteq> None \<longrightarrow>
         gm_get (sv_items (snd (served.history path_valid ops NewServer))) (addr_of k) = Some k
         \<and> gm_get (ap_workers a) k \<noteq> None)"
proof -
  from served_observed [OF assms(1,2), of path_valid] obtain obs where
    obs: "observe es new_observer = Some obs"
      "gm_get (ob_live obs) = gm_get (sv_items (snd (served.history path_valid ops NewServer)))"
    unfolding assms(3) agrees_def by (elim exE conjE)
  from attached_alive [OF assms(4,5) obs(1) assms(6-17)] show ?thesis unfolding obs(2) .
qed

text \<open>The item of the example, read and handed on by the application.\<close>

definition demo_app :: app where
  "demo_app = (live_app demo_key)\<lparr>ap_log := demo_commands\<rparr>"

lemma demo_app_run: "app_run uid {demo_key} {} demo_app []"
proof -
  from app_run.item [OF live_app_run [of uid demo_key], of demo_key demo_item]
  have "app_run uid {demo_key} {} (live_app demo_key) [TItem demo_key (Inr demo_item)]" by simp
  from app_run_step [OF this, of plain_answer "[TUpdate demo_key demo_item]" "live_app demo_key"]
  have "app_run uid {demo_key} {} (live_app demo_key) [TUpdate demo_key demo_item]"
    by (simp add: onItem_def live_app_def plain_worker_def closeable_def)
  from app_run_step [OF this, of plain_answer "[TBind demo_key []]" demo_app]
  have "app_run uid {demo_key} {} demo_app [TBind demo_key []]"
    by (simp add: demo_app_def submit_owner_def live_app_def demo_commands_def demo_item_def zero_item_def)
  from app_run_step [OF this, of plain_answer "[]" demo_app] show ?thesis
    by (simp add: bindMenu_def demo_app_def live_app_def plain_worker_def)
qed

theorem shown_items_live_witness:
  "\<exists>v. replay demo_unframe demo_decode [''f''] (view_of_snapshot \<lparr>sn_Sequence = 0, sn_Items = []\<rparr>) = Some v
    \<and> (\<forall>k. gm_get (vw_items v) k \<noteq> None \<or> gm_get (vw_menus v) k \<noteq> None \<longrightarrow>
         gm_get (sv_items (snd (served.history (\<lambda>p. True) one_registration NewServer))) (addr_of k) = Some k
         \<and> gm_get (ap_workers demo_app) k \<noteq> None)"
proof -
  have es: "fst (served.history (\<lambda>p. True) one_registration NewServer) = [registry_event.ItemAdded demo_key]"
    by (simp add: one_registration_def register_def resolveRegistration_def register_locked_def
      NewServer_def isUniqueName_def HasPrefix_def Let_def case_prod_beta demo_key_def)
  have run: "app_run uid (announced [registry_event.ItemAdded demo_key])
      (withdrawn [registry_event.ItemAdded demo_key]) demo_app []" for uid
    using demo_app_run by simp
  have "owner_run demo_mar (hub_send demo_frame) [] (Owner_Start, demo_hub) = (Owner_Start, demo_hub)" by simp
  moreover have "service_trace (hub_step demo_mar demo_frame (\<lambda>i. 0) (\<lambda>i. [])) demo_mar
      (hub_send demo_frame) (demo_owner, demo_hub) demo_commands (fst demo_after, snd demo_after)"
    using demo_trace by simp
  ultimately show ?thesis
    using shown_items_live [OF _ _ es run, where i = 0 and before = "[]" and cs = demo_commands
        and w = demo_hub and base = "\<lambda>i. 0" and pro = "\<lambda>i. []" and oa = demo_owner
        and ob = "fst demo_after" and wb = "snd demo_after" and ow = Owner_Start
        and snap = "\<lparr>sn_Sequence = 0, sn_Items = []\<rparr>", OF _ _ _ _ _ _ _ demo_codec]
    by (simp add: demo_hub_good demo_owner_def Owner_Attach_def Owner_Start_def snapshotLocked_def
        one_registration_def)
      (simp add: demo_after_eq demo_hub_def newConnection_def waiting_def is_delta_def demo_app_def
        demo_commands_def from_app_def live_app_def)
qed

text \<open>
  C11: the outbound queue keeps its bounds. Whatever the owner sends and however the connection's
  goroutines interleave, a connection that has not failed holds at most 256 frames and 32 MiB, its
  counters are exactly what it holds, starting it never blocks on the channel with the lock held,
  and a frame for which \<open>reserve\<close> found room always finds room in the channel.
\<close>

theorem connection_bounds:
  assumes "conn_reach mar frame base pro c" and "\<not> cn_failed c"
  shows "counts c \<and> fst (start base pro c) \<noteq> Blocked \<and>
    (\<forall>m c1. reserve m c = Some c1 \<longrightarrow> channel_send m c1 \<noteq> None)"
proof -
  have "counts c" using conn_reach_inv [OF assms(1)] assms(2) by (simp add: conn_inv_def)
  then show ?thesis using start_not_Blocked reserved_channel by fastforce
qed

theorem connection_bounds_witness:
  "counts (snd demo_after 0) \<and> fst (start 0 [''h'', ''s''] (snd demo_after 0)) \<noteq> Blocked"
  using connection_bounds [OF demo_reach]
  by (simp add: demo_after_eq newConnection_def)

text \<open>
  C12: the order of the stream. Once started, and until it fails, a connection has written, is
  writing or will write the handshake frames first and then frames whose deltas carry the
  sequences \<open>base + 1\<close>, \<open>base + 2\<close>, ... without a gap, ending in \<open>lastSequence\<close>; nothing is left
  behind in \<open>pending\<close>.
\<close>

theorem connection_stream_order:
  assumes "conn_reach mar frame base pro c" and "cn_started c" and "\<not> cn_failed c"
  shows "take (length pro) (stream c) = prologue_frames pro \<and> cn_pending c = []
    \<and> map unat (delta_seqs c) = [Suc (unat base) ..< Suc (unat base + length (delta_seqs c))]
    \<and> cn_lastSequence c = last (base # delta_seqs c)"
  using conn_reach_inv [OF assms(1)] assms(2,3) consecutive_upt [of base "delta_seqs c"]
  by (simp add: conn_inv_def del: upt_Suc)

definition demo_started :: connection where
  "demo_started = start_or_fail 0 [''h'', ''s''] (snd demo_after 0)"

theorem connection_stream_order_witness:
  "take 2 (stream demo_started) = prologue_frames [''h'', ''s''] \<and>
    map unat (delta_seqs demo_started) = [1]"
proof -
  have eval: "cn_started demo_started \<and> \<not> cn_failed demo_started \<and> length (delta_seqs demo_started) = 1"
    by (simp add: demo_started_def demo_after_eq newConnection_def start_or_fail_def start_def
      reserve_def channel_send_def const_defs followsLocked_def ValidateNextSequence_def
      delta_seqs_def stream_def is_delta_def)
  have "conn_reach demo_mar demo_frame 0 [''h'', ''s''] demo_started"
    unfolding demo_started_def
    by (rule conn_reach.steps [OF demo_reach conn_step.starts])
      (simp add: demo_after_eq newConnection_def)
  from connection_stream_order [OF this] eval show ?thesis
    by (simp add: numeral_2_eq_2)
qed

end
